(* ===== verification/Prelude.thy ===== *)
theory Prelude
  imports Main "HOL-Library.Word" "HOL-Library.Finite_Map" "HOL-Library.List_Lexorder"
begin

text \<open>
  Shared vocabulary of the development: machine integers and Rust's checked and saturating
  arithmetic on them, results as sums with Rust's \<open>?\<close> as \<open>rbind\<close>, loops that may fail,
  and the finite maps and sets that stand for \<open>BTreeMap\<close> and \<open>BTreeSet\<close> with their
  ascending iteration order.
\<close>

unbundle bit_operations_syntax

named_theorems result_simps \<open>inversion of computations in the result type\<close>
named_theorems fm_simps \<open>lookup in finite maps after Rust's map operations\<close>

section \<open>Machine integers\<close>

type_synonym u8 = "8 word"
type_synonym u16 = "16 word"
type_synonym u32 = "32 word"
type_synonym u64 = "64 word"

definition checked_add :: "'a::len word \<Rightarrow> 'a word \<Rightarrow> 'a word option" where
  "checked_add a b = (if unat a + unat b < 2 ^ LENGTH('a) then Some (a + b) else None)"

definition saturating_add :: "'a::len word \<Rightarrow> 'a word \<Rightarrow> 'a word" where
  "saturating_add a b = (if unat a + unat b < 2 ^ LENGTH('a) then a + b else - 1)"

definition saturating_sub :: "'a::len word \<Rightarrow> 'a word \<Rightarrow> 'a word" where
  "saturating_sub a b = (if b \<le> a then a - b else 0)"

definition checked_sub :: "'a::len word \<Rightarrow> 'a word \<Rightarrow> 'a word option" where
  "checked_sub a b = (if b \<le> a then Some (a - b) else None)"

definition count_ones :: "'a::len word \<Rightarrow> nat" where
  "count_ones w = length (filter (bit w) [0..<LENGTH('a)])"

lemma unat_add_no_overflow:
  fixes a b :: "'a::len word"
  shows "unat a + unat b < 2 ^ LENGTH('a) \<Longrightarrow> unat (a + b) = unat a + unat b"
  by (simp add: unat_word_ariths)

lemma checked_add_SomeD:
  fixes a b c :: "'a::len word"
  shows "checked_add a b = Some c \<Longrightarrow> unat c = unat a + unat b"
  by (auto simp: checked_add_def unat_add_no_overflow split: if_splits)

lemma checked_add_NoneD:
  fixes a b :: "'a::len word"
  shows "checked_add a b = None \<longleftrightarrow> 2 ^ LENGTH('a) \<le> unat a + unat b"
  by (auto simp: checked_add_def)

lemma checked_sub_SomeD:
  fixes a b c :: "'a::len word"
  shows "checked_sub a b = Some c \<Longrightarrow> unat b \<le> unat a \<and> unat c = unat a - unat b"
  by (auto simp: checked_sub_def unat_sub word_le_nat_alt split: if_splits)

lemma unat_saturating_sub:
  fixes a b :: "'a::len word"
  shows "unat (saturating_sub a b) = unat a - unat b"
  by (auto simp: saturating_sub_def unat_sub word_le_nat_alt)

lemma unat_saturating_add:
  fixes a b :: "'a::len word"
  shows "unat (saturating_add a b) = min (unat a + unat b) (2 ^ LENGTH('a) - 1)"
  by (auto simp: saturating_add_def unat_add_no_overflow unsigned_minus_1_eq_mask
      mask_eq_exp_minus_1 min_def)

section \<open>Results\<close>

text \<open>\<open>Inl\<close> is Rust's \<open>Err\<close>, \<open>Inr\<close> is \<open>Ok\<close>; \<open>rbind\<close> is the \<open>?\<close> operator.\<close>

abbreviation Ok :: "'a \<Rightarrow> 'e + 'a" where
  "Ok \<equiv> Inr"

abbreviation Err :: "'e \<Rightarrow> 'e + 'a" where
  "Err \<equiv> Inl"

definition rbind :: "'e + 'a \<Rightarrow> ('a \<Rightarrow> 'e + 'b) \<Rightarrow> 'e + 'b" where
  "rbind m f = (case m of Inl e \<Rightarrow> Inl e | Inr x \<Rightarrow> f x)"

definition ensure :: "bool \<Rightarrow> 'e \<Rightarrow> 'e + unit" where
  "ensure b e = (if b then Ok () else Err e)"

definition ok_or :: "'a option \<Rightarrow> 'e \<Rightarrow> 'e + 'a" where
  "ok_or x e = (case x of None \<Rightarrow> Err e | Some v \<Rightarrow> Ok v)"

lemma rbind_simps [simp]: "rbind (Inr x) f = f x" "rbind (Inl e) f = Inl e"
  by (simp_all add: rbind_def)

lemma rbind_eq_Ok [result_simps]:
  "rbind m f = Inr y \<longleftrightarrow> (\<exists>x. m = Inr x \<and> f x = Inr y)"
  by (cases m) auto

lemma rbind_eq_Err [result_simps]:
  "rbind m f = Inl e \<longleftrightarrow> m = Inl e \<or> (\<exists>x. m = Inr x \<and> f x = Inl e)"
  by (cases m) auto

lemma ensure_eq_Ok [result_simps]: "ensure b e = Inr u \<longleftrightarrow> b"
  by (simp add: ensure_def)

lemma ensure_eq_Err [result_simps]: "ensure b e = Inl e' \<longleftrightarrow> \<not> b \<and> e' = e"
  by (auto simp: ensure_def)

lemma ok_or_eq_Ok [result_simps]: "ok_or x e = Inr v \<longleftrightarrow> x = Some v"
  by (cases x) (auto simp: ok_or_def)

lemma ok_or_eq_Err [result_simps]: "ok_or x e = Inl e' \<longleftrightarrow> x = None \<and> e' = e"
  by (cases x) (auto simp: ok_or_def)

lemma rbind_cong [fundef_cong]:
  "m = m' \<Longrightarrow> (\<And>x. m' = Inr x \<Longrightarrow> f x = g x) \<Longrightarrow> rbind m f = rbind m' g"
  by (cases m') auto

text \<open>A \<open>for\<close> loop whose body may return early with an error.\<close>

fun fold_res :: "('a \<Rightarrow> 's \<Rightarrow> 'e + 's) \<Rightarrow> 'a list \<Rightarrow> 's \<Rightarrow> 'e + 's" where
  "fold_res f [] s = Ok s"
| "fold_res f (x # xs) s = rbind (f x s) (fold_res f xs)"

lemma fold_res_append: "fold_res f (xs @ ys) s = rbind (fold_res f xs s) (fold_res f ys)"
  by (induction xs arbitrary: s) (auto simp: rbind_def split: sum.splits)

lemma fold_res_invariant:
  assumes "fold_res f xs s = Inr t" and "P s"
    and "\<And>x s s'. x \<in> set xs \<Longrightarrow> P s \<Longrightarrow> f x s = Inr s' \<Longrightarrow> P s'"
  shows "P t"
  using assms by (induction xs arbitrary: s) (auto simp: rbind_eq_Ok)

lemma fold_res_total:
  "(\<And>x s. x \<in> set xs \<Longrightarrow> f x s = Inr (g x s)) \<Longrightarrow> fold_res f xs s = Inr (fold g xs s)"
  by (induction xs arbitrary: s) auto

lemma fold_res_cong [fundef_cong]:
  "xs = ys \<Longrightarrow> s = t \<Longrightarrow> (\<And>x s. x \<in> set ys \<Longrightarrow> f x s = g x s) \<Longrightarrow> fold_res f xs s = fold_res g ys t"
  by (induction ys arbitrary: xs s t) (auto simp: rbind_def split: sum.splits)

text \<open>A loop that only checks its elements.\<close>

lemma fold_res_check_Ok:
  "fold_res f xs () = Inr () \<longleftrightarrow> (\<forall>x \<in> set xs. f x () = Inr ())"
  by (induction xs) (auto simp: rbind_eq_Ok)

lemma fold_res_check_pair_Ok:
  "fold_res (\<lambda>(a, b). f a b) xs () = Inr () \<longleftrightarrow> (\<forall>(a, b) \<in> set xs. f a b () = Inr ())"
  by (auto simp: fold_res_check_Ok)

text \<open>Collecting an iterator of results: the first error wins.\<close>

fun map_res :: "('a \<Rightarrow> 'e + 'b) \<Rightarrow> 'a list \<Rightarrow> 'e + 'b list" where
  "map_res f [] = Ok []"
| "map_res f (x # xs) = rbind (f x) (\<lambda>y. rbind (map_res f xs) (\<lambda>ys. Ok (y # ys)))"

lemma map_res_eq_Ok:
  "map_res f xs = Inr ys \<longleftrightarrow> list_all2 (\<lambda>x y. f x = Inr y) xs ys"
  by (induction xs arbitrary: ys) (auto simp: rbind_eq_Ok list_all2_Cons1)

section \<open>Ordered maps and sets\<close>

type_synonym ('k, 'v) btree_map = "('k, 'v) fmap"
type_synonym 'a btree_set = "'a fset"

text \<open>Iteration of a \<open>BTreeSet\<close> and of a \<open>BTreeMap\<close> is ascending in the key.\<close>

definition iter_set :: "'a::linorder btree_set \<Rightarrow> 'a list" where
  "iter_set S = sorted_list_of_fset S"

definition iter_map :: "('k::linorder, 'v) btree_map \<Rightarrow> ('k \<times> 'v) list" where
  "iter_map m = map (\<lambda>k. (k, the (fmlookup m k))) (sorted_list_of_fset (fmdom m))"

definition get_or :: "'v \<Rightarrow> ('k, 'v) btree_map \<Rightarrow> 'k \<Rightarrow> 'v" where
  "get_or d m k = (case fmlookup m k of None \<Rightarrow> d | Some v \<Rightarrow> v)"

definition contains_key :: "('k, 'v) btree_map \<Rightarrow> 'k \<Rightarrow> bool" where
  "contains_key m k = (fmlookup m k \<noteq> None)"

text \<open>\<open>map.entry(k).or_default()\<close> followed by an update in place.\<close>

definition modify_or :: "'v \<Rightarrow> ('v \<Rightarrow> 'v) \<Rightarrow> 'k \<Rightarrow> ('k, 'v) btree_map \<Rightarrow> ('k, 'v) btree_map" where
  "modify_or d f k m = fmupd k (f (get_or d m k)) m"

lemma sorted_list_of_fset_code [code]:
  "sorted_list_of_fset S = sorted_list_of_set (fset S)"
  by (simp add: sorted_list_of_fset.rep_eq)

lemma set_iter_set [simp]: "set (iter_set S) = fset S"
  by (simp add: iter_set_def)

lemma distinct_iter_set [simp]: "distinct (iter_set S)"
  by (simp add: iter_set_def sorted_list_of_fset.rep_eq)

lemma sorted_iter_set [simp]: "sorted (iter_set S)"
  by (simp add: iter_set_def sorted_list_of_fset.rep_eq)

lemma sorted_wrt_iter_set: "sorted_wrt (<) (iter_set S)"
  by (simp add: iter_set_def sorted_list_of_fset.rep_eq)

lemma length_iter_set [simp]: "length (iter_set S) = fcard S"
  by (simp add: iter_set_def sorted_list_of_fset.rep_eq fcard.rep_eq)

lemma iter_set_empty [simp]: "iter_set {||} = []"
  by (simp add: iter_set_def sorted_list_of_fset.rep_eq)

lemma in_set_iter_map [simp]: "(k, v) \<in> set (iter_map m) \<longleftrightarrow> fmlookup m k = Some v"
  by (force simp: iter_map_def fmlookup_dom_iff)

lemma iter_map_empty [simp]: "iter_map fmempty = []"
  by (simp add: iter_map_def sorted_list_of_fset.rep_eq)

lemma map_fst_iter_map: "map fst (iter_map m) = iter_set (fmdom m)"
  by (simp add: iter_map_def iter_set_def comp_def)

lemma distinct_iter_map [simp]: "distinct (map fst (iter_map m))"
  by (simp add: map_fst_iter_map)

lemma map_of_iter_map [simp]: "map_of (iter_map m) = fmlookup m"
proof
  fix k
  show "map_of (iter_map m) k = fmlookup m k"
  proof (cases "fmlookup m k")
    case None
    then have "k \<notin> fst ` set (iter_map m)" by auto
    then show ?thesis by (simp add: None map_of_eq_None_iff)
  next
    case (Some v)
    then have "(k, v) \<in> set (iter_map m)" by simp
    then show ?thesis by (simp add: Some)
  qed
qed

lemma get_or_fmupd [simp, fm_simps]:
  "get_or d (fmupd k v m) k' = (if k = k' then v else get_or d m k')"
  by (simp add: get_or_def)

lemma get_or_fmdrop [simp, fm_simps]:
  "get_or d (fmdrop k m) k' = (if k = k' then d else get_or d m k')"
  by (simp add: get_or_def)

lemma get_or_fmempty [simp, fm_simps]: "get_or d fmempty k = d"
  by (simp add: get_or_def)

lemma get_or_Some: "fmlookup m k = Some v \<Longrightarrow> get_or d m k = v"
  by (simp add: get_or_def)

lemma contains_key_fmupd [simp, fm_simps]:
  "contains_key (fmupd k v m) k' \<longleftrightarrow> k = k' \<or> contains_key m k'"
  by (simp add: contains_key_def)

lemma contains_key_fmdrop [simp, fm_simps]:
  "contains_key (fmdrop k m) k' \<longleftrightarrow> k \<noteq> k' \<and> contains_key m k'"
  by (simp add: contains_key_def)

lemma contains_key_fmempty [simp, fm_simps]: "\<not> contains_key fmempty k"
  by (simp add: contains_key_def)

lemma contains_key_fmdom: "contains_key m k \<longleftrightarrow> k |\<in>| fmdom m"
  by (auto simp: contains_key_def fmlookup_dom_iff)

lemma fmlookup_modify_or [simp, fm_simps]:
  "fmlookup (modify_or d f k m) k' = (if k = k' then Some (f (get_or d m k)) else fmlookup m k')"
  by (simp add: modify_or_def)

lemma get_or_modify_or [simp, fm_simps]:
  "get_or d' (modify_or d f k m) k' = (if k = k' then f (get_or d m k) else get_or d' m k')"
  by (simp add: modify_or_def)

lemma contains_key_modify_or [simp, fm_simps]:
  "contains_key (modify_or d f k m) k' \<longleftrightarrow> k = k' \<or> contains_key m k'"
  by (simp add: modify_or_def)

section \<open>Lists\<close>

text \<open>An \<open>Option\<close> as an iterator.\<close>

fun opt_list :: "'a option \<Rightarrow> 'a list" where
  "opt_list None = []"
| "opt_list (Some x) = [x]"

lemma set_opt_list: "x \<in> set (opt_list r) \<longleftrightarrow> r = Some x"
  by (cases r) auto

text \<open>\<open>Vec::insert\<close> and \<open>Vec::remove\<close> at a position in range.\<close>

definition insert_at :: "nat \<Rightarrow> 'a \<Rightarrow> 'a list \<Rightarrow> 'a list" where
  "insert_at i x xs = take i xs @ x # drop i xs"

definition remove_at :: "nat \<Rightarrow> 'a list \<Rightarrow> 'a list" where
  "remove_at i xs = take i xs @ drop (Suc i) xs"

lemma length_insert_at [simp]: "i \<le> length xs \<Longrightarrow> length (insert_at i x xs) = Suc (length xs)"
  by (simp add: insert_at_def)

lemma length_remove_at [simp]: "i < length xs \<Longrightarrow> length (remove_at i xs) = length xs - 1"
  by (simp add: remove_at_def)

lemma nth_insert_at:
  "i \<le> length xs \<Longrightarrow>
    insert_at i x xs ! j = (if j < i then xs ! j else if j = i then x else xs ! (j - 1))"
  by (auto simp: insert_at_def nth_append nth_Cons split: nat.splits
      intro!: arg_cong[where f = "nth xs"])

lemma nth_remove_at:
  "i < length xs \<Longrightarrow> remove_at i xs ! j = (if j < i then xs ! j else xs ! Suc j)"
  by (auto simp: remove_at_def nth_append)

lemma set_insert_at [simp]: "set (insert_at i x xs) = insert x (set xs)"
proof -
  have "set (take i xs) \<union> set (drop i xs) = set xs"
    by (metis append_take_drop_id set_append)
  then show ?thesis by (auto simp: insert_at_def)
qed

lemma set_remove_at_subset: "set (remove_at i xs) \<subseteq> set xs"
  by (auto simp: remove_at_def dest: in_set_takeD in_set_dropD)

end
