(* ===== verification/Ids.thy ===== *)
theory Ids
  imports Prelude
begin

text \<open>
  The 32-byte identifiers of \<open>ids.rs\<close>. The macro \<open>id_type!\<close> generates five structurally
  identical newtypes; they are one type here with five names. The derived \<open>Ord\<close> of a byte
  array is the lexicographic order. \<open>blake3\<close> is a parameter of the functions that id_hash.
\<close>

section \<open>The identifier type\<close>

typedef id32 = "{xs :: u8 list. length xs = 32}" morphisms as_bytes from_bytes
  by (rule exI[of _ "replicate 32 0"]) simp

declare as_bytes_inverse [code abstype]

type_synonym op_id = id32
type_synonym topic_id = id32
type_synonym actor_id = id32
type_synonym peer_id = id32
type_synonym eviction_key = id32

lemma length_as_bytes [simp]: "length (as_bytes x) = 32"
  using as_bytes by auto

lemma id32_eqI: "as_bytes x = as_bytes y \<Longrightarrow> x = y"
  by (simp add: as_bytes_inject)

instantiation id32 :: equal
begin

definition equal_id32 :: "id32 \<Rightarrow> id32 \<Rightarrow> bool" where
  "equal_id32 a b = (as_bytes a = as_bytes b)"

instance
  by standard (auto simp: equal_id32_def as_bytes_inject)

end

instantiation id32 :: linorder
begin

definition less_eq_id32 :: "id32 \<Rightarrow> id32 \<Rightarrow> bool" where
  "less_eq_id32 a b = (as_bytes a \<le> as_bytes b)"

definition less_id32 :: "id32 \<Rightarrow> id32 \<Rightarrow> bool" where
  "less_id32 a b = (as_bytes a < as_bytes b)"

instance
proof
  fix x y z :: id32
  show "x < y \<longleftrightarrow> x \<le> y \<and> \<not> y \<le> x"
    unfolding less_id32_def less_eq_id32_def by auto
  show "x \<le> x"
    unfolding less_eq_id32_def by simp
  show "x \<le> y \<Longrightarrow> y \<le> z \<Longrightarrow> x \<le> z"
    unfolding less_eq_id32_def by (rule order_trans)
  show "x \<le> y \<Longrightarrow> y \<le> x \<Longrightarrow> x = y"
    unfolding less_eq_id32_def by (simp add: id32_eqI)
  show "x \<le> y \<or> y \<le> x"
    unfolding less_eq_id32_def by (rule linear)
qed

end

text \<open>\<open>Default::default()\<close>, and identifiers for concrete instances: zero bytes, then one byte.\<close>

definition default_id :: id32 where
  "default_id = from_bytes (replicate 32 0)"

definition ident :: "u8 \<Rightarrow> id32" where
  "ident b = from_bytes (replicate 31 0 @ [b])"

lemma as_bytes_default_id [code abstract]: "as_bytes default_id = replicate 32 0"
  by (simp add: default_id_def from_bytes_inverse)

lemma as_bytes_ident [code abstract]: "as_bytes (ident b) = replicate 31 0 @ [b]"
  by (simp add: ident_def from_bytes_inverse)

lemma append_less_same_prefix:
  fixes xs ys zs :: "'a::linorder list"
  shows "xs @ ys < xs @ zs \<longleftrightarrow> ys < zs"
  by (induction xs) auto

lemma append_le_same_prefix:
  fixes xs ys zs :: "'a::linorder list"
  shows "xs @ ys \<le> xs @ zs \<longleftrightarrow> ys \<le> zs"
  by (induction xs) auto

lemma ident_eq_iff [simp]: "ident a = ident b \<longleftrightarrow> a = b"
  by (metis as_bytes_ident last_snoc)

lemma ident_less_iff [simp]: "ident a < ident b \<longleftrightarrow> a < b"
  by (simp add: less_id32_def as_bytes_ident append_less_same_prefix)

lemma ident_le_iff [simp]: "ident a \<le> ident b \<longleftrightarrow> a \<le> b"
  by (metis ident_less_iff linorder_not_less)

section \<open>Hashing\<close>

text \<open>\<open>X::id_hash(bytes)\<close> and \<open>actor_id_for\<close>, over the digest function \<open>blake3\<close>.\<close>

definition id_hash :: "(u8 list \<Rightarrow> id32) \<Rightarrow> u8 list \<Rightarrow> id32" where
  "id_hash blake3 bytes = blake3 bytes"

definition actor_id_for :: "(u8 list \<Rightarrow> id32) \<Rightarrow> topic_id \<Rightarrow> peer_id \<Rightarrow> actor_id" where
  "actor_id_for blake3 topic_id peer_id = blake3 (as_bytes topic_id @ as_bytes peer_id)"

section \<open>Hexadecimal text\<close>

datatype id_parse_error = IdParseError (expected_len: nat)

text \<open>\<open>{byte:02x}\<close>: two lowercase hexadecimal digits, high nibble first.\<close>

definition hex_char :: "u8 \<Rightarrow> u8" where
  "hex_char d = (if d < 10 then 48 + d else 87 + d)"

definition display_byte :: "u8 \<Rightarrow> u8 list" where
  "display_byte b = [hex_char (drop_bit 4 b), hex_char (b AND 15)]"

definition display :: "id32 \<Rightarrow> u8 list" where
  "display x = concat (map display_byte (as_bytes x))"

definition hex_nibble :: "u8 \<Rightarrow> u8 option" where
  "hex_nibble byte =
    (if 48 \<le> byte \<and> byte \<le> 57 then Some (byte - 48)
     else if 97 \<le> byte \<and> byte \<le> 102 then Some (byte - 97 + 10)
     else None)"

text \<open>The loop over \<open>chunks_exact(2)\<close>; a trailing single byte is not a chunk.\<close>

fun parse_chunks :: "u8 list \<Rightarrow> id_parse_error + u8 list" where
  "parse_chunks (c0 # c1 # rest) =
    rbind (ok_or (hex_nibble c0) (IdParseError 32)) (\<lambda>hi.
    rbind (ok_or (hex_nibble c1) (IdParseError 32)) (\<lambda>lo.
    rbind (parse_chunks rest) (\<lambda>bytes. Ok (((push_bit 4 hi) OR lo) # bytes))))"
| "parse_chunks _ = Ok []"

definition from_str :: "u8 list \<Rightarrow> id_parse_error + id32" where
  "from_str input =
    (if length input \<noteq> 64 then Err (IdParseError 32)
     else rbind (parse_chunks input) (\<lambda>bytes. Ok (from_bytes bytes)))"

lemma hex_nibble_char: "d < 16 \<Longrightarrow> hex_nibble (hex_char d) = Some d"
  unfolding hex_nibble_def hex_char_def
  by (cases d) (auto simp: word_less_nat_alt word_le_nat_alt unat_word_ariths)

lemma hex_nibble_SomeD:
  assumes "hex_nibble c = Some d"
  shows "d < 16 \<and> hex_char d = c"
proof -
  consider (digit) "48 \<le> c" "c \<le> 57" "d = c - 48" | (letter) "97 \<le> c" "c \<le> 102" "d = c - 87"
    using assms by (auto simp: hex_nibble_def split: if_splits)
  then show ?thesis
  proof cases
    case digit
    then have "unat d = unat c - 48" by (simp add: unat_sub)
    then show ?thesis using digit by (auto simp: hex_char_def word_less_nat_alt word_le_nat_alt)
  next
    case letter
    then have "87 \<le> c" by (simp add: word_le_nat_alt)
    then have "unat d = unat c - 87" using letter by (simp add: unat_sub)
    then show ?thesis using letter by (auto simp: hex_char_def word_less_nat_alt word_le_nat_alt)
  qed
qed

lemma and_15: "(b :: u8) AND 15 = take_bit 4 b"
  by (simp add: take_bit_eq_mask mask_eq_exp_minus_1)

lemma byte_lt_256: "unat (b :: u8) < 256"
  using unsigned_less[of b] by simp

lemma nibble_lt_16: "drop_bit 4 (b :: u8) < 16" "(b :: u8) AND 15 < 16"
  using byte_lt_256[of b]
  by (auto simp: word_less_nat_alt unat_drop_bit_eq drop_bit_eq_div and_15 unat_div unat_mod
      take_bit_eq_mod)

lemma join_nibbles: "push_bit 4 (drop_bit 4 b) OR (b AND 15) = (b :: u8)"
  unfolding and_15 by (rule bit_word_eqI) (auto simp: bit_simps)

lemma lt_16_take_bit: "x < (16 :: u8) \<Longrightarrow> take_bit 4 x = x"
  by (rule word_unat_eq_iff[THEN iffD2])
    (auto simp: word_less_nat_alt unat_mod take_bit_eq_mod)

lemma lt_16_bit: "x < (16 :: u8) \<Longrightarrow> bit x n \<Longrightarrow> n < 4"
  by (metis bit_take_bit_iff lt_16_take_bit)

lemma split_nibbles:
  fixes hi lo :: u8
  assumes "hi < 16" "lo < 16"
  shows "drop_bit 4 (push_bit 4 hi OR lo) = hi" "(push_bit 4 hi OR lo) AND 15 = lo"
  unfolding and_15
  by (rule bit_word_eqI; use assms in \<open>auto simp: bit_simps dest: lt_16_bit\<close>)+

lemma parse_display_bytes: "parse_chunks (concat (map display_byte bs)) = Ok bs"
  by (induction bs) (simp_all add: display_byte_def hex_nibble_char nibble_lt_16 ok_or_def join_nibbles)

lemma parse_chunks_OkD:
  "parse_chunks cs = Ok bs \<Longrightarrow> even (length cs) \<Longrightarrow>
    concat (map display_byte bs) = cs \<and> length cs = 2 * length bs"
proof (induction cs arbitrary: bs rule: parse_chunks.induct)
  case (1 c0 c1 rest)
  obtain hi lo bs' where nibbles: "hex_nibble c0 = Some hi" "hex_nibble c1 = Some lo"
    and rest: "parse_chunks rest = Ok bs'" and bs: "bs = (push_bit 4 hi OR lo) # bs'"
    using "1.prems" by (auto simp: result_simps)
  have "concat (map display_byte bs') = rest \<and> length rest = 2 * length bs'"
    using "1.IH"[OF _ _ rest] "1.prems"(2) nibbles by (simp add: ok_or_def)
  moreover have "display_byte (push_bit 4 hi OR lo) = [c0, c1]"
    using hex_nibble_SomeD[OF nibbles(1)] hex_nibble_SomeD[OF nibbles(2)]
    by (simp add: display_byte_def split_nibbles del: drop_bit_or)
  ultimately show ?case by (simp add: bs)
qed auto

lemma length_display: "length (display x) = 64"
proof -
  have "length (concat (map display_byte bs)) = 2 * length bs" for bs
    by (induction bs) (auto simp: display_byte_def)
  then show ?thesis by (simp add: display_def)
qed


end
