(* ===== verification/Clock_Node.thy ===== *)
theory Clock_Node
  imports Ids
begin

text \<open>
  The persistent trie of \<open>clock.rs\<close>: nodes over the nibbles of actor ids, and the functions
  \<open>nibble\<close>, \<open>first_difference\<close>, \<open>pair\<close>, \<open>slot\<close>, \<open>selected_node\<close>, \<open>set_node\<close>, \<open>union\<close>,
  \<open>union_children\<close>, \<open>observed\<close>, \<open>lookup\<close> and the cursor. Sharing through \<open>Arc\<close> is value
  semantics; \<open>Arc::ptr_eq\<close> is a parameter \<open>ptr_eq\<close> that may only hold of equal nodes. The
  cached hash of a node is not part of the model. An index into \<open>children\<close> that is out of range
  (a panic in the code) leaves the node unchanged; \<open>wf_node\<close> excludes it.
\<close>

section \<open>Nodes\<close>

datatype node =
    Leaf actor_id u64
  | Branch nat u16 nat actor_id "node list"

fun nkey :: "node \<Rightarrow> actor_id" where
  "nkey (Leaf actor seq) = actor"
| "nkey (Branch level bitmap len key children) = key"

fun nlen :: "node \<Rightarrow> nat" where
  "nlen (Leaf actor seq) = 1"
| "nlen (Branch level bitmap len key children) = len"

definition nibble :: "actor_id \<Rightarrow> nat \<Rightarrow> nat" where
  "nibble actor level =
    (let byte = as_bytes actor ! (level div 2)
     in if even level then unat (drop_bit 4 byte) else unat (byte AND 15))"

definition first_difference :: "actor_id \<Rightarrow> actor_id \<Rightarrow> nat option" where
  "first_difference x y =
    (let a = as_bytes x; b = as_bytes y
     in case List.find (\<lambda>index. a ! index \<noteq> b ! index) [0..<length a] of
          None \<Rightarrow> None
        | Some byte \<Rightarrow>
            let high = (drop_bit 4 (a ! byte XOR b ! byte) = 0)
            in Some (byte * 2 + of_bool high))"

definition node_pair :: "nat \<Rightarrow> node \<Rightarrow> node \<Rightarrow> node" where
  "node_pair level a b =
    (let na = nibble (nkey a) level; nb = nibble (nkey b) level
     in Branch level (push_bit na 1 OR push_bit nb 1) (nlen a + nlen b) (nkey a)
          (if na < nb then [a, b] else [b, a]))"

definition slot :: "u16 \<Rightarrow> nat \<Rightarrow> nat" where
  "slot bitmap digit = count_ones (bitmap AND (push_bit digit 1 - 1))"

text \<open>The loop of \<open>selected_node\<close>: \<open>changed\<close> stays \<open>None\<close> while every child selects to itself.\<close>

fun select_loop :: "(node \<Rightarrow> node \<Rightarrow> bool) \<Rightarrow> (node \<Rightarrow> node option) \<Rightarrow> node list \<Rightarrow> node list
    \<Rightarrow> node list option \<Rightarrow> node list option" where
  "select_loop ptr_eq select before [] changed = changed"
| "select_loop ptr_eq select before (child # rest) changed =
    (let selected = select child
     in if changed = None \<and> (case selected of None \<Rightarrow> False | Some s \<Rightarrow> ptr_eq s child)
        then select_loop ptr_eq select (before @ [child]) rest None
        else select_loop ptr_eq select (before @ [child]) rest
          (Some ((case changed of None \<Rightarrow> before | Some c \<Rightarrow> c) @ opt_list selected)))"

lemma select_loop_cong [fundef_cong]:
  "\<lbrakk>p = q; before = before'; cs = cs'; changed = changed'; \<And>c. c \<in> set cs' \<Longrightarrow> f c = g c\<rbrakk>
    \<Longrightarrow> select_loop p f before cs changed = select_loop q g before' cs' changed'"
  by (induction cs' arbitrary: cs before before' changed changed') (auto simp: Let_def)

fun selected_node :: "(node \<Rightarrow> node \<Rightarrow> bool) \<Rightarrow> node \<Rightarrow> actor_id btree_set \<Rightarrow> node option" where
  "selected_node ptr_eq (Leaf actor seq) actors = (if actor |\<in>| actors then Some (Leaf actor seq) else None)"
| "selected_node ptr_eq (Branch level bitmap len key children) actors =
    (case select_loop ptr_eq (\<lambda>child. selected_node ptr_eq child actors) [] children None of
       None \<Rightarrow> Some (Branch level bitmap len key children)
     | Some [] \<Rightarrow> None
     | Some [only] \<Rightarrow> Some only
     | Some changed \<Rightarrow>
         Some (Branch level
           (foldl (\<lambda>bits child. bits OR push_bit (nibble (nkey child) level) 1) 0 changed)
           (sum_list (map nlen changed)) (nkey (hd changed)) changed))"

lemma size_child: "i < length cs \<Longrightarrow> size (cs ! i) \<le> size_list size (cs :: node list)"
  by (rule size_list_estimation'[of "cs ! i"]) auto

text \<open>\<open>None\<close> is the answer \<open>false\<close>: the node became empty.\<close>

function set_node :: "node \<Rightarrow> actor_id \<Rightarrow> u64 option \<Rightarrow> node option" where
  "set_node (Leaf held old) actor seq =
    (if held = actor then (case seq of Some s \<Rightarrow> Some (Leaf actor s) | None \<Rightarrow> None)
     else (case (seq, first_difference held actor) of
             (Some s, Some difference) \<Rightarrow> Some (node_pair difference (Leaf held old) (Leaf actor s))
           | _ \<Rightarrow> Some (Leaf held old)))"
| "set_node (Branch level bitmap len key children) actor seq =
    (let difference = first_difference key actor;
         outside = (case difference of Some d \<Rightarrow> d < level | None \<Rightarrow> False)
     in if outside then
          (case (seq, difference) of
             (Some s, Some d) \<Rightarrow> Some (node_pair d (Branch level bitmap len key children) (Leaf actor s))
           | _ \<Rightarrow> Some (Branch level bitmap len key children))
        else
          let digit = nibble actor level;
              index = slot bitmap digit;
              finish = (\<lambda>bm cs. Branch level bm (sum_list (map nlen cs))
                          (case cs of [] \<Rightarrow> key | first # _ \<Rightarrow> nkey first) cs)
          in if bitmap AND push_bit digit 1 = 0 then
               (case seq of
                  Some s \<Rightarrow> Some (finish (bitmap OR push_bit digit 1) (insert_at index (Leaf actor s) children))
                | None \<Rightarrow> Some (finish bitmap children))
             else if index < length children then
               (case set_node (children ! index) actor seq of
                  Some child \<Rightarrow> Some (finish bitmap (children[index := child]))
                | None \<Rightarrow>
                    let rest = remove_at index children
                    in case rest of
                         [only] \<Rightarrow> Some only
                       | _ \<Rightarrow> Some (finish (bitmap AND NOT (push_bit digit 1)) rest))
             else Some (Branch level bitmap len key children))"
  by pat_completeness auto
termination
  by (relation "measure (\<lambda>(node, actor, seq). size node)")
    (auto simp: less_Suc_eq_le size_child)

function node_lookup :: "node \<Rightarrow> actor_id \<Rightarrow> u64 option" where
  "node_lookup (Leaf held seq) actor = (if held = actor then Some seq else None)"
| "node_lookup (Branch level bitmap len key children) actor =
    (let digit = nibble actor level
     in if bitmap AND push_bit digit 1 = 0 then None
        else if slot bitmap digit < length children then node_lookup (children ! slot bitmap digit) actor
        else None)"
  by pat_completeness auto
termination
  by (relation "measure (\<lambda>(node, actor). size node)")
    (auto simp: less_Suc_eq_le size_child)

definition node_observed :: "node \<Rightarrow> actor_id \<Rightarrow> u64 \<Rightarrow> node" where
  "node_observed node actor seq =
    (if (case node_lookup node actor of Some held \<Rightarrow> held \<ge> seq | None \<Rightarrow> False) then node
     else (case set_node node actor (Some seq) of Some n \<Rightarrow> n | None \<Rightarrow> node))"

text \<open>
  \<open>union\<close> and \<open>union_children\<close> are mutually recursive in the code; the second is the branch for
  equal levels here. \<open>union_into\<close> is the end of \<open>union\<close>, where one branch holds the other's prefix.
\<close>

definition same_nodes :: "(node \<Rightarrow> node \<Rightarrow> bool) \<Rightarrow> u16 \<Rightarrow> node list \<Rightarrow> u16 \<Rightarrow> node list \<Rightarrow> bool" where
  "same_nodes ptr_eq bitmap children bits own \<longleftrightarrow>
    bits = bitmap \<and> list_all (\<lambda>(x, y). ptr_eq x y) (zip own children)"

definition union_into :: "(node \<Rightarrow> node \<Rightarrow> bool) \<Rightarrow> (node \<Rightarrow> node) \<Rightarrow> node \<Rightarrow> node \<Rightarrow> node" where
  "union_into ptr_eq join upper lower =
    (case upper of
       Leaf actor seq \<Rightarrow> upper
     | Branch level bitmap len key children \<Rightarrow>
         let digit = nibble (nkey lower) level;
             index = slot bitmap digit;
             finish = (\<lambda>bm cs. Branch level bm (sum_list (map nlen cs)) key cs)
         in if bitmap AND push_bit digit 1 = 0
            then finish (bitmap OR push_bit digit 1) (insert_at index lower children)
            else if index < length children then
              let child = join (children ! index)
              in if ptr_eq child (children ! index) then upper
                 else finish bitmap (children[index := child])
            else upper)"

lemma union_into_cong [fundef_cong]:
  "\<lbrakk>p = q; upper = upper'; lower = lower'; \<And>c. size c < size upper' \<Longrightarrow> f c = g c\<rbrakk>
    \<Longrightarrow> union_into p f upper lower = union_into q g upper' lower'"
  by (cases upper') (auto simp: union_into_def Let_def less_Suc_eq_le size_child cong: if_cong)

definition union_children :: "(node \<Rightarrow> node \<Rightarrow> bool) \<Rightarrow> (node \<Rightarrow> node \<Rightarrow> node) \<Rightarrow> node \<Rightarrow> node \<Rightarrow> node" where
  "union_children ptr_eq join a b =
    (case (a, b) of
       (Branch level ba _ key ca, Branch _ bb _ _ cb) \<Rightarrow>
         let bitmap = ba OR bb;
             children = map (\<lambda>digit.
                 if ba AND push_bit digit 1 \<noteq> 0 \<and> bb AND push_bit digit 1 \<noteq> 0 then
                   (if slot ba digit < length ca \<and> slot bb digit < length cb
                    then join (ca ! slot ba digit) (cb ! slot bb digit) else a)
                 else if ba AND push_bit digit 1 \<noteq> 0 then ca ! slot ba digit
                 else cb ! slot bb digit)
               (filter (\<lambda>digit. bitmap AND push_bit digit 1 \<noteq> 0) [0..<16])
         in if same_nodes ptr_eq bitmap children ba ca then a
            else if same_nodes ptr_eq bitmap children bb cb then b
            else Branch level bitmap (sum_list (map nlen children)) key children
     | _ \<Rightarrow> a)"

lemma union_children_cong [fundef_cong]:
  assumes "p = q" "a = a'" "b = b'"
    and "\<And>x y. size x < size a' \<Longrightarrow> size y < size b' \<Longrightarrow> f x y = g x y"
  shows "union_children p f a b = union_children q g a' b'"
proof (cases a'; cases b')
  fix la ba na ka ca lb bb nb kb cb
  assume a: "a' = Branch la ba na ka ca" and b: "b' = Branch lb bb nb kb cb"
  have "f (ca ! i) (cb ! j) = g (ca ! i) (cb ! j)" if "i < length ca" "j < length cb" for i j
    by (rule assms(4)) (use that in \<open>auto simp: a b less_Suc_eq_le size_child\<close>)
  then show ?thesis
    unfolding union_children_def assms(1-3) a b by (auto simp: Let_def cong: if_cong)
qed (auto simp: union_children_def assms(1-3))

function union_node :: "(node \<Rightarrow> node \<Rightarrow> bool) \<Rightarrow> node \<Rightarrow> node \<Rightarrow> node" where
  "union_node ptr_eq a b =
    (if ptr_eq a b then a
     else case (a, b) of
       (_, Leaf actor seq) \<Rightarrow> node_observed a actor seq
     | (Leaf actor seq, _) \<Rightarrow> node_observed b actor seq
     | (Branch la _ _ ka _, Branch lb _ _ kb _) \<Rightarrow>
         let lowest = min la lb;
             difference = first_difference ka kb
         in if (case difference of Some d \<Rightarrow> d < lowest | None \<Rightarrow> False)
            then node_pair (the difference) a b
            else if la = lb then union_children ptr_eq (\<lambda>x y. union_node ptr_eq x y) a b
            else if la < lb then union_into ptr_eq (\<lambda>x. union_node ptr_eq x b) a b
            else union_into ptr_eq (\<lambda>x. union_node ptr_eq x a) b a)"
  by pat_completeness auto
termination
  by (relation "measure (\<lambda>(p, a, b). size a + size b)") auto

section \<open>The cursor\<close>

text \<open>The stack of a \<open>ClockCursor\<close>, top first.\<close>

function cursor_next :: "node list \<Rightarrow> ((actor_id \<times> u64) \<times> node list) option" where
  "cursor_next [] = None"
| "cursor_next (Leaf actor seq # stack) = Some ((actor, seq), stack)"
| "cursor_next (Branch level bitmap len key children # stack) = cursor_next (children @ stack)"
  by pat_completeness auto
termination
  by (relation "measure (\<lambda>stack. size_list size stack)") (auto simp: size_list_append)

end
