(* ===== verification/Clock_Trie.thy ===== *)
theory Clock_Trie
  imports Clock_Node
begin

text \<open>
  Correctness of the trie of \<open>Clock_Node\<close>: the invariant \<open>wf_node\<close>, the entries of a node as a
  sorted association list, and for each operation that it keeps the invariant and what it does
  to the entries.
\<close>

section \<open>Nibbles\<close>

lemma nibble_lt: "nibble x l < 16"
  using nibble_lt_16 by (auto simp: nibble_def Let_def word_less_nat_alt)

definition agree :: "nat \<Rightarrow> actor_id \<Rightarrow> actor_id \<Rightarrow> bool" where
  "agree n x y \<longleftrightarrow> (\<forall>i \<in> set [0..<n]. nibble x i = nibble y i)"

lemma agree_iff: "agree n x y \<longleftrightarrow> (\<forall>i<n. nibble x i = nibble y i)"
  by (auto simp: agree_def)

lemma agree_refl [simp]: "agree n x x"
  by (simp add: agree_def)

lemma agree_sym: "agree n x y \<Longrightarrow> agree n y x"
  by (simp add: agree_def)

lemma agree_trans: "agree n x y \<Longrightarrow> agree n y z \<Longrightarrow> agree n x z"
  by (simp add: agree_def)

lemma agree_mono: "agree n x y \<Longrightarrow> m \<le> n \<Longrightarrow> agree m x y"
  by (simp add: agree_def)

lemma byte_nibbles:
  "as_bytes x ! k = as_bytes y ! k \<longleftrightarrow>
    nibble x (2 * k) = nibble y (2 * k) \<and> nibble x (2 * k + 1) = nibble y (2 * k + 1)"
proof -
  have "a = b \<longleftrightarrow> drop_bit 4 a = drop_bit 4 b \<and> a AND 15 = b AND 15" for a b :: u8
    using join_nibbles[of a] join_nibbles[of b] by metis
  from this[of "as_bytes x ! k" "as_bytes y ! k"] show ?thesis
    by (simp add: nibble_def word_unat_eq_iff[symmetric])
qed

lemma agree_bytes: "agree (2 * n) x y \<longleftrightarrow> (\<forall>k<n. as_bytes x ! k = as_bytes y ! k)"
proof -
  have "(\<forall>i<2 * n. nibble x i = nibble y i) \<longleftrightarrow>
    (\<forall>k<n. nibble x (2 * k) = nibble y (2 * k) \<and> nibble x (2 * k + 1) = nibble y (2 * k + 1))"
  proof (intro iffI allI impI)
    fix i assume all: "\<forall>k<n. nibble x (2 * k) = nibble y (2 * k) \<and>
        nibble x (2 * k + 1) = nibble y (2 * k + 1)" and "i < 2 * n"
    then have "i div 2 < n" by auto
    with all have "nibble x (2 * (i div 2)) = nibble y (2 * (i div 2))"
      "nibble x (2 * (i div 2) + 1) = nibble y (2 * (i div 2) + 1)" by blast+
    then show "nibble x i = nibble y i"
      by (cases "even i") auto
  qed auto
  then show ?thesis by (simp add: agree_iff byte_nibbles)
qed

lemma agree_64: "agree 64 x y \<longleftrightarrow> x = y"
proof -
  have "agree (2 * 32) x y \<longleftrightarrow> as_bytes x = as_bytes y"
    unfolding agree_bytes by (auto intro: nth_equalityI)
  then show ?thesis by (simp add: as_bytes_inject)
qed

lemma xor_zero: "a XOR b = 0 \<longleftrightarrow> a = (b :: u8)"
  by (auto simp: bit_eq_iff bit_xor_iff)

lemma find_upt:
  "List.find P [0..<n] = None \<longleftrightarrow> (\<forall>i<n. \<not> P i)"
  "List.find P [0..<n] = Some k \<longleftrightarrow> k < n \<and> P k \<and> (\<forall>i<k. \<not> P i)"
  by (force simp: find_None_iff find_Some_iff)+

lemma first_difference_None: "first_difference x y = None \<longleftrightarrow> x = y"
  by (auto simp: first_difference_def Let_def find_upt split: option.splits intro!: id32_eqI nth_equalityI)

lemma first_difference_Some:
  assumes "first_difference x y = Some d"
  shows "d < 64" "agree d x y" "nibble x d \<noteq> nibble y d"
proof -
  obtain k where k: "k < 32" "as_bytes x ! k \<noteq> as_bytes y ! k"
    "\<And>i. i < k \<Longrightarrow> as_bytes x ! i = as_bytes y ! i"
    and d: "d = k * 2 + of_bool (drop_bit 4 (as_bytes x ! k) = drop_bit 4 (as_bytes y ! k))"
    using assms by (auto simp: first_difference_def Let_def find_upt xor_zero split: option.splits)
  show "d < 64" using k(1) d by (auto split: if_splits)
  have base: "agree (2 * k) x y" using k(3) by (simp add: agree_bytes)
  have high: "nibble x (2 * k) = nibble y (2 * k) \<longleftrightarrow> drop_bit 4 (as_bytes x ! k) = drop_bit 4 (as_bytes y ! k)"
    by (simp add: nibble_def word_unat_eq_iff[symmetric])
  show "agree d x y"
    using base high d by (auto simp: agree_iff mult.commute less_Suc_eq)
  show "nibble x d \<noteq> nibble y d"
    using k(2) high d byte_nibbles[of x k y] by (auto simp: mult.commute)
qed

lemma first_difference_unique:
  assumes "agree d x y" "nibble x d \<noteq> nibble y d" "d < 64"
  shows "first_difference x y = Some d"
proof (cases "first_difference x y")
  case (Some e)
  note * = first_difference_Some[OF Some]
  have "\<not> d < e" "\<not> e < d" using assms *(2,3) by (auto simp: agree_iff)
  then show ?thesis using Some by simp
qed (use assms in \<open>auto simp: first_difference_None\<close>)

lemma agree_if_diff_ge:
  assumes "case first_difference x y of Some d \<Rightarrow> \<not> d < n | None \<Rightarrow> True" "n \<le> 64"
  shows "agree n x y"
  using assms first_difference_Some(2)[of x y] first_difference_None[of x y]
  by (auto split: option.splits intro: agree_mono)

text \<open>The order of ids is decided at the first differing nibble.\<close>

lemma less_by_nibble:
  assumes "agree l x y" "nibble x l < nibble y l" "l < 64"
  shows "x < y"
proof -
  define k where "k = l div 2"
  have k: "k < 32" using assms(3) by (simp add: k_def)
  have "agree (2 * k) x y" using assms(1) by (rule agree_mono) (simp add: k_def)
  then have pre: "take k (as_bytes x) = take k (as_bytes y)"
    unfolding agree_bytes by (intro nth_equalityI) (use k in auto)
  have "as_bytes x ! k < as_bytes y ! k"
  proof (cases "even l")
    case True
    then have "unat (drop_bit 4 (as_bytes x ! k)) < unat (drop_bit 4 (as_bytes y ! k))"
      using assms(2) by (simp add: nibble_def k_def)
    then show ?thesis
      by (simp add: unat_drop_bit_eq drop_bit_eq_div word_less_nat_alt unat_div)
  next
    case False
    then have l: "l = 2 * k + 1" by (simp add: k_def)
    have "nibble x (2 * k) = nibble y (2 * k)" using assms(1) l by (simp add: agree_iff)
    then have hi: "unat (as_bytes x ! k) div 16 = unat (as_bytes y ! k) div 16"
      by (simp add: nibble_def unat_drop_bit_eq drop_bit_eq_div unat_div)
    have lo: "unat (as_bytes x ! k) mod 16 < unat (as_bytes y ! k) mod 16"
      using assms(2) by (simp add: l nibble_def and_15 take_bit_eq_mod unat_mod)
    have "unat (as_bytes x ! k) < unat (as_bytes y ! k)"
      using hi lo by (metis add_less_cancel_left div_mult_mod_eq)
    then show ?thesis by (simp add: word_less_nat_alt)
  qed
  moreover have "as_bytes z = take k (as_bytes z) @ as_bytes z ! k # drop (Suc k) (as_bytes z)" for z
    using k by (simp add: id_take_nth_drop)
  ultimately show ?thesis
    unfolding less_id32_def by (metis pre append_less_same_prefix Cons_less_Cons)
qed

section \<open>Bitmaps\<close>

definition digits :: "u16 \<Rightarrow> nat list" where
  "digits bm = filter (bit bm) [0..<16]"

lemma set_digits: "set (digits bm) = {d. bit bm d}"
  by (auto simp: digits_def dest: bit_imp_le_length)

lemma bit_lt_16: "bit (bm :: u16) d \<Longrightarrow> d < 16"
  by (auto dest: bit_imp_le_length)

lemma sorted_digits: "sorted_wrt (<) (digits bm)"
  unfolding digits_def by (intro sorted_wrt_filter strict_sorted_iff[THEN iffD2]) simp

lemma and_bit_zero: "(bm :: u16) AND push_bit d 1 = 0 \<longleftrightarrow> \<not> bit bm d"
  by (simp add: and_exp_eq_0_iff_not_bit push_bit_of_1)

lemma digits_eq: "filter (\<lambda>d. (bm :: u16) AND push_bit d 1 \<noteq> 0) [0..<16] = digits bm"
  by (simp add: digits_def and_bit_zero del: push_bit_of_1)

lemma slot_eq: "slot bm d = card {e. e < d \<and> bit bm e}"
proof -
  have "bit (bm AND (push_bit d 1 - 1)) = (\<lambda>e. bit bm e \<and> e < d)"
    by (auto simp: fun_eq_iff bit_and_iff bit_mask_iff simp flip: mask_eq_exp_minus_1 dest: bit_lt_16)
  then have "slot bm d = length (filter (\<lambda>e. bit bm e \<and> e < d) [0..<16])"
    by (simp add: slot_def count_ones_def)
  also have "\<dots> = card {e. e < d \<and> bit bm e}"
    by (simp add: distinct_length_filter) (rule arg_cong[where f = card], auto dest: bit_lt_16)
  finally show ?thesis .
qed

lemma finite_bits [simp]: "finite {e. e < d \<and> bit (bm :: u16) e}"
  by simp

lemma length_digits: "length (digits bm) = card {e. bit bm e}"
  by (simp add: digits_def distinct_length_filter) (rule arg_cong[where f = card], auto dest: bit_lt_16)

lemma finite_bits_all [simp]: "finite {e. bit (bm :: u16) e}"
  by (rule finite_subset[of _ "{..<16}"]) (auto dest: bit_lt_16)

lemma slot_less: "bit bm d \<Longrightarrow> d < e \<Longrightarrow> slot bm d < slot bm e"
  unfolding slot_eq by (rule psubset_card_mono) auto

lemma slot_lt_length: "bit bm d \<Longrightarrow> slot bm d < length (digits bm)"
  unfolding slot_eq length_digits by (rule psubset_card_mono) auto

lemma slot_le_length: "slot bm d \<le> length (digits bm)"
  unfolding slot_eq length_digits by (rule card_mono) auto

lemma slot_inj: "bit bm d \<Longrightarrow> bit bm e \<Longrightarrow> slot bm d = slot bm e \<Longrightarrow> d = e"
  using slot_less[of bm d e] slot_less[of bm e d] by (cases d e rule: linorder_cases) auto

lemma digits_nth_slot: "bit bm d \<Longrightarrow> digits bm ! slot bm d = d"
proof -
  assume bit: "bit bm d"
  then have d: "d < 16" by (rule bit_lt_16)
  have "[0..<16] = [0..<d] @ d # [Suc d..<16]"
    using upt_add_eq_append[of 0 d "16 - d"] d by (simp add: upt_conv_Cons)
  then have "digits bm = filter (bit bm) [0..<d] @ d # filter (bit bm) [Suc d..<16]"
    using bit by (simp add: digits_def)
  moreover have "length (filter (bit bm) [0..<d]) = slot bm d"
    by (simp add: slot_eq distinct_length_filter) (rule arg_cong[where f = card], auto)
  ultimately show ?thesis by (metis nth_append_length)
qed

lemma slot_set: "\<not> bit bm d \<Longrightarrow> d < 16 \<Longrightarrow>
    slot (bm OR push_bit d 1) e = slot bm e + of_bool (d < e)"
proof -
  assume *: "\<not> bit bm d" "d < 16"
  have "{x. x < e \<and> bit (bm OR push_bit d 1) x} =
      (if d < e then insert d {x. x < e \<and> bit bm x} else {x. x < e \<and> bit bm x})"
    using * by (auto simp: bit_or_iff bit_exp_iff push_bit_of_1)
  then show ?thesis using * by (simp add: slot_eq)
qed

lemma slot_clear: "bit bm d \<Longrightarrow>
    slot (bm AND NOT (push_bit d 1)) e = slot bm e - of_bool (d < e)"
proof -
  assume *: "bit bm d"
  have "{x. x < e \<and> bit (bm AND NOT (push_bit d 1)) x} =
      (if d < e then {x. x < e \<and> bit bm x} - {d} else {x. x < e \<and> bit bm x})"
    using * by (auto simp: bit_and_iff bit_not_iff bit_exp_iff push_bit_of_1 dest: bit_lt_16)
  then show ?thesis using * by (simp add: slot_eq)
qed

lemma bit_set: "d < 16 \<Longrightarrow> bit ((bm :: u16) OR push_bit d 1) e \<longleftrightarrow> e = d \<or> bit bm e"
  by (auto simp: bit_or_iff bit_exp_iff push_bit_of_1)

lemma bit_clear: "d < 16 \<Longrightarrow> bit ((bm :: u16) AND NOT (push_bit d 1)) e \<longleftrightarrow> e \<noteq> d \<and> bit bm e"
  by (auto simp: bit_and_iff bit_not_iff bit_exp_iff push_bit_of_1 dest: bit_lt_16)

lemma sorted_list_unique:
  "sorted_wrt (<) xs \<Longrightarrow> sorted_wrt (<) ys \<Longrightarrow> set xs = set ys \<Longrightarrow> xs = (ys :: nat list)"
  by (metis sorted_list_of_set.idem_if_sorted_distinct strict_sorted_iff)

section \<open>Children by digit\<close>

definition child_at :: "u16 \<Rightarrow> node list \<Rightarrow> nat \<Rightarrow> node option" where
  "child_at bm cs d = (if bit bm d then Some (cs ! slot bm d) else None)"

lemma child_at_lt_16: "child_at bm cs d = Some c \<Longrightarrow> d < 16"
  by (auto simp: child_at_def split: if_splits dest: bit_lt_16)

lemma slot_digits_nth: "i < length (digits bm) \<Longrightarrow> bit bm (digits bm ! i) \<and> slot bm (digits bm ! i) = i"
proof -
  assume i: "i < length (digits bm)"
  then have "digits bm ! i \<in> set (digits bm)" by simp
  then have bit: "bit bm (digits bm ! i)" by (simp add: set_digits)
  have "distinct (digits bm)" using sorted_digits strict_sorted_iff by blast
  then have "slot bm (digits bm ! i) = i"
    using digits_nth_slot[OF bit] slot_lt_length[OF bit] i by (simp add: nth_eq_iff_index_eq)
  then show ?thesis using bit by simp
qed

lemma ex_child_at_iff:
  assumes len: "length cs = length (digits bm)"
  shows "(\<exists>d. child_at bm cs d = Some c) \<longleftrightarrow> c \<in> set cs"
proof
  assume "c \<in> set cs"
  then obtain i where "i < length cs" "c = cs ! i" by (auto simp: in_set_conv_nth)
  then have "child_at bm cs (digits bm ! i) = Some c"
    using slot_digits_nth[of i bm] len by (simp add: child_at_def)
  then show "\<exists>d. child_at bm cs d = Some c" ..
qed (use slot_lt_length len in \<open>auto simp: child_at_def split: if_splits\<close>)

lemma map_eq_digits_iff:
  assumes len: "length cs = length (digits bm)"
  shows "map f cs = digits bm \<longleftrightarrow> (\<forall>d c. child_at bm cs d = Some c \<longrightarrow> f c = d)"
proof
  assume eq: "map f cs = digits bm"
  show "\<forall>d c. child_at bm cs d = Some c \<longrightarrow> f c = d"
  proof (intro allI impI)
    fix d c assume "child_at bm cs d = Some c"
    then have "bit bm d" "c = cs ! slot bm d" by (auto simp: child_at_def split: if_splits)
    then show "f c = d"
      using digits_nth_slot slot_lt_length len eq by (metis nth_map)
  qed
next
  assume all: "\<forall>d c. child_at bm cs d = Some c \<longrightarrow> f c = d"
  show "map f cs = digits bm"
    using all slot_digits_nth len by (intro nth_equalityI) (auto simp: child_at_def)
qed

lemma length_digits_set: "\<not> bit bm d \<Longrightarrow> d < 16 \<Longrightarrow>
    length (digits (bm OR push_bit d 1)) = Suc (length (digits bm))"
proof -
  assume *: "\<not> bit bm d" "d < 16"
  then have "{e. bit (bm OR push_bit d 1) e} = insert d {e. bit bm e}"
    by (auto simp: bit_set simp del: push_bit_of_1)
  then show ?thesis using * by (simp add: length_digits)
qed

lemma length_digits_clear: "bit bm d \<Longrightarrow>
    length (digits (bm AND NOT (push_bit d 1))) = length (digits bm) - 1"
proof -
  assume *: "bit bm d"
  then have "{e. bit (bm AND NOT (push_bit d 1)) e} = {e. bit bm e} - {d}"
    using bit_lt_16[OF *] by (auto simp: bit_clear simp del: push_bit_of_1)
  then show ?thesis using * by (simp add: length_digits)
qed

lemma child_at_insert:
  assumes "length cs = length (digits bm)" "\<not> bit bm d" "d < 16"
  shows "child_at (bm OR push_bit d 1) (insert_at (slot bm d) c cs) e =
    (if e = d then Some c else child_at bm cs e)"
proof -
  have "slot bm d \<le> length cs" using assms(1) slot_le_length by simp
  moreover have "e < d \<Longrightarrow> bit bm e \<Longrightarrow> slot bm e < slot bm d" by (rule slot_less)
  moreover have "d < e \<Longrightarrow> slot bm d \<le> slot bm e"
    unfolding slot_eq by (rule card_mono) auto
  ultimately show ?thesis
    using assms(2,3)
    by (auto simp: child_at_def bit_set slot_set nth_insert_at simp del: push_bit_of_1)
qed

lemma child_at_update:
  assumes "length cs = length (digits bm)" "bit bm d"
  shows "child_at bm (cs[slot bm d := c]) e = (if e = d then Some c else child_at bm cs e)"
  using assms slot_lt_length[of bm d] slot_inj[of bm d e] by (auto simp: child_at_def nth_list_update)

lemma child_at_remove:
  assumes "length cs = length (digits bm)" "bit bm d"
  shows "child_at (bm AND NOT (push_bit d 1)) (remove_at (slot bm d) cs) e =
    (if e = d then None else child_at bm cs e)"
proof -
  have d: "d < 16" using assms(2) by (rule bit_lt_16)
  have "slot bm d < length cs" using assms slot_lt_length by simp
  moreover have "e < d \<Longrightarrow> bit bm e \<Longrightarrow> slot bm e < slot bm d" by (rule slot_less)
  moreover have "d < e \<Longrightarrow> slot bm d < slot bm e" using assms(2) by (rule slot_less)
  ultimately show ?thesis
    using assms(2) d
    by (auto simp: child_at_def bit_clear slot_clear nth_remove_at simp del: push_bit_of_1)
qed

lemma child_at_map:
  "child_at bm (map g (digits bm)) d = (if bit bm d then Some (g d) else None)"
  by (simp add: child_at_def digits_nth_slot slot_lt_length)

section \<open>Entries and the invariant\<close>

fun node_entries :: "node \<Rightarrow> (actor_id \<times> u64) list" where
  "node_entries (Leaf actor seq) = [(actor, seq)]"
| "node_entries (Branch level bitmap len key children) = concat (map node_entries children)"

definition node_actors :: "node \<Rightarrow> actor_id set" where
  "node_actors n = fst ` set (node_entries n)"

text \<open>
  A branch has at least two children, one per set bit of its bitmap and in digit order; it counts
  their entries; its key is one of its actors; every actor below it shares the nibbles of the key
  before the branch's level, and the actors below one child share the nibble at the level.
\<close>

fun wf_node :: "node \<Rightarrow> bool" where
  "wf_node (Leaf actor seq) \<longleftrightarrow> True"
| "wf_node (Branch level bitmap len key children) \<longleftrightarrow>
    level < 64 \<and> 2 \<le> length children \<and>
    map (\<lambda>c. nibble (nkey c) level) children = digits bitmap \<and>
    len = sum_list (map nlen children) \<and>
    key \<in> set (map fst (concat (map node_entries children))) \<and>
    (\<forall>c \<in> set children. wf_node c \<and>
      (\<forall>x \<in> set (map fst (node_entries c)). agree level key x \<and> nibble x level = nibble (nkey c) level))"

lemma actors_Leaf [simp]: "node_actors (Leaf a s) = {a}"
  by (simp add: node_actors_def)

lemma actors_Branch [simp]: "node_actors (Branch l bm n k cs) = (\<Union>c\<in>set cs. node_actors c)"
  by (auto simp: node_actors_def)

lemma nkey_in_actors: "wf_node n \<Longrightarrow> nkey n \<in> node_actors n"
  by (cases n) (auto simp: node_actors_def)

definition wf_child :: "nat \<Rightarrow> actor_id \<Rightarrow> nat \<Rightarrow> node \<Rightarrow> bool" where
  "wf_child l k d c \<longleftrightarrow> wf_node c \<and> (\<forall>x \<in> node_actors c. agree l k x \<and> nibble x l = d)"

lemma wf_child_agree: "wf_child l k d c \<Longrightarrow> agree l k' k \<Longrightarrow> wf_child l k' d c"
  by (auto simp: wf_child_def intro: agree_trans)

lemma wf_Branch_iff:
  "wf_node (Branch l bm n k cs) \<longleftrightarrow>
    l < 64 \<and> 2 \<le> length cs \<and> length cs = length (digits bm) \<and> n = sum_list (map nlen cs) \<and>
    k \<in> (\<Union>c\<in>set cs. node_actors c) \<and> (\<forall>d c. child_at bm cs d = Some c \<longrightarrow> wf_child l k d c)"
  (is "?L \<longleftrightarrow> ?R")
proof
  assume L: ?L
  then have eq: "map (\<lambda>c. nibble (nkey c) l) cs = digits bm" by simp
  then have len: "length cs = length (digits bm)" by (metis length_map)
  have "wf_child l k d c" if "child_at bm cs d = Some c" for d c
    using that L eq map_eq_digits_iff[OF len, of "\<lambda>c. nibble (nkey c) l"] ex_child_at_iff[OF len, of c]
    by (auto simp: wf_child_def node_actors_def)
  then show ?R using L len by (auto simp: node_actors_def)
next
  assume R: ?R
  then have len: "length cs = length (digits bm)" by simp
  have "\<forall>d c. child_at bm cs d = Some c \<longrightarrow> nibble (nkey c) l = d"
    using R nkey_in_actors by (auto simp: wf_child_def)
  then have eq: "map (\<lambda>c. nibble (nkey c) l) cs = digits bm"
    using map_eq_digits_iff[OF len] by blast
  have "wf_node c \<and> (\<forall>x\<in>node_actors c. agree l k x \<and> nibble x l = nibble (nkey c) l)" if "c \<in> set cs" for c
    using that R nkey_in_actors ex_child_at_iff[OF len, of c] by (fastforce simp: wf_child_def)
  then show ?L using R eq by (auto simp: node_actors_def)
qed

lemma wf_BranchI:
  assumes "l < 64" "2 \<le> length cs" "length cs = length (digits bm)"
    and "k' \<in> (\<Union>c\<in>set cs. node_actors c)"
    and ch: "\<And>d c. child_at bm cs d = Some c \<Longrightarrow> wf_child l k d c"
  shows "wf_node (Branch l bm (sum_list (map nlen cs)) k' cs)"
proof -
  obtain c where "c \<in> set cs" "k' \<in> node_actors c" using assms(4) by blast
  then obtain d where "child_at bm cs d = Some c" using ex_child_at_iff[OF assms(3)] by blast
  then have "agree l k k'" using ch \<open>k' \<in> node_actors c\<close> by (auto simp: wf_child_def)
  then show ?thesis
    unfolding wf_Branch_iff using assms by (blast intro: wf_child_agree agree_sym)
qed

lemma lookup_Branch:
  "length cs = length (digits bm) \<Longrightarrow>
    node_lookup (Branch l bm n k cs) x =
      (case child_at bm cs (nibble x l) of None \<Rightarrow> None | Some c \<Rightarrow> node_lookup c x)"
  using slot_lt_length[of bm "nibble x l"]
  by (auto simp: Let_def child_at_def and_bit_zero simp del: push_bit_of_1)

declare node_lookup.simps(2) [simp del]

lemma lookup_iff_entries: "wf_node n \<Longrightarrow> node_lookup n x = Some s \<longleftrightarrow> (x, s) \<in> set (node_entries n)"
proof (induction n arbitrary: x s)
  case (Branch l bm n k cs)
  note wf = Branch.prems[unfolded wf_Branch_iff]
  then have len: "length cs = length (digits bm)" by simp
  have child: "(x, s) \<in> set (node_entries c) \<Longrightarrow> child_at bm cs d = Some c \<Longrightarrow> d = nibble x l" for c d
    using wf by (force simp: wf_child_def node_actors_def)
  have "(x, s) \<in> set (node_entries (Branch l bm n k cs)) \<longleftrightarrow>
      (\<exists>c. child_at bm cs (nibble x l) = Some c \<and> (x, s) \<in> set (node_entries c))"
    using ex_child_at_iff[OF len] child by auto
  moreover have "node_lookup c x = Some s \<longleftrightarrow> (x, s) \<in> set (node_entries c)"
    if "child_at bm cs (nibble x l) = Some c" for c
    using that Branch.IH[of c] wf ex_child_at_iff[OF len, of c] by (auto simp: wf_child_def)
  ultimately show ?case by (auto simp: lookup_Branch[OF len] split: option.splits)
qed auto

lemma actors_lookup: "wf_node n \<Longrightarrow> x \<in> node_actors n \<longleftrightarrow> node_lookup n x \<noteq> None"
  by (simp only: not_None_eq lookup_iff_entries) (force simp: node_actors_def)

lemma actors_lookupI: "wf_node n \<Longrightarrow> node_lookup n x = Some s \<Longrightarrow> x \<in> node_actors n"
  by (simp add: actors_lookup)

lemma nlen_entries: "wf_node n \<Longrightarrow> nlen n = length (node_entries n)"
proof (induction n)
  case (Branch l bm n k cs)
  then have "map nlen cs = map (length \<circ> node_entries) cs" by auto
  moreover have "n = sum_list (map nlen cs)" using Branch.prems by simp
  ultimately show ?case by (simp only: nlen.simps node_entries.simps length_concat map_map)
qed simp

lemma sorted_entries: "wf_node n \<Longrightarrow> sorted_wrt (<) (map fst (node_entries n))"
proof (induction n)
  case (Branch l bm n k cs)
  let ?f = "\<lambda>c. nibble (nkey c) l"
  have "sorted_wrt (<) (map ?f cs)" using Branch.prems sorted_digits[of bm] by simp
  then have "sorted_wrt (\<lambda>c d. ?f c < ?f d) cs" by (simp add: sorted_wrt_map)
  then have "sorted_wrt (\<lambda>c d. \<forall>x\<in>node_actors c. \<forall>y\<in>node_actors d. x < y) cs"
  proof (rule sorted_wrt_mono_rel[rotated], intro ballI)
    fix c d x y assume *: "c \<in> set cs" "d \<in> set cs" "?f c < ?f d" "x \<in> node_actors c" "y \<in> node_actors d"
    then have "agree l k x" "agree l k y" "nibble x l = ?f c" "nibble y l = ?f d" "l < 64"
      using Branch.prems by (force simp: node_actors_def)+
    then have "agree l k x" "agree l k y" "nibble x l < nibble y l" "l < 64" using *(3) by simp_all
    then show "x < y" by (meson agree_sym agree_trans less_by_nibble)
  qed
  moreover have "\<forall>c\<in>set cs. sorted_wrt (<) (map fst (node_entries c))" using Branch by simp
  ultimately show ?case
    by (simp, induction cs) (auto simp: sorted_wrt_append node_actors_def)
qed simp

lemma lookup_map_of: "wf_node n \<Longrightarrow> node_lookup n x = map_of (node_entries n) x"
proof -
  assume wf: "wf_node n"
  then have "distinct (map fst (node_entries n))" using sorted_entries strict_sorted_iff by blast
  then show ?thesis
    using lookup_iff_entries[OF wf, of x] by (metis map_of_eq_Some_iff not_None_eq)
qed

lemma wf_agree_Branch: "wf_node (Branch l bm n k cs) \<Longrightarrow> x \<in> node_actors (Branch l bm n k cs) \<Longrightarrow> agree l k x"
  by (auto simp: node_actors_def)

declare wf_node.simps(2) [simp del]

section \<open>Update\<close>

lemma pair_correct:
  assumes wf: "wf_node a" "wf_node b" and d: "d < 64" "nibble (nkey a) d \<noteq> nibble (nkey b) d"
    and a: "\<And>x. x \<in> node_actors a \<Longrightarrow> agree d (nkey a) x \<and> nibble x d = nibble (nkey a) d"
    and b: "\<And>x. x \<in> node_actors b \<Longrightarrow> agree d (nkey a) x \<and> nibble x d = nibble (nkey b) d"
  shows "wf_node (node_pair d a b)"
    and "node_lookup (node_pair d a b) x = (case node_lookup a x of None \<Rightarrow> node_lookup b x | Some s \<Rightarrow> Some s)"
proof -
  let ?na = "nibble (nkey a) d" and ?nb = "nibble (nkey b) d"
  let ?bm = "push_bit ?na 1 OR push_bit ?nb 1 :: u16"
  define cs where "cs = (if ?na < ?nb then [a, b] else [b, a])"
  have node_pair: "node_pair d a b = Branch d ?bm (sum_list (map nlen cs)) (nkey a) cs"
    by (auto simp: node_pair_def Let_def cs_def)
  have bits: "bit ?bm e \<longleftrightarrow> e = ?na \<or> e = ?nb" for e
    using nibble_lt[of "nkey a" d] nibble_lt[of "nkey b" d]
    by (auto simp: bit_or_iff bit_exp_iff)
  have "digits ?bm = (if ?na < ?nb then [?na, ?nb] else [?nb, ?na])"
    by (rule sorted_list_unique) (use d bits in \<open>auto simp: sorted_digits set_digits\<close>)
  then have eq: "map (\<lambda>c. nibble (nkey c) d) cs = digits ?bm" by (simp add: cs_def)
  have set_cs: "set cs = {a, b}" by (auto simp: cs_def)
  have ch: "wf_node c \<and> (\<forall>x\<in>set (map fst (node_entries c)). agree d (nkey a) x \<and> nibble x d = nibble (nkey c) d)"
    if "c \<in> set cs" for c
    using that a b wf unfolding set_cs node_actors_def by auto
  have key: "nkey a \<in> set (map fst (concat (map node_entries cs)))"
    using nkey_in_actors[OF wf(1)] set_cs unfolding node_actors_def by auto
  show wfp: "wf_node (node_pair d a b)"
    unfolding node_pair wf_node.simps
  proof (intro conjI ballI d(1) eq key refl)
    show "2 \<le> length cs" by (simp add: cs_def)
  qed (use ch in blast)+
  have "set (node_entries (node_pair d a b)) = set (node_entries a) \<union> set (node_entries b)"
    by (auto simp: node_pair cs_def)
  then have "node_lookup (node_pair d a b) x = Some s \<longleftrightarrow> node_lookup a x = Some s \<or> node_lookup b x = Some s" for s
    by (simp add: lookup_iff_entries wfp wf)
  moreover have "x \<in> node_actors a \<Longrightarrow> x \<notin> node_actors b" using a[of x] b[of x] d by auto
  then have "node_lookup a x = None \<or> node_lookup b x = None" by (cases "node_lookup a x") (auto simp: actors_lookup wf)
  ultimately show "node_lookup (node_pair d a b) x = (case node_lookup a x of None \<Rightarrow> node_lookup b x | Some s \<Rightarrow> Some s)"
    by (cases "node_lookup a x"; cases "node_lookup b x"; cases "node_lookup (node_pair d a b) x") auto
qed

text \<open>What \<open>set_node\<close> promises; an empty result means the node held nothing but the actor.\<close>

definition set_result :: "node \<Rightarrow> actor_id \<Rightarrow> u64 option \<Rightarrow> node option \<Rightarrow> bool" where
  "set_result n actor seq r \<longleftrightarrow>
    (case r of
       None \<Rightarrow> seq = None \<and> (\<forall>x. x \<noteq> actor \<longrightarrow> node_lookup n x = None)
     | Some n' \<Rightarrow> wf_node n' \<and> (\<forall>x. node_lookup n' x = (if x = actor then seq else node_lookup n x)))"

lemma set_result_SomeI:
  "wf_node n' \<Longrightarrow> (\<And>x. node_lookup n' x = (if x = actor then seq else node_lookup n x)) \<Longrightarrow>
    set_result n actor seq (Some n')"
  by (simp add: set_result_def)

lemma pair_leaf:
  assumes wf: "wf_node n" and diff: "first_difference (nkey n) actor = Some d"
    and inside: "\<And>x. x \<in> node_actors n \<Longrightarrow> agree (Suc d) (nkey n) x"
  shows "set_result n actor (Some s) (Some (node_pair d n (Leaf actor s)))"
proof (rule set_result_SomeI)
  note fd = first_difference_Some[OF diff]
  have n: "agree d (nkey n) x \<and> nibble x d = nibble (nkey n) d" if "x \<in> node_actors n" for x
    using inside[OF that] by (auto simp: agree_iff)
  have pre: "d < 64" "nibble (nkey n) d \<noteq> nibble (nkey (Leaf actor s)) d"
    "\<And>x. x \<in> node_actors (Leaf actor s) \<Longrightarrow> agree d (nkey n) x \<and> nibble x d = nibble (nkey (Leaf actor s)) d"
    using fd by auto
  show "wf_node (node_pair d n (Leaf actor s))"
    by (rule pair_correct(1)[OF wf _ pre(1) pre(2) n pre(3)]) simp_all
  have "actor \<notin> node_actors n" using n fd by auto
  then have "node_lookup n actor = None" by (simp add: actors_lookup[OF wf])
  then show "node_lookup (node_pair d n (Leaf actor s)) x = (if x = actor then Some s else node_lookup n x)" for x
    using pair_correct(2)[OF wf _ pre(1) pre(2) n pre(3), of x] by (auto split: option.splits)
qed

definition lookup_child :: "u16 \<Rightarrow> node list \<Rightarrow> nat \<Rightarrow> actor_id \<Rightarrow> u64 option" where
  "lookup_child bm cs d x = (case child_at bm cs d of None \<Rightarrow> None | Some c \<Rightarrow> node_lookup c x)"

lemma hd_key_in_actors:
  assumes "cs \<noteq> []" "length cs = length (digits bm)"
    and "\<And>d c. child_at bm cs d = Some c \<Longrightarrow> wf_child l k d c"
  shows "nkey (hd cs) \<in> (\<Union>c\<in>set cs. node_actors c)"
proof -
  have "hd cs \<in> set cs" using assms(1) by simp
  moreover from this obtain d where "child_at bm cs d = Some (hd cs)"
    using ex_child_at_iff[OF assms(2)] by blast
  then have "wf_node (hd cs)" using assms(3) by (auto simp: wf_child_def)
  then have "nkey (hd cs) \<in> node_actors (hd cs)" by (rule nkey_in_actors)
  ultimately show ?thesis by blast
qed

lemma finish_correct:
  assumes "l < 64" "2 \<le> length cs" "length cs = length (digits bm)"
    and ch: "\<And>d c. child_at bm cs d = Some c \<Longrightarrow> wf_child l k d c"
    and lk: "\<And>x. lookup_child bm cs (nibble x l) x = (if x = actor then seq else node_lookup n x)"
  shows "set_result n actor seq
    (Some (Branch l bm (sum_list (map nlen cs)) (case cs of [] \<Rightarrow> k' | first # _ \<Rightarrow> nkey first) cs))"
proof (rule set_result_SomeI)
  have "cs \<noteq> []" using assms(2) by auto
  then have key: "(case cs of [] \<Rightarrow> k' | first # _ \<Rightarrow> nkey first) = nkey (hd cs)"
    by (cases cs) auto
  show "wf_node (Branch l bm (sum_list (map nlen cs)) (case cs of [] \<Rightarrow> k' | first # _ \<Rightarrow> nkey first) cs)"
    unfolding key using assms(1-4) hd_key_in_actors[OF \<open>cs \<noteq> []\<close> assms(3) ch] by (intro wf_BranchI)
  show "node_lookup (Branch l bm (sum_list (map nlen cs)) (case cs of [] \<Rightarrow> k' | first # _ \<Rightarrow> nkey first) cs) x =
      (if x = actor then seq else node_lookup n x)" for x
    using lk[of x] by (simp add: lookup_Branch[OF assms(3)] lookup_child_def)
qed

lemma wf_child_leaf: "agree l k a \<Longrightarrow> nibble a l = d \<Longrightarrow> wf_child l k d (Leaf a s)"
  by (simp add: wf_child_def)

lemma wf_child_set:
  assumes "wf_child l k (nibble a l) c" "set_result c a seq (Some c')" "agree l k a"
  shows "wf_child l k (nibble a l) c'"
  using assms actors_lookup[of c] actors_lookup[of c']
  by (auto simp: wf_child_def set_result_def split: if_splits)

lemma wf_child_nibble: "wf_child l k d c \<Longrightarrow> node_lookup c x = Some s \<Longrightarrow> nibble x l = d"
  by (auto simp: wf_child_def dest: actors_lookupI)

text \<open>The four ways \<open>set_node\<close> changes a branch whose prefix the actor shares.\<close>

lemma set_branch:
  assumes wf: "wf_node (Branch l bm n k cs)" and ag: "agree l k actor"
  defines "D \<equiv> nibble actor l"
  defines "fin \<equiv> \<lambda>bm' cs'. Some (Branch l bm' (sum_list (map nlen cs')) (case cs' of [] \<Rightarrow> k | first # _ \<Rightarrow> nkey first) cs')"
  shows set_branch_absent:
      "\<not> bit bm D \<Longrightarrow> set_result (Branch l bm n k cs) actor None (fin bm cs)"
    and set_branch_insert:
      "\<not> bit bm D \<Longrightarrow> set_result (Branch l bm n k cs) actor (Some s)
        (fin (bm OR push_bit D 1) (insert_at (slot bm D) (Leaf actor s) cs))"
    and set_branch_child:
      "bit bm D \<Longrightarrow> set_result (cs ! slot bm D) actor seq (Some c') \<Longrightarrow>
        set_result (Branch l bm n k cs) actor seq (fin bm (cs[slot bm D := c']))"
    and set_branch_remove:
      "bit bm D \<Longrightarrow> set_result (cs ! slot bm D) actor seq None \<Longrightarrow>
        set_result (Branch l bm n k cs) actor seq
          (case remove_at (slot bm D) cs of
             [only] \<Rightarrow> Some only
           | _ \<Rightarrow> fin (bm AND NOT (push_bit D 1)) (remove_at (slot bm D) cs))"
proof -
  note w = wf[unfolded wf_Branch_iff]
  have l: "l < 64" and two: "2 \<le> length cs" and len: "length cs = length (digits bm)"
    and ch: "\<And>d c. child_at bm cs d = Some c \<Longrightarrow> wf_child l k d c" using w by auto
  have D: "D < 16" and nD: "nibble actor l = D" by (simp_all add: D_def nibble_lt)
  have lk: "node_lookup (Branch l bm n k cs) x = lookup_child bm cs (nibble x l) x" for x
    by (simp add: lookup_Branch[OF len] lookup_child_def)
  show "set_result (Branch l bm n k cs) actor None (fin bm cs)" if nb: "\<not> bit bm D"
    unfolding fin_def
    by (rule finish_correct[OF l two len ch]) (use nb in \<open>auto simp: lk lookup_child_def child_at_def D_def\<close>)
  show "set_result (Branch l bm n k cs) actor (Some s)
      (fin (bm OR push_bit D 1) (insert_at (slot bm D) (Leaf actor s) cs))" if nb: "\<not> bit bm D"
    unfolding fin_def
  proof (rule finish_correct[OF l])
    have sl: "slot bm D \<le> length cs" using len slot_le_length by simp
    show "2 \<le> length (insert_at (slot bm D) (Leaf actor s) cs)"
      "length (insert_at (slot bm D) (Leaf actor s) cs) = length (digits (bm OR push_bit D 1))"
      using two len sl by (simp_all add: length_digits_set[OF nb D] del: push_bit_of_1)
    show "wf_child l k d c"
      if "child_at (bm OR push_bit D 1) (insert_at (slot bm D) (Leaf actor s) cs) d = Some c" for d c
      using that ch wf_child_leaf[OF ag, of "nibble actor l" s, folded D_def]
      by (simp add: child_at_insert[OF len nb D] del: push_bit_of_1 split: if_splits)
    show "lookup_child (bm OR push_bit D 1) (insert_at (slot bm D) (Leaf actor s) cs) (nibble x l) x =
        (if x = actor then Some s else node_lookup (Branch l bm n k cs) x)" for x
      using nb by (auto simp: lk lookup_child_def child_at_insert[OF len nb D] nD child_at_def[of bm] simp del: push_bit_of_1)
  qed
  show "set_result (Branch l bm n k cs) actor seq (fin bm (cs[slot bm D := c']))"
    if b: "bit bm D" and r: "set_result (cs ! slot bm D) actor seq (Some c')"
    unfolding fin_def
  proof (rule finish_correct[OF l])
    have c: "child_at bm cs D = Some (cs ! slot bm D)" using b by (simp add: child_at_def)
    then have c': "wf_child l k D c'"
      using wf_child_set[OF _ r ag] ch[OF c] by (simp add: D_def)
    show "wf_child l k d c" if "child_at bm (cs[slot bm D := c']) d = Some c" for d c
      using that ch c' by (simp add: child_at_update[OF len b] split: if_splits)
    show "lookup_child bm (cs[slot bm D := c']) (nibble x l) x =
        (if x = actor then seq else node_lookup (Branch l bm n k cs) x)" for x
      using r b by (auto simp: lk lookup_child_def child_at_update[OF len b] set_result_def nD child_at_def[of bm cs])
  qed (use two len in auto)
  show "set_result (Branch l bm n k cs) actor seq
      (case remove_at (slot bm D) cs of
         [only] \<Rightarrow> Some only
       | _ \<Rightarrow> fin (bm AND NOT (push_bit D 1)) (remove_at (slot bm D) cs))"
    if b: "bit bm D" and r: "set_result (cs ! slot bm D) actor seq None"
  proof -
    let ?bm = "bm AND NOT (push_bit D 1)" and ?cs = "remove_at (slot bm D) cs"
    have sl: "slot bm D < length cs" using len slot_lt_length[OF b] by simp
    have len': "length ?cs = length (digits ?bm)"
      using len sl by (simp add: length_digits_clear[OF b] del: push_bit_of_1)
    have ch': "wf_child l k d c" if "child_at ?bm ?cs d = Some c" for d c
      using that ch by (simp add: child_at_remove[OF len b] del: push_bit_of_1 split: if_splits)
    have lk': "lookup_child ?bm ?cs (nibble x l) x = (if x = actor then seq else node_lookup (Branch l bm n k cs) x)" for x
      using r b by (auto simp: lk lookup_child_def child_at_remove[OF len b] set_result_def nD child_at_def[of bm cs]
          simp del: push_bit_of_1)
    consider (one) only where "?cs = [only]" | (more) "2 \<le> length ?cs"
      using two length_remove_at[OF sl] by (cases ?cs rule: remdups_adj.cases) auto
    then show ?thesis
    proof cases
      case one
      obtain d where d: "child_at ?bm ?cs d = Some only"
        using ex_child_at_iff[OF len', of only] one by auto
      have "lookup_child ?bm ?cs (nibble x l) x = node_lookup only x" for x
      proof (cases "child_at ?bm ?cs (nibble x l)")
        case None
        then have "nibble x l \<noteq> d" using d by auto
        then show ?thesis
          using None wf_child_nibble[OF ch'[OF d], of x] by (cases "node_lookup only x") (auto simp: lookup_child_def)
      next
        case (Some c)
        then have "c \<in> set ?cs" using ex_child_at_iff[OF len'] by blast
        then show ?thesis using Some one by (simp add: lookup_child_def)
      qed
      moreover have "wf_node only" using ch'[OF d] by (simp add: wf_child_def)
      ultimately show ?thesis using lk' one by (auto intro!: set_result_SomeI)
    next
      case more
      then have "(case ?cs of [only] \<Rightarrow> Some only | _ \<Rightarrow> fin ?bm ?cs) = fin ?bm ?cs"
        by (auto split: list.splits)
      then show ?thesis unfolding fin_def using finish_correct[OF l more len' ch' lk'] by simp
    qed
  qed
qed

lemma set_node_correct: "wf_node n \<Longrightarrow> set_result n actor seq (set_node n actor seq)"
proof (induction n)
  case (Leaf held old)
  show ?case
  proof (cases "held = actor")
    case False
    then obtain d where d: "first_difference held actor = Some d"
      using first_difference_None by (cases "first_difference held actor") auto
    have "set_result (Leaf held old) actor (Some s) (Some (node_pair d (Leaf held old) (Leaf actor s)))" for s
      by (rule pair_leaf) (use d in auto)
    then show ?thesis using False d by (cases seq) (auto simp: set_result_def)
  qed (auto simp: set_result_def split: option.splits)
next
  case (Branch l bm n k cs)
  let ?n = "Branch l bm n k cs"
  note wf = Branch.prems
  have len: "length cs = length (digits bm)" and l: "l < 64" using wf by (auto simp: wf_Branch_iff)
  show ?case
  proof (cases "case first_difference k actor of Some d \<Rightarrow> d < l | None \<Rightarrow> False")
    case True
    then obtain d where d: "first_difference k actor = Some d" "d < l" by (auto split: option.splits)
    have ag: "agree (Suc d) k x" if "x \<in> node_actors ?n" for x
      using wf_agree_Branch[OF wf that] d(2) by (auto intro: agree_mono)
    have "set_result ?n actor (Some s) (Some (node_pair d ?n (Leaf actor s)))" for s
      by (rule pair_leaf) (use wf d ag in auto)
    moreover have "actor \<notin> node_actors ?n"
      using ag[of actor] first_difference_Some(3)[OF d(1)] by (auto simp: agree_iff simp del: actors_Branch)
    then have "node_lookup ?n actor = None" using actors_lookup[OF wf] by blast
    then have "set_result ?n actor None (Some ?n)" using wf by (auto simp: set_result_def)
    ultimately show ?thesis using d by (cases seq) auto
  next
    case False
    have ag: "agree l k actor"
      by (rule agree_if_diff_ge) (use False l in \<open>auto split: option.splits\<close>)
    let ?D = "nibble actor l"
    have out: "(case first_difference k actor of Some d \<Rightarrow> d < l | None \<Rightarrow> False) \<longleftrightarrow> False"
      using False by simp
    show ?thesis
    proof (cases "bit bm ?D")
      case b: False
      then show ?thesis
        using set_branch_absent[OF wf ag] set_branch_insert[OF wf ag]
        unfolding set_node.simps Let_def out and_bit_zero by (cases seq) auto
    next
      case b: True
      have i: "slot bm ?D < length cs" using len slot_lt_length[OF b] by simp
      have c: "child_at bm cs ?D = Some (cs ! slot bm ?D)" using b by (simp add: child_at_def)
      then have "wf_node (cs ! slot bm ?D)" using wf by (auto simp: wf_Branch_iff wf_child_def)
      then have "set_result (cs ! slot bm ?D) actor seq (set_node (cs ! slot bm ?D) actor seq)"
        using Branch.IH i by simp
      then show ?thesis
        using b i set_branch_child[OF wf ag b] set_branch_remove[OF wf ag b]
        unfolding set_node.simps Let_def out and_bit_zero
        by (cases "set_node (cs ! slot bm ?D) actor seq") (simp_all del: push_bit_of_1)
    qed
  qed
qed

lemma set_node_Some_ne: "wf_node n \<Longrightarrow> set_node n actor (Some s) \<noteq> None"
  using set_node_correct[of n actor "Some s"] by (auto simp: set_result_def split: option.splits)

abbreviation join_seq :: "u64 option \<Rightarrow> u64 option \<Rightarrow> u64 option" where
  "join_seq \<equiv> combine_options max"

lemma observed_correct:
  assumes "wf_node n"
  shows "wf_node (node_observed n a s)"
    and "node_lookup (node_observed n a s) x = (if x = a then join_seq (node_lookup n x) (Some s) else node_lookup n x)"
  using assms set_node_correct[OF assms, of a "Some s"] set_node_Some_ne[OF assms, of a s]
  by (auto simp: node_observed_def set_result_def max_def split: option.splits)

section \<open>Union\<close>

text \<open>What a union promises: the invariant, and the pointwise maximum of the positions.\<close>

definition union_result :: "node \<Rightarrow> node \<Rightarrow> node \<Rightarrow> bool" where
  "union_result a b r \<longleftrightarrow> wf_node r \<and> (\<forall>x. node_lookup r x = join_seq (node_lookup a x) (node_lookup b x))"

lemma join_seq_idem [simp]: "join_seq s s = s"
  by (cases s) auto

lemma join_seq_commute: "join_seq s t = join_seq t s"
  by (cases s; cases t) (auto simp: max.commute)

lemma join_seq_None [simp]: "join_seq s None = s" "join_seq None s = s"
  by (cases s; simp)+

lemma join_seq_eq_None [simp]: "join_seq s t = None \<longleftrightarrow> s = None \<and> t = None"
  by (cases s; cases t) auto

lemma union_result_commute: "union_result a b r \<Longrightarrow> union_result b a r"
  by (simp add: union_result_def join_seq_commute)

lemma union_result_actors:
  "union_result a b r \<Longrightarrow> wf_node a \<Longrightarrow> wf_node b \<Longrightarrow> node_actors r = node_actors a \<union> node_actors b"
  by (auto simp: union_result_def actors_lookup simp del: not_None_eq)

lemma wf_child_union:
  "union_result a b r \<Longrightarrow> wf_child l k d a \<Longrightarrow> wf_child l k d b \<Longrightarrow> wf_child l k d r"
  by (auto simp: wf_child_def union_result_actors) (simp add: union_result_def)

lemma union_leaf: "wf_node a \<Longrightarrow> union_result a (Leaf actor s) (node_observed a actor s)"
  by (auto simp: union_result_def observed_correct)

lemma child_key:
  assumes "k \<in> (\<Union>c\<in>set cs. node_actors c)" "length cs = length (digits bm)" "length cs' = length (digits bm')"
    and "\<And>d c. child_at bm cs d = Some c \<Longrightarrow> \<exists>c'. child_at bm' cs' d = Some c' \<and> node_actors c \<subseteq> node_actors c'"
  shows "k \<in> (\<Union>c\<in>set cs'. node_actors c)"
proof -
  obtain c where c: "c \<in> set cs" "k \<in> node_actors c" using assms(1) by blast
  then obtain d where "child_at bm cs d = Some c" using ex_child_at_iff[OF assms(2)] by blast
  then obtain c' where c': "child_at bm' cs' d = Some c'" "node_actors c \<subseteq> node_actors c'" using assms(4) by blast
  then have "c' \<in> set cs'" using ex_child_at_iff[OF assms(3)] by blast
  then show ?thesis using c c' by blast
qed

lemma branch_union:
  assumes wf: "wf_node (Branch l bm n k cs)"
    and len: "2 \<le> length cs'" "length cs' = length (digits bm')"
    and ch: "\<And>d c. child_at bm' cs' d = Some c \<Longrightarrow> wf_child l k d c"
    and sub: "\<And>d c. child_at bm cs d = Some c \<Longrightarrow> \<exists>c'. child_at bm' cs' d = Some c' \<and> node_actors c \<subseteq> node_actors c'"
    and lk: "\<And>x. lookup_child bm' cs' (nibble x l) x = join_seq (lookup_child bm cs (nibble x l) x) (node_lookup b x)"
  shows "union_result (Branch l bm n k cs) b (Branch l bm' (sum_list (map nlen cs')) k cs')"
proof -
  note w = wf[unfolded wf_Branch_iff]
  have "k \<in> (\<Union>c\<in>set cs'. node_actors c)"
    by (rule child_key[OF _ _ len(2) sub]) (use w in auto)
  then have "wf_node (Branch l bm' (sum_list (map nlen cs')) k cs')"
    using w len ch by (intro wf_BranchI) auto
  moreover have "length cs = length (digits bm)" using w by simp
  ultimately show ?thesis
    using lk by (auto simp: union_result_def lookup_Branch len(2) lookup_child_def)
qed

lemma union_into_correct:
  assumes sound: "\<And>x y. ptr_eq x y \<Longrightarrow> x = y"
    and wf: "wf_node (Branch l bm n k cs)" and low: "wf_child l k (nibble (nkey lower) l) lower"
    and join: "\<And>c. c \<in> set cs \<Longrightarrow> wf_node c \<Longrightarrow> union_result c lower (join c)"
  shows "union_result (Branch l bm n k cs) lower (union_into ptr_eq join (Branch l bm n k cs) lower)"
proof -
  let ?D = "nibble (nkey lower) l" and ?n = "Branch l bm n k cs"
  note w = wf[unfolded wf_Branch_iff]
  have l: "l < 64" and two: "2 \<le> length cs" and len: "length cs = length (digits bm)"
    and ch: "\<And>d c. child_at bm cs d = Some c \<Longrightarrow> wf_child l k d c"
    and n: "n = sum_list (map nlen cs)" using w by auto
  have D: "?D < 16" by (rule nibble_lt)
  have other: "node_lookup lower x = None" if "nibble x l \<noteq> ?D" for x
    using wf_child_nibble[OF low, of x] that by (cases "node_lookup lower x") auto
  show ?thesis
  proof (cases "bit bm ?D")
    case b: False
    have sl: "slot bm ?D \<le> length cs" using len slot_le_length by simp
    have "union_result ?n lower (Branch l (bm OR push_bit ?D 1)
        (sum_list (map nlen (insert_at (slot bm ?D) lower cs))) k (insert_at (slot bm ?D) lower cs))"
    proof (rule branch_union[OF wf])
      show "length (insert_at (slot bm ?D) lower cs) = length (digits (bm OR push_bit ?D 1))"
        using len sl by (simp add: length_digits_set[OF b D] del: push_bit_of_1)
      show "wf_child l k d c"
        if "child_at (bm OR push_bit ?D 1) (insert_at (slot bm ?D) lower cs) d = Some c" for d c
        using that ch low by (simp add: child_at_insert[OF len b D] del: push_bit_of_1 split: if_splits)
      show "\<exists>c'. child_at (bm OR push_bit ?D 1) (insert_at (slot bm ?D) lower cs) d = Some c' \<and> node_actors c \<subseteq> node_actors c'"
        if "child_at bm cs d = Some c" for d c
        using that b by (auto simp: child_at_insert[OF len b D] child_at_def[of bm cs] simp del: push_bit_of_1)
      show "lookup_child (bm OR push_bit ?D 1) (insert_at (slot bm ?D) lower cs) (nibble x l) x =
          join_seq (lookup_child bm cs (nibble x l) x) (node_lookup lower x)" for x
        using b other by (auto simp: lookup_child_def child_at_insert[OF len b D] child_at_def[of bm cs]
            simp del: push_bit_of_1)
    qed (use two sl in auto)
    then show ?thesis
      using b unfolding union_into_def Let_def and_bit_zero by simp
  next
    case b: True
    let ?c = "cs ! slot bm ?D"
    have i: "slot bm ?D < length cs" using len slot_lt_length[OF b] by simp
    have c: "child_at bm cs ?D = Some ?c" using b by (simp add: child_at_def)
    then have wc: "wf_child l k ?D ?c" using ch by simp
    then have wfc: "wf_node ?c" by (simp add: wf_child_def)
    then have r: "union_result ?c lower (join ?c)" using join i by simp
    then have sub: "node_actors ?c \<subseteq> node_actors (join ?c)"
      using union_result_actors[OF r wfc] low by (auto simp: wf_child_def)
    have step: "union_result ?n lower
        (Branch l bm (sum_list (map nlen (cs[slot bm ?D := join ?c]))) k (cs[slot bm ?D := join ?c]))"
    proof (rule branch_union[OF wf])
      show "wf_child l k d c'" if "child_at bm (cs[slot bm ?D := join ?c]) d = Some c'" for d c'
        using that ch wf_child_union[OF r wc low] by (simp add: child_at_update[OF len b] split: if_splits)
      show "\<exists>c''. child_at bm (cs[slot bm ?D := join ?c]) d = Some c'' \<and> node_actors c' \<subseteq> node_actors c''"
        if "child_at bm cs d = Some c'" for d c'
        using that c sub by (auto simp: child_at_update[OF len b])
      show "lookup_child bm (cs[slot bm ?D := join ?c]) (nibble x l) x =
          join_seq (lookup_child bm cs (nibble x l) x) (node_lookup lower x)" for x
        using r c other[of x] by (auto simp: lookup_child_def child_at_update[OF len b] union_result_def)
    qed (use two len in auto)
    have "union_result ?n lower ?n" if "ptr_eq (join ?c) ?c"
      using step sound[OF that] n by simp
    then show ?thesis
      using step b i unfolding union_into_def Let_def and_bit_zero by simp
  qed
qed

definition merged_child :: "(node \<Rightarrow> node \<Rightarrow> node) \<Rightarrow> node option \<Rightarrow> node option \<Rightarrow> node option" where
  "merged_child join x y =
    (case (x, y) of
       (Some x, Some y) \<Rightarrow> Some (join x y)
     | (Some x, None) \<Rightarrow> Some x
     | (None, y) \<Rightarrow> y)"

lemma same_nodes_eq:
  assumes "\<And>x y. ptr_eq x y \<Longrightarrow> x = y" "same_nodes ptr_eq bm cs bits own" "length own = length cs"
  shows "own = cs"
proof (rule nth_equalityI)
  fix i assume "i < length own"
  then have "(own ! i, cs ! i) \<in> set (zip own cs)" using assms(3) by (auto simp: set_zip)
  then show "own ! i = cs ! i"
    using assms(1,2) by (force simp: same_nodes_def list_all_iff)
qed (use assms(3) in simp)

lemma union_children_correct:
  assumes sound: "\<And>x y. ptr_eq x y \<Longrightarrow> x = y"
    and wfa: "wf_node (Branch l ba na ka ca)" and wfb: "wf_node (Branch l bb nb kb cb)"
    and ag: "agree l ka kb"
    and join: "\<And>x y. x \<in> set ca \<Longrightarrow> y \<in> set cb \<Longrightarrow> wf_node x \<Longrightarrow> wf_node y \<Longrightarrow> union_result x y (join x y)"
  shows "union_result (Branch l ba na ka ca) (Branch l bb nb kb cb)
    (union_children ptr_eq join (Branch l ba na ka ca) (Branch l bb nb kb cb))"
proof -
  let ?a = "Branch l ba na ka ca" and ?b = "Branch l bb nb kb cb" and ?bm = "ba OR bb"
  define g where "g digit = (if ba AND push_bit digit 1 \<noteq> 0 \<and> bb AND push_bit digit 1 \<noteq> 0 then
      (if slot ba digit < length ca \<and> slot bb digit < length cb
       then join (ca ! slot ba digit) (cb ! slot bb digit) else ?a)
    else if ba AND push_bit digit 1 \<noteq> 0 then ca ! slot ba digit
    else cb ! slot bb digit)" for digit
  let ?cs = "map g (digits ?bm)"
  have lena: "length ca = length (digits ba)" and lenb: "length cb = length (digits bb)"
    and na: "na = sum_list (map nlen ca)" and two: "2 \<le> length ca"
    and cha: "\<And>d c. child_at ba ca d = Some c \<Longrightarrow> wf_child l ka d c"
    using wfa wfb by (simp_all add: wf_Branch_iff)
  have chb: "wf_child l ka d c" if "child_at bb cb d = Some c" for d c
    using that wfb wf_child_agree[OF _ ag] by (auto simp: wf_Branch_iff)
  have ca: "child_at ?bm ?cs d = merged_child join (child_at ba ca d) (child_at bb cb d)" for d
    using slot_lt_length[of ba d] slot_lt_length[of bb d] lena lenb
    unfolding child_at_map
    by (auto simp: g_def merged_child_def child_at_def and_bit_zero bit_or_iff simp del: push_bit_of_1)
  have r: "union_result x y (join x y)" if "child_at ba ca d = Some x" "child_at bb cb d = Some y" for d x y
    using that join cha chb ex_child_at_iff[OF lena, of x] ex_child_at_iff[OF lenb, of y]
    by (auto simp: wf_child_def)
  have "card {e. bit ba e} \<le> card {e. bit ?bm e}" by (rule card_mono) (auto simp: bit_or_iff)
  then have two': "2 \<le> length ?cs" using two lena by (simp add: length_digits)
  have step: "union_result ?a ?b (Branch l ?bm (sum_list (map nlen ?cs)) ka ?cs)"
  proof (rule branch_union[OF wfa two'])
    show "wf_child l ka d c" if "child_at ?bm ?cs d = Some c" for d c
      using that cha[of d] chb[of d] wf_child_union[OF r[of d]]
      by (auto simp: ca merged_child_def split: option.splits)
    show "\<exists>c'. child_at ?bm ?cs d = Some c' \<and> node_actors c \<subseteq> node_actors c'" if "child_at ba ca d = Some c" for d c
    proof (cases "child_at bb cb d")
      case (Some y)
      then have "node_actors (join c y) = node_actors c \<union> node_actors y"
        using union_result_actors[OF r[OF that Some]] cha[OF that] chb[OF Some] by (auto simp: wf_child_def)
      then show ?thesis using that Some by (simp add: ca merged_child_def)
    qed (use that in \<open>simp add: ca merged_child_def\<close>)
    show "lookup_child ?bm ?cs (nibble x l) x =
        join_seq (lookup_child ba ca (nibble x l) x) (node_lookup ?b x)" for x
      using r[of "nibble x l"]
      by (auto simp: lookup_child_def ca merged_child_def lookup_Branch[OF lenb] union_result_def split: option.splits)
  qed simp
  have res: "union_children ptr_eq join ?a ?b =
      (if same_nodes ptr_eq ?bm ?cs ba ca then ?a else if same_nodes ptr_eq ?bm ?cs bb cb then ?b
       else Branch l ?bm (sum_list (map nlen ?cs)) ka ?cs)"
    unfolding union_children_def Let_def digits_eq g_def by simp
  have "union_result ?a ?b ?a" if s: "same_nodes ptr_eq ?bm ?cs ba ca"
  proof -
    have "ba = ?bm" using s by (simp add: same_nodes_def)
    then have "ca = ?cs" using same_nodes_eq[OF sound s] lena by simp
    then show ?thesis using step na \<open>ba = ?bm\<close> by metis
  qed
  moreover have "union_result ?a ?b ?b" if s: "same_nodes ptr_eq ?bm ?cs bb cb"
  proof -
    have bm: "bb = ?bm" using s by (simp add: same_nodes_def)
    then have cs: "cb = ?cs" using same_nodes_eq[OF sound s] lenb by simp
    have "node_lookup (Branch l ?bm (sum_list (map nlen ?cs)) ka ?cs) x = node_lookup (Branch l ?bm nb kb ?cs) x" for x
      by (simp only: node_lookup.simps)
    then have "node_lookup (Branch l ?bm (sum_list (map nlen ?cs)) ka ?cs) x = node_lookup ?b x" for x
      using bm cs by metis
    then show ?thesis using step wfb by (simp add: union_result_def)
  qed
  ultimately show ?thesis using step by (simp add: res)
qed

lemma union_node_leaf:
  "\<not> ptr_eq a (Leaf actor s) \<Longrightarrow> union_node ptr_eq a (Leaf actor s) = node_observed a actor s"
  "\<not> ptr_eq (Leaf actor s) (Branch l bm n k cs) \<Longrightarrow>
    union_node ptr_eq (Leaf actor s) (Branch l bm n k cs) = node_observed (Branch l bm n k cs) actor s"
  by (cases a; simp)+

lemma union_node_branch:
  assumes "\<not> ptr_eq a b" "a = Branch la ba na ka ca" "b = Branch lb bb nb kb cb"
  shows "union_node ptr_eq a b =
    (if (case first_difference ka kb of Some d \<Rightarrow> d < min la lb | None \<Rightarrow> False)
     then node_pair (the (first_difference ka kb)) a b
     else if la = lb then union_children ptr_eq (union_node ptr_eq) a b
     else if la < lb then union_into ptr_eq (\<lambda>x. union_node ptr_eq x b) a b
     else union_into ptr_eq (\<lambda>x. union_node ptr_eq x a) b a)"
  using assms by (simp add: Let_def)

declare union_node.simps [simp del]

theorem union_node_correct:
  assumes sound: "\<And>x y. ptr_eq x y \<Longrightarrow> x = y"
  shows "wf_node a \<Longrightarrow> wf_node b \<Longrightarrow> union_result a b (union_node ptr_eq a b)"
proof (induction "size a + size b" arbitrary: a b rule: less_induct)
  case less
  note wf = less.prems
  consider (same) "ptr_eq a b" | (leafb) actor s where "\<not> ptr_eq a b" "b = Leaf actor s"
    | (leafa) actor s l bm n k cs where "\<not> ptr_eq a b" "a = Leaf actor s" "b = Branch l bm n k cs"
    | (both) la ba na ka ca lb bb nb kb cb
        where "\<not> ptr_eq a b" "a = Branch la ba na ka ca" "b = Branch lb bb nb kb cb"
    by (cases a; cases b) blast+
  then show ?case
  proof cases
    case same
    then have "a = b" by (rule sound)
    then show ?thesis using same wf by (simp add: union_result_def union_node.simps)
  next
    case leafb
    then show ?thesis using union_leaf[OF wf(1)] by (simp add: union_node_leaf)
  next
    case leafa
    then show ?thesis using union_leaf[OF wf(2)] union_result_commute by (simp add: union_node_leaf)
  next
    case both
    note wfa = wf(1)[unfolded both(2)] and wfb = wf(2)[unfolded both(3)]
    have lvl: "la < 64" "lb < 64" using wfa wfb by (auto simp: wf_Branch_iff)
    note aga = wf_agree_Branch[OF wfa] and agb = wf_agree_Branch[OF wfb]
    show ?thesis
    proof (cases "case first_difference ka kb of Some d \<Rightarrow> d < min la lb | None \<Rightarrow> False")
      case True
      then obtain d where d: "first_difference ka kb = Some d" "d < la" "d < lb"
        by (auto split: option.splits)
      note fd = first_difference_Some[OF d(1)]
      have a: "agree d (nkey a) x \<and> nibble x d = nibble (nkey a) d" if "x \<in> node_actors a" for x
        using aga[of x] that d by (simp add: both agree_iff)
      have b: "agree d (nkey a) x \<and> nibble x d = nibble (nkey b) d" if "x \<in> node_actors b" for x
        using agb[of x] that d fd(2) by (simp add: both agree_iff)
      have ne: "nibble (nkey a) d \<noteq> nibble (nkey b) d" using fd by (simp add: both)
      note p = pair_correct[OF wf fd(1) ne a b]
      have "node_lookup a x = None \<or> node_lookup b x = None" for x
        using a[of x] b[of x] ne actors_lookup[OF wf(1), of x] actors_lookup[OF wf(2), of x]
        by (cases "node_lookup a x"; cases "node_lookup b x") auto
      then have "node_lookup (node_pair d a b) x = join_seq (node_lookup a x) (node_lookup b x)" for x
        using p(2)[of x] by (metis join_seq_None option.simps(4,5) not_Some_eq)
      then show ?thesis using p(1) True d by (auto simp: union_result_def union_node_branch[of ptr_eq, OF both])
    next
      case False
      have ag: "agree (min la lb) ka kb"
        by (rule agree_if_diff_ge) (use False lvl in \<open>auto split: option.splits\<close>)
      have less_a: "union_result c b (union_node ptr_eq c b)" if "c \<in> set ca" "wf_node c" for c
        using that less.hyps[of c b] wf(2) size_list_estimation'[of c ca "size c" size]
        by (simp add: both(2) less_Suc_eq_le)
      have less_b: "union_result c a (union_node ptr_eq c a)" if "c \<in> set cb" "wf_node c" for c
        using that less.hyps[of c a] wf(1) size_list_estimation'[of c cb "size c" size]
        by (simp add: both(3) less_Suc_eq_le)
      have less_ab: "union_result x y (union_node ptr_eq x y)"
        if "x \<in> set ca" "y \<in> set cb" "wf_node x" "wf_node y" for x y
        using that less.hyps[of x y] size_list_estimation'[of x ca "size x" size]
          size_list_estimation'[of y cb "size y" size]
        by (simp add: both less_Suc_eq_le)
      consider "la = lb" | "la < lb" | "lb < la" by linarith
      then show ?thesis
      proof cases
        case 1
        then have "agree lb ka kb" using ag by simp
        from union_children_correct[OF sound wfa[unfolded 1] wfb this less_ab] show ?thesis
          using 1 False by (simp add: union_node_branch[of ptr_eq, OF both]) (simp add: both)
      next
        case 2
        have "wf_child la ka (nibble (nkey b) la) b"
          using wf(2) agb ag 2 by (auto simp: wf_child_def both agree_iff simp del: actors_Branch)
        from union_into_correct[OF sound wfa this less_a] show ?thesis
          using 2 False by (simp add: union_node_branch[of ptr_eq, OF both]) (simp add: both)
      next
        case 3
        have "wf_child lb kb (nibble (nkey a) lb) a"
          using wf(1) aga ag 3 by (auto simp: wf_child_def both agree_iff simp del: actors_Branch)
        from union_into_correct[OF sound wfb this less_b] show ?thesis
          using 3 False by (simp add: union_node_branch[of ptr_eq, OF both]) (simp add: both union_result_commute)
      qed
    qed
  qed
qed

end
