(* ===== verification/Clock_Select.thy ===== *)
theory Clock_Select
  imports Clock_Trie
begin

text \<open>
  Correctness of \<open>selected_node\<close>, the restriction of a trie to a set of actors, and of the cursor
  that walks a trie in id order.
\<close>

section \<open>Selection\<close>

lemma select_loop_Some:
  "select_loop p f before cs (Some changed) = Some (changed @ concat (map (\<lambda>c. opt_list (f c)) cs))"
  by (induction cs arbitrary: before changed) (auto simp: Let_def split: option.splits)

lemma select_loop_None:
  assumes sound: "\<And>x y. p x y \<Longrightarrow> x = y"
  shows "select_loop p f before cs None =
    (if \<forall>c\<in>set cs. \<exists>s. f c = Some s \<and> p s c then None
     else Some (before @ concat (map (\<lambda>c. opt_list (f c)) cs)))"
proof (induction cs arbitrary: before)
  case (Cons c cs)
  then show ?case
    using sound by (auto simp: Let_def select_loop_Some split: option.splits)
qed simp

lemma bit_foldl_digits:
  assumes "\<And>c. c \<in> set cs \<Longrightarrow> f c < 16"
  shows "bit (foldl (\<lambda>bits c. bits OR push_bit (f c) 1) (b :: u16) cs) e \<longleftrightarrow> bit b e \<or> e \<in> f ` set cs"
  using assms by (induction cs arbitrary: b) (auto simp: bit_set simp del: push_bit_of_1)

lemma sorted_selected:
  assumes "sorted_wrt (<) (map (f :: node \<Rightarrow> nat) cs)"
    and "\<And>c c'. c \<in> set cs \<Longrightarrow> sel c = Some c' \<Longrightarrow> f c' = f c"
  shows "sorted_wrt (<) (map f (concat (map (\<lambda>c. opt_list (sel c)) cs)))"
  using assms
proof (induction cs)
  case (Cons c cs)
  have "f c < f x" if x: "x \<in> set (concat (map (\<lambda>c. opt_list (sel c)) cs))" for x
  proof -
    obtain y where "y \<in> set cs" "sel y = Some x" using x by (auto simp: set_opt_list)
    then show ?thesis using Cons.prems(1) Cons.prems(2)[of y x] by auto
  qed
  moreover have "sorted_wrt (<) (map f (concat (map (\<lambda>c. opt_list (sel c)) cs)))"
    using Cons by auto
  moreover have "f x = f c" if "sel c = Some x" for x using Cons.prems(2)[of c x] that by simp
  ultimately show ?case by (cases "sel c") (simp_all add: sorted_wrt_append)
qed simp

definition selected_result :: "node \<Rightarrow> actor_id btree_set \<Rightarrow> node option \<Rightarrow> bool" where
  "selected_result n A r \<longleftrightarrow>
    (case r of None \<Rightarrow> True | Some n' \<Rightarrow> wf_node n') \<and>
    {e \<in> set (node_entries n). fst e |\<in>| A} = (case r of None \<Rightarrow> {} | Some n' \<Rightarrow> set (node_entries n'))"

lemma selected_node_correct:
  assumes sound: "\<And>x y. ptr_eq x y \<Longrightarrow> x = y"
  shows "wf_node n \<Longrightarrow> selected_result n A (selected_node ptr_eq n A)"
proof (induction n)
  case (Leaf a s)
  then show ?case by (auto simp: selected_result_def)
next
  case (Branch l bm n k cs)
  let ?n = "Branch l bm n k cs" and ?sel = "\<lambda>c. selected_node ptr_eq c A" and ?f = "\<lambda>c. nibble (nkey c) l"
  define ch where "ch = concat (map (\<lambda>c. opt_list (?sel c)) cs)"
  define same where "same \<longleftrightarrow> (\<forall>c\<in>set cs. \<exists>s. ?sel c = Some s \<and> ptr_eq s c)"
  note w = Branch.prems[unfolded wf_node.simps]
  have IH: "selected_result c A (?sel c)" if "c \<in> set cs" for c
    using that Branch.IH w by blast
  have node_entries: "{e \<in> set (node_entries ?n). fst e |\<in>| A} = (\<Union>c\<in>set ch. set (node_entries c))"
  proof -
    have "{e \<in> set (node_entries ?n). fst e |\<in>| A} = (\<Union>c\<in>set cs. {e \<in> set (node_entries c). fst e |\<in>| A})" by auto
    also have "\<dots> = (\<Union>c\<in>set cs. \<Union>c'\<in>set (opt_list (?sel c)). set (node_entries c'))"
      using IH by (intro SUP_cong) (auto simp: selected_result_def split: option.splits)
    finally show ?thesis by (simp add: ch_def)
  qed
  have from_cs: "\<exists>c\<in>set cs. ?sel c = Some c' \<and> wf_node c' \<and> set (node_entries c') \<subseteq> set (node_entries c)"
    if c': "c' \<in> set ch" for c'
  proof -
    obtain c where c: "c \<in> set cs" "?sel c = Some c'"
      using c' by (auto simp: ch_def set_opt_list)
    then show ?thesis using IH[OF c(1)] by (intro bexI[of _ c]) (auto simp: selected_result_def)
  qed
  have digit: "?f c' = ?f c" if "c \<in> set cs" "wf_node c'" "set (node_entries c') \<subseteq> set (node_entries c)" for c c'
  proof -
    have "nkey c' \<in> set (map fst (node_entries c))"
      using nkey_in_actors[OF that(2)] that(3) by (auto simp: node_actors_def)
    then show ?thesis using w that(1) by blast
  qed
  have loop: "select_loop ptr_eq ?sel [] cs None =
      (if same then None else Some ch)"
    using select_loop_None[of ptr_eq ?sel "[]" cs] sound by (simp add: ch_def same_def)
  have res: "selected_node ptr_eq ?n A =
      (if same then Some ?n
       else case ch of [] \<Rightarrow> None | [only] \<Rightarrow> Some only
         | _ \<Rightarrow> Some (Branch l (foldl (\<lambda>bits child. bits OR push_bit (?f child) 1) 0 ch)
              (sum_list (map nlen ch)) (nkey (hd ch)) ch))"
    using loop by (auto split: list.split)
  show ?case
  proof (cases same)
    case True
    then have "opt_list (?sel c) = [c]" if "c \<in> set cs" for c
      using that sound by (fastforce simp: same_def)
    then have "ch = concat (map (\<lambda>c. [c]) cs)" unfolding ch_def by (intro arg_cong[where f = concat]) simp
    then have "ch = cs" by simp
    then show ?thesis
      using True node_entries Branch.prems by (auto simp: res selected_result_def simp del: selected_node.simps)
  next
    case False
    consider (none) "ch = []" | (one) only where "ch = [only]" | (more) "2 \<le> length ch"
      by (cases ch rule: remdups_adj.cases) auto
    then show ?thesis
    proof cases
      case none
      then show ?thesis using False node_entries by (simp add: res selected_result_def del: selected_node.simps)
    next
      case one
      then show ?thesis using False node_entries from_cs[of only] by (simp add: res selected_result_def del: selected_node.simps) blast
    next
      case more
      let ?bm = "foldl (\<lambda>bits child. bits OR push_bit (?f child) 1) 0 ch :: u16"
      let ?r = "Branch l ?bm (sum_list (map nlen ch)) (nkey (hd ch)) ch"
      have hd: "hd ch \<in> set ch" using more by (cases ch) auto
      have "map ?f ch = digits ?bm"
      proof (rule sorted_list_unique)
        have "sorted_wrt (<) (map ?f cs)" using w sorted_digits by simp
        then show "sorted_wrt (<) (map ?f ch)"
          unfolding ch_def
        proof (rule sorted_selected)
          show "?f c' = ?f c" if "c \<in> set cs" "?sel c = Some c'" for c c'
            using that digit[OF that(1), of c'] IH[OF that(1)] by (auto simp: selected_result_def)
        qed
      qed (auto simp: sorted_digits set_digits bit_foldl_digits nibble_lt simp del: push_bit_of_1)
      moreover have "nkey (hd ch) \<in> set (map fst (concat (map node_entries ch)))"
        using from_cs[OF hd] nkey_in_actors[of "hd ch"] hd by (force simp: node_actors_def)
      moreover have "wf_node c \<and> (\<forall>x\<in>set (map fst (node_entries c)). agree l (nkey (hd ch)) x \<and> nibble x l = ?f c)"
        if c: "c \<in> set ch" for c
      proof -
        obtain c0 h0 where c0: "c0 \<in> set cs" "wf_node c" "set (node_entries c) \<subseteq> set (node_entries c0)"
          and h0: "h0 \<in> set cs" "wf_node (hd ch)" "set (node_entries (hd ch)) \<subseteq> set (node_entries h0)"
          using from_cs[OF c] from_cs[OF hd] by blast
        have "nkey (hd ch) \<in> set (map fst (node_entries h0))"
          using nkey_in_actors[OF h0(2)] h0(3) by (auto simp: node_actors_def)
        then have "agree l (nkey (hd ch)) k" using w h0(1) by (blast intro: agree_sym)
        moreover have "agree l k x \<and> nibble x l = ?f c" if "x \<in> set (map fst (node_entries c))" for x
        proof -
          have "x \<in> set (map fst (node_entries c0))" using that c0(3) by auto
          then show ?thesis using w c0(1) digit[OF c0] by metis
        qed
        ultimately show ?thesis using c0(2) by (blast intro: agree_trans)
      qed
      ultimately have "wf_node ?r" using more w unfolding wf_node.simps by blast
      moreover have "(case ch of [] \<Rightarrow> None | [only] \<Rightarrow> Some only | _ \<Rightarrow> Some ?r) = Some ?r"
        using more by (auto split: list.splits)
      ultimately show ?thesis using False node_entries by (simp add: res selected_result_def del: selected_node.simps)
    qed
  qed
qed

section \<open>Iteration\<close>

lemma cursor_next_entries:
  "\<forall>n\<in>set stack. wf_node n \<Longrightarrow>
    (case cursor_next stack of
       None \<Rightarrow> concat (map node_entries stack) = []
     | Some (e, rest) \<Rightarrow> concat (map node_entries stack) = e # concat (map node_entries rest) \<and> (\<forall>n\<in>set rest. wf_node n))"
proof (induction stack rule: cursor_next.induct)
  case (3 l bm n k cs stack)
  then have "\<forall>n\<in>set (cs @ stack). wf_node n" by (auto simp: wf_node.simps)
  from "3.IH"[OF this] show ?case by (simp split: option.splits prod.splits)
qed auto

lemma cursor_next_size:
  "cursor_next stack = Some (e, rest) \<Longrightarrow> size_list size rest < size_list size stack"
  by (induction stack rule: cursor_next.induct) (auto simp: size_list_append)

end
