(* ===== verification/Clock.thy ===== *)
theory Clock
  imports Clock_Select
begin

text \<open>
  \<open>ActorClock\<close> of \<open>clock.rs\<close>. The field \<open>root\<close> is private to the module and every constructor
  keeps the trie invariant, so the type here is the set of well-formed roots. \<open>Arc::ptr_eq\<close> is
  equality of nodes; \<open>union_ptr_eq_irrelevant\<close> shows that a finer relation gives the same entries.
  Rust's \<open>==\<close> on clocks compares entries and is \<open>clock_eq\<close>.
\<close>

named_theorems clock_simps \<open>entries of a clock after each operation\<close>

section \<open>The clock type\<close>

definition wf_root :: "node option \<Rightarrow> bool" where
  "wf_root r = (case r of None \<Rightarrow> True | Some n \<Rightarrow> wf_node n)"

typedef actor_clock = "{r. wf_root r}" morphisms root Clock
  by (rule exI[of _ None]) (simp add: wf_root_def)

declare root_inverse [code abstype]

instantiation actor_clock :: equal
begin

definition equal_actor_clock :: "actor_clock \<Rightarrow> actor_clock \<Rightarrow> bool" where
  "equal_actor_clock a b = (root a = root b)"

instance
  by standard (auto simp: equal_actor_clock_def root_inject)

end

section \<open>Operations\<close>

definition clock_new :: actor_clock where
  "clock_new = Clock None"

definition clock_entry :: "actor_clock \<Rightarrow> actor_id \<Rightarrow> u64 option" where
  "clock_entry clock actor = (case root clock of None \<Rightarrow> None | Some node \<Rightarrow> node_lookup node actor)"

definition clock_get :: "actor_clock \<Rightarrow> actor_id \<Rightarrow> u64" where
  "clock_get clock actor = (case clock_entry clock actor of None \<Rightarrow> 0 | Some seq \<Rightarrow> seq)"

definition put_root :: "node option \<Rightarrow> actor_id \<Rightarrow> u64 option \<Rightarrow> node option" where
  "put_root r actor seq =
    (case r of
       Some node \<Rightarrow> set_node node actor seq
     | None \<Rightarrow> map_option (Leaf actor) seq)"

definition clock_put :: "actor_clock \<Rightarrow> actor_id \<Rightarrow> u64 option \<Rightarrow> actor_clock" where
  "clock_put clock actor seq =
    (if clock_entry clock actor = seq then clock else Clock (put_root (root clock) actor seq))"

definition clock_advance :: "actor_clock \<Rightarrow> actor_id \<Rightarrow> u64 \<times> actor_clock" where
  "clock_advance clock actor =
    (let next_seq = saturating_add (clock_get clock actor) 1
     in (next_seq, clock_put clock actor (Some next_seq)))"

definition clock_observe :: "actor_clock \<Rightarrow> actor_id \<Rightarrow> u64 \<Rightarrow> actor_clock" where
  "clock_observe clock actor seq =
    (let current = clock_entry clock actor
     in clock_put clock actor (Some (max (case current of None \<Rightarrow> 0 | Some s \<Rightarrow> s) seq)))"

definition clock_set :: "actor_clock \<Rightarrow> actor_id \<Rightarrow> u64 \<Rightarrow> actor_clock" where
  "clock_set clock actor seq = clock_put clock actor (if seq \<noteq> 0 then Some seq else None)"

definition merge_root :: "node option \<Rightarrow> node option \<Rightarrow> node option" where
  "merge_root own theirs =
    (case (own, theirs) of
       (Some a, Some b) \<Rightarrow> Some (union_node (=) a b)
     | (Some a, None) \<Rightarrow> Some a
     | (None, b) \<Rightarrow> b)"

definition clock_merge :: "actor_clock \<Rightarrow> actor_clock \<Rightarrow> actor_clock" where
  "clock_merge clock other = Clock (merge_root (root clock) (root other))"

function drain :: "node list \<Rightarrow> (actor_id \<times> u64) list" where
  "drain stack = (case cursor_next stack of None \<Rightarrow> [] | Some (item, rest) \<Rightarrow> item # drain rest)"
  by pat_completeness auto
termination
  by (relation "measure (size_list size)") (auto dest: cursor_next_size)

definition clock_cursor :: "actor_clock \<Rightarrow> node list" where
  "clock_cursor clock = opt_list (root clock)"

definition clock_iter :: "actor_clock \<Rightarrow> (actor_id \<times> u64) list" where
  "clock_iter clock = drain (clock_cursor clock)"

definition clock_len :: "actor_clock \<Rightarrow> nat" where
  "clock_len clock = (case root clock of None \<Rightarrow> 0 | Some node \<Rightarrow> nlen node)"

definition clock_is_empty :: "actor_clock \<Rightarrow> bool" where
  "clock_is_empty clock = (root clock = None)"

definition clock_intersect :: "actor_clock \<Rightarrow> actor_clock \<Rightarrow> actor_clock" where
  "clock_intersect clock other =
    (let (small, large) = (if clock_len clock \<le> clock_len other then (clock, other) else (other, clock))
     in fold (\<lambda>(actor, counter) acc.
          case clock_entry large actor of
            Some held \<Rightarrow> clock_put acc actor (Some (min counter held))
          | None \<Rightarrow> acc) (clock_iter small) clock_new)"

definition clock_dominates :: "actor_clock \<Rightarrow> actor_clock \<Rightarrow> bool" where
  "clock_dominates clock other \<longleftrightarrow>
    (case (root clock, root other) of (Some own, Some theirs) \<Rightarrow> own = theirs | _ \<Rightarrow> False) \<or>
    list_all (\<lambda>(actor, counter). clock_get clock actor \<ge> counter) (clock_iter other)"

definition clock_selected :: "actor_clock \<Rightarrow> actor_id btree_set \<Rightarrow> actor_clock" where
  "clock_selected clock actors =
    (if fcard actors * 2 \<ge> clock_len clock
     then Clock (Option.bind (root clock) (\<lambda>node. selected_node (=) node actors))
     else fold (\<lambda>actor acc.
       case clock_entry clock actor of
         Some seq \<Rightarrow> clock_put acc actor (Some seq)
       | None \<Rightarrow> acc) (iter_set actors) clock_new)"

definition clock_eq :: "actor_clock \<Rightarrow> actor_clock \<Rightarrow> bool" where
  "clock_eq clock other \<longleftrightarrow>
    (case (root clock, root other) of (Some own, Some theirs) \<Rightarrow> own = theirs | _ \<Rightarrow> False) \<or>
    clock_len clock = clock_len other \<and> clock_iter clock = clock_iter other"

text \<open>The wire form is the entry count and the entries; decoding goes through a \<open>BTreeMap\<close>.\<close>

definition clock_serialize :: "actor_clock \<Rightarrow> nat \<times> (actor_id \<times> u64) list" where
  "clock_serialize clock = (clock_len clock, clock_iter clock)"

definition clock_deserialize :: "(actor_id \<times> u64) list \<Rightarrow> actor_clock" where
  "clock_deserialize wire =
    (let entries = fold (\<lambda>(actor, seq) m. fmupd actor seq m) wire fmempty
     in fold (\<lambda>(actor, seq) clock. clock_put clock actor (Some seq)) (iter_map entries) clock_new)"

section \<open>The invariant in the type\<close>

lemma wf_root_root [simp]: "wf_root (root c)"
  using root by auto

lemma wf_rootD: "root c = Some n \<Longrightarrow> wf_node n"
  using wf_root_root[of c] by (simp add: wf_root_def)

lemma root_new [simp, code abstract]: "root clock_new = None"
  by (simp add: clock_new_def Clock_inverse wf_root_def)

lemma put_root_wf: "wf_root r \<Longrightarrow> wf_root (put_root r actor seq)"
  using set_node_correct[of _ actor seq]
  by (fastforce simp: put_root_def wf_root_def set_result_def split: option.splits)

lemma root_put [code abstract]:
  "root (clock_put c actor seq) = (if clock_entry c actor = seq then root c else put_root (root c) actor seq)"
  by (simp add: clock_put_def Clock_inverse put_root_wf)

lemma union_eq_correct: "wf_node a \<Longrightarrow> wf_node b \<Longrightarrow> union_result a b (union_node (=) a b)"
  by (rule union_node_correct)

lemma root_merge [code abstract]: "root (clock_merge a b) = merge_root (root a) (root b)"
proof -
  have "wf_root (merge_root (root a) (root b))"
    using wf_rootD[of a] wf_rootD[of b] union_eq_correct
    by (auto simp: merge_root_def wf_root_def union_result_def split: option.splits)
  then show ?thesis by (simp add: clock_merge_def Clock_inverse)
qed

lemma selected_root_wf: "wf_root (Option.bind (root c) (\<lambda>node. selected_node (=) node A))"
  using wf_rootD[of c] selected_node_correct[of "(=)"]
  by (cases "root c") (fastforce simp: wf_root_def selected_result_def split: option.splits)+

definition select_root :: "actor_clock \<Rightarrow> actor_id btree_set \<Rightarrow> actor_clock" where
  "select_root c A = Clock (Option.bind (root c) (\<lambda>node. selected_node (=) node A))"

lemma root_select_root [code abstract]:
  "root (select_root c A) = Option.bind (root c) (\<lambda>node. selected_node (=) node A)"
  by (simp add: select_root_def Clock_inverse selected_root_wf)

lemma selected_code [code]:
  "clock_selected clock actors =
    (if fcard actors * 2 \<ge> clock_len clock then select_root clock actors
     else fold (\<lambda>actor acc.
       case clock_entry clock actor of
         Some seq \<Rightarrow> clock_put acc actor (Some seq)
       | None \<Rightarrow> acc) (iter_set actors) clock_new)"
  by (simp add: clock_selected_def select_root_def)

section \<open>Entries after each operation\<close>

lemma entry_new [simp, clock_simps]: "clock_entry clock_new x = None"
  by (simp add: clock_entry_def)

lemma entry_put [simp, clock_simps]: "clock_entry (clock_put c a s) x = (if x = a then s else clock_entry c x)"
proof (cases "root c")
  case None
  then show ?thesis by (cases s) (auto simp: clock_entry_def root_put put_root_def)
next
  case (Some n)
  with set_node_correct[OF wf_rootD[OF Some], of a s] show ?thesis
    by (auto simp: clock_entry_def root_put put_root_def set_result_def split: option.splits)
qed

lemma entry_observe [simp, clock_simps]:
  "clock_entry (clock_observe c a s) x = (if x = a then join_seq (clock_entry c x) (Some s) else clock_entry c x)"
  by (auto simp: clock_observe_def Let_def split: option.splits)

lemma entry_set_seq [simp, clock_simps]:
  "clock_entry (clock_set c a s) x = (if x = a then (if s \<noteq> 0 then Some s else None) else clock_entry c x)"
  by (simp add: clock_set_def)

lemma entry_merge [simp, clock_simps]: "clock_entry (clock_merge a b) x = join_seq (clock_entry a x) (clock_entry b x)"
  using wf_rootD[of a] wf_rootD[of b] union_eq_correct
  by (fastforce simp: clock_entry_def root_merge merge_root_def union_result_def split: option.splits)

lemma get_entry: "clock_entry c x = Some s \<Longrightarrow> clock_get c x = s" "clock_entry c x = None \<Longrightarrow> clock_get c x = 0"
  by (simp_all add: clock_get_def)

lemma get_merge [simp, clock_simps]: "clock_get (clock_merge a b) x = max (clock_get a x) (clock_get b x)"
  by (auto simp: clock_get_def max_def split: option.splits)

lemma get_observe [simp, clock_simps]: "clock_get (clock_observe c a s) x = (if x = a then max (clock_get c x) s else clock_get c x)"
  by (auto simp: clock_get_def max_def split: option.splits)

lemma get_new [simp, clock_simps]: "clock_get clock_new x = 0"
  by (simp add: clock_get_def)

lemma get_put [simp, clock_simps]: "clock_get (clock_put c a (Some s)) x = (if x = a then s else clock_get c x)"
  by (simp add: clock_get_def)

lemma get_set_seq [simp, clock_simps]: "clock_get (clock_set c a s) x = (if x = a then s else clock_get c x)"
  by (simp add: clock_get_def)

definition clock_entries :: "actor_clock \<Rightarrow> (actor_id \<times> u64) list" where
  "clock_entries c = (case root c of None \<Rightarrow> [] | Some n \<Rightarrow> node_entries n)"

declare drain.simps [simp del]

lemma drain_entries: "\<forall>n\<in>set stack. wf_node n \<Longrightarrow> drain stack = concat (map node_entries stack)"
proof (induction stack rule: drain.induct)
  case (1 stack)
  show ?case
    using cursor_next_entries[OF "1.prems"] "1.IH"
    by (subst drain.simps) (auto split: option.splits)
qed

lemma iter_entries: "clock_iter c = clock_entries c"
  using wf_rootD[of c] drain_entries[of "opt_list (root c)"]
  by (cases "root c") (auto simp: clock_iter_def clock_cursor_def clock_entries_def)

lemma entry_map_of: "clock_entry c x = map_of (clock_iter c) x"
  using wf_rootD[of c] by (auto simp: clock_entry_def iter_entries clock_entries_def lookup_map_of split: option.splits)

lemma sorted_iter: "sorted_wrt (<) (map fst (clock_iter c))"
  using wf_rootD[of c] by (auto simp: iter_entries clock_entries_def sorted_entries split: option.splits)

lemma distinct_iter: "distinct (map fst (clock_iter c))"
  using sorted_iter strict_sorted_iff by blast

lemma iter_iff: "(x, s) \<in> set (clock_iter c) \<longleftrightarrow> clock_entry c x = Some s"
  by (simp add: entry_map_of distinct_iter)

lemma clock_len_iter: "clock_len c = length (clock_iter c)"
  using wf_rootD[of c]
  by (auto simp: clock_len_def iter_entries clock_entries_def nlen_entries split: option.splits)

section \<open>Clocks built from an iteration\<close>

lemma entry_fold_put:
  assumes "distinct (map fst xs)"
  shows "clock_entry (fold (\<lambda>(actor, counter) acc. case f actor counter of
        Some v \<Rightarrow> clock_put acc actor (Some v) | None \<Rightarrow> acc) xs acc) x =
    (case map_of xs x of
       None \<Rightarrow> clock_entry acc x
     | Some counter \<Rightarrow> (case f x counter of None \<Rightarrow> clock_entry acc x | Some v \<Rightarrow> Some v))"
  using assms
proof (induction xs arbitrary: acc)
  case (Cons p xs)
  obtain a s where p: "p = (a, s)" by (cases p)
  then have "map_of xs a = None" using Cons.prems by (simp add: map_of_eq_None_iff)
  then show ?case using Cons p by (cases "f a s") (auto split: option.split)
qed simp

lemma entry_intersect [simp, clock_simps]:
  "clock_entry (clock_intersect a b) x =
    (case (clock_entry a x, clock_entry b x) of
       (Some s, Some t) \<Rightarrow> Some (min s t) | _ \<Rightarrow> None)"
proof -
  have "clock_entry (fold (\<lambda>(actor, counter) acc.
        case clock_entry large actor of
          Some held \<Rightarrow> clock_put acc actor (Some (min counter held))
        | None \<Rightarrow> acc) (clock_iter small) clock_new) x =
      (case (clock_entry small x, clock_entry large x) of
         (Some s, Some t) \<Rightarrow> Some (min s t) | _ \<Rightarrow> None)" for small large
  proof -
    have *: "(\<lambda>(actor, counter) acc.
        case clock_entry large actor of
          Some held \<Rightarrow> clock_put acc actor (Some (min counter held))
        | None \<Rightarrow> acc) = (\<lambda>(actor, counter) acc.
        case map_option (min counter) (clock_entry large actor) of
          Some v \<Rightarrow> clock_put acc actor (Some v) | None \<Rightarrow> acc)"
      by (auto simp: fun_eq_iff split: option.splits)
    show ?thesis
      unfolding * entry_fold_put[OF distinct_iter]
      by (auto simp: entry_map_of[of small] split: option.splits)
  qed
  then show ?thesis
    by (auto simp: clock_intersect_def Let_def min.commute split: option.splits)
qed

lemma entry_selected [simp, clock_simps]:
  "clock_entry (clock_selected c A) x = (if x |\<in>| A then clock_entry c x else None)"
proof (cases "fcard A * 2 \<ge> clock_len c")
  case True
  show ?thesis
  proof (cases "root c")
    case None
    then show ?thesis using True by (simp add: selected_code clock_entry_def root_select_root)
  next
    case (Some n)
    note wf = wf_rootD[OF Some]
    have r: "selected_result n A (selected_node (=) n A)"
      by (rule selected_node_correct) (use wf in auto)
    then have "(case selected_node (=) n A of None \<Rightarrow> None | Some n' \<Rightarrow> node_lookup n' x) =
        (if x |\<in>| A then node_lookup n x else None)"
    proof (cases "selected_node (=) n A")
      case None
      then have "x |\<in>| A \<Longrightarrow> node_lookup n x \<noteq> Some s" for s
        using r lookup_iff_entries[OF wf, of x s] by (force simp: selected_result_def)
      then show ?thesis using None by (cases "node_lookup n x") auto
    next
      case (Some n')
      then have n': "wf_node n'" "set (node_entries n') = {e \<in> set (node_entries n). fst e |\<in>| A}"
        using r by (simp_all add: selected_result_def)
      then have "node_lookup n' x = Some s \<longleftrightarrow> x |\<in>| A \<and> node_lookup n x = Some s" for s
        by (auto simp: lookup_iff_entries wf)
      then show ?thesis
        using Some by (cases "node_lookup n x"; cases "node_lookup n' x") auto
    qed
    then show ?thesis using True Some
      by (simp add: selected_code clock_entry_def root_select_root)
  qed
next
  case False
  have "clock_entry (fold (\<lambda>actor acc. case clock_entry c actor of
        Some seq \<Rightarrow> clock_put acc actor (Some seq) | None \<Rightarrow> acc) xs acc) x =
      (if x \<in> set xs then (case clock_entry c x of None \<Rightarrow> clock_entry acc x | Some s \<Rightarrow> Some s)
       else clock_entry acc x)" for xs acc
    by (induction xs arbitrary: acc) (auto split: option.splits)
  then show ?thesis
    using False by (auto simp: clock_selected_def split: option.splits)
qed

section \<open>Comparison and the wire form\<close>

lemma dominates_iff: "clock_dominates a b \<longleftrightarrow> (\<forall>x. clock_get b x \<le> clock_get a x)"
proof -
  have all: "list_all (\<lambda>(actor, counter). clock_get a actor \<ge> counter) (clock_iter b) \<longleftrightarrow>
      (\<forall>x s. clock_entry b x = Some s \<longrightarrow> s \<le> clock_get a x)"
    by (force simp: list_all_iff iter_iff)
  also have "\<dots> \<longleftrightarrow> (\<forall>x. clock_get b x \<le> clock_get a x)"
    by (auto simp: clock_get_def[of b] split: option.splits)
  finally show ?thesis
    by (auto simp: clock_dominates_def root_inject clock_get_def clock_entry_def split: option.splits)
qed

lemma clock_eq_iff: "clock_eq a b \<longleftrightarrow> clock_entry a = clock_entry b"
proof
  assume "clock_eq a b"
  then have "root a = root b \<or> clock_iter a = clock_iter b"
    by (auto simp: clock_eq_def split: option.splits)
  then show "clock_entry a = clock_entry b"
    by (auto simp: fun_eq_iff entry_map_of root_inject)
next
  assume eq: "clock_entry a = clock_entry b"
  then have "set (clock_iter a) = set (clock_iter b)"
    using iter_iff by (metis set_eqI surj_pair)
  moreover have "sorted_wrt (\<lambda>x y. fst x < fst y) (clock_iter c)" for c
    using sorted_iter[of c] by (simp add: sorted_wrt_map)
  ultimately have "clock_iter a = clock_iter b"
  proof (intro map_sorted_distinct_set_unique[of fst])
    show "inj_on fst (set (clock_iter a) \<union> set (clock_iter b))"
      using eq by (auto simp: inj_on_def iter_iff)
  qed (use sorted_iter distinct_iter strict_sorted_iff in blast)+
  then show "clock_eq a b" by (simp add: clock_eq_def clock_len_iter)
qed

lemma entry_deserialize:
  "clock_entry (clock_deserialize es) x = map_of (rev es) x"
proof -
  have f: "fmlookup (fold (\<lambda>(a, s) m. fmupd a s m) es m) x =
      (case map_of (rev es) x of None \<Rightarrow> fmlookup m x | Some s \<Rightarrow> Some s)" for m
    by (induction es arbitrary: m) (auto simp: map_add_def split: option.splits)
  have "(\<lambda>(a, s) acc. clock_put acc a (Some s)) = (\<lambda>(actor, counter) acc.
      case Some counter of Some v \<Rightarrow> clock_put acc actor (Some v) | None \<Rightarrow> acc)"
    by (auto simp: fun_eq_iff)
  then show ?thesis
    using entry_fold_put[of "iter_map (fold (\<lambda>(a, s) m. fmupd a s m) es fmempty)" "\<lambda>_ s. Some s" clock_new x]
    by (simp add: clock_deserialize_def Let_def f split: option.splits)
qed

section \<open>The contract clients rely on\<close>

text \<open>
  What the op log, the storage and the sync code use of a clock: positions per actor that only
  observation and join change. The laws determine joins over whole collections of clocks.
\<close>

locale positions =
  fixes pos :: "'c \<Rightarrow> 'a \<Rightarrow> u64 option"
    and empty :: 'c
    and obs :: "'c \<Rightarrow> 'a \<Rightarrow> u64 \<Rightarrow> 'c"
    and join :: "'c \<Rightarrow> 'c \<Rightarrow> 'c"
  assumes pos_empty: "pos empty x = None"
    and pos_obs: "pos (obs c a s) x = (if x = a then join_seq (pos c x) (Some s) else pos c x)"
    and pos_join: "pos (join c d) x = join_seq (pos c x) (pos d x)"
begin

lemma join_assoc: "pos (join (join b c) d) = pos (join b (join c d))"
  by (rule ext) (auto simp: pos_join combine_options_def max.assoc split: option.splits)

lemma join_commute: "pos (join c d) = pos (join d c)"
  by (rule ext) (simp add: pos_join join_seq_commute)

lemma join_idem: "pos (join c c) = pos c"
  by (rule ext) (simp add: pos_join)

lemma obs_join: "pos (join (obs c a s) d) = pos (obs (join c d) a s)"
  by (rule ext) (auto simp: pos_join pos_obs combine_options_def max.assoc max.commute max.left_commute split: option.splits)

lemma obs_commute: "pos (obs (obs c a s) b t) = pos (obs (obs c b t) a s)"
  by (rule ext) (auto simp: pos_obs combine_options_def max.assoc max.commute max.left_commute split: option.splits)

lemma fold_join_upper:
  "c \<in> insert z (set cs) \<Longrightarrow> pos c x = Some s \<Longrightarrow> \<exists>t. pos (fold (\<lambda>d acc. join acc d) cs z) x = Some t \<and> s \<le> t"
proof (induction cs arbitrary: z c s)
  case (Cons d cs)
  show ?case
  proof (cases "c \<in> set cs")
    case True
    then show ?thesis using Cons.IH[of c "join z d" s] Cons.prems by simp
  next
    case False
    then have "\<exists>t. pos (join z d) x = Some t \<and> s \<le> t"
      using Cons.prems by (auto simp: pos_join combine_options_def split: option.splits)
    then obtain t where t: "pos (join z d) x = Some t" "s \<le> t" by blast
    then show ?thesis using Cons.IH[of "join z d" "join z d" t] order_trans by fastforce
  qed
qed auto

lemma fold_join_exact:
  "pos (fold (\<lambda>d acc. join acc d) cs z) x = Some t \<Longrightarrow> \<exists>c \<in> insert z (set cs). pos c x = Some t"
proof (induction cs arbitrary: z)
  case (Cons d cs)
  then have "\<exists>c \<in> insert (join z d) (set cs). pos c x = Some t" by simp
  then show ?case
    by (auto simp: pos_join combine_options_def max_def split: option.splits if_splits)
qed auto

lemma fold_obs_upper:
  "(x, s) \<in> set es \<Longrightarrow> \<exists>t. pos (fold (\<lambda>(a, n) acc. obs acc a n) es z) x = Some t \<and> s \<le> t"
proof -
  have mono: "pos z x = Some s \<Longrightarrow> \<exists>t. pos (fold (\<lambda>(a, n) acc. obs acc a n) es z) x = Some t \<and> s \<le> t" for es z s
  proof (induction es arbitrary: z s)
    case (Cons p es)
    obtain a n where p: "p = (a, n)" by (cases p)
    have "\<exists>t. pos (obs z a n) x = Some t \<and> s \<le> t" using Cons.prems by (auto simp: pos_obs)
    then obtain t where "pos (obs z a n) x = Some t" "s \<le> t" by blast
    then show ?case using Cons.IH[of "obs z a n" t] order_trans by (fastforce simp: p)
  qed auto
  assume "(x, s) \<in> set es"
  then show ?thesis
  proof (induction es arbitrary: z)
    case (Cons p es)
    show ?case
    proof (cases "(x, s) \<in> set es")
      case False
      then have "p = (x, s)" using Cons.prems by simp
      moreover have "\<exists>t. pos (obs z x s) x = Some t \<and> s \<le> t"
        by (cases "pos z x") (auto simp: pos_obs)
      then obtain t where "pos (obs z x s) x = Some t" "s \<le> t" by blast
      ultimately show ?thesis using mono[of "obs z x s" t es] order_trans by fastforce
    qed (use Cons.IH in auto)
  qed auto
qed

end

interpretation ac: positions clock_entry clock_new clock_observe clock_merge
  by unfold_locales simp_all

section \<open>Properties\<close>


definition sample_trie :: node where
  "sample_trie = the (root (clock_observe (clock_observe clock_new (ident 1) 3) (ident 18) 5))"

definition sample_trie2 :: node where
  "sample_trie2 = the (root (clock_observe (clock_observe clock_new (ident 2) 7) (ident 18) 4))"



text \<open>
  C20: iteration, which drains the cursor's stack, visits every entry once in ascending id order, and
  the cached entry count is the number of entries.
\<close>

theorem iter_is_sorted_entries:
  "sorted_wrt (<) (map fst (clock_iter c)) \<and> map_of (clock_iter c) = clock_entry c \<and>
   clock_len c = length (clock_iter c) \<and> clock_len c = card (dom (clock_entry c))"
proof -
  have m: "map_of (clock_iter c) = clock_entry c" by (rule ext) (simp add: entry_map_of)
  have "card (dom (map_of (clock_iter c))) = length (clock_iter c)"
    using distinct_card[OF distinct_iter[of c]] by (simp add: dom_map_of_conv_image_fst)
  then show ?thesis using sorted_iter[of c] m by (simp add: clock_len_iter)
qed

text \<open>
  C21: \<open>dominates\<close> is the pointwise order of positions with absent actors at zero, and \<open>merge\<close> is
  the least clock above both arguments in it.
\<close>

theorem merge_is_least_upper_bound:
  "(clock_dominates c d \<longleftrightarrow> (\<forall>x. clock_get d x \<le> clock_get c x)) \<and>
   clock_dominates (clock_merge c d) c \<and> clock_dominates (clock_merge c d) d \<and>
   (clock_dominates e (clock_merge c d) \<longleftrightarrow> clock_dominates e c \<and> clock_dominates e d)"
  by (auto simp: dominates_iff)

text \<open>
  C22: decoding an encoded clock gives a clock with the same entries, zero positions included, and
  two clocks compare equal exactly when their entries agree.
\<close>

theorem serialize_roundtrip:
  "clock_eq (clock_deserialize (snd (clock_serialize c))) c \<and> fst (clock_serialize c) = length (snd (clock_serialize c)) \<and>
   (clock_eq c d \<longleftrightarrow> clock_entry c = clock_entry d)"
proof -
  have "map_of (rev (clock_iter c)) = map_of (clock_iter c)"
    by (rule map_of_inject_set[THEN iffD2]) (use distinct_iter[of c] in \<open>auto simp: rev_map[symmetric]\<close>)
  then have "clock_entry (clock_deserialize (clock_iter c)) = clock_entry c"
    by (auto simp: entry_deserialize entry_map_of[of c])
  then show ?thesis by (simp add: clock_eq_iff clock_serialize_def clock_len_iter)
qed

end
