(* ===== verification/Ops.thy ===== *)
theory Ops
  imports Clock "HOL-Library.Product_Lexorder"
begin

text \<open>
  Operations, topics and events (\<open>op.rs\<close>, \<open>topic.rs\<close>, \<open>event.rs\<close>, \<open>crypto.rs\<close>), the outcome
  records of the op log that errors carry (\<open>oplog/mod.rs\<close>, \<open>sync/types.rs\<close>), and the crate's error
  type (\<open>error.rs\<close>). Postcard, blake3 and ed25519 are the fields of \<open>externals\<close> and of a \<open>signer\<close>.
\<close>

section \<open>Topics and events\<close>

definition DEFAULT_MAX_SYNC_PEERS :: nat where
  "DEFAULT_MAX_SYNC_PEERS = 8"

record replication_policy =
  selected_peers :: "peer_id btree_set"
  max_sync_peers :: nat

definition policy_all :: replication_policy where
  "policy_all = \<lparr>selected_peers = {||}, max_sync_peers = DEFAULT_MAX_SYNC_PEERS\<rparr>"

definition policy_selected :: "peer_id list \<Rightarrow> replication_policy" where
  "policy_selected peers = \<lparr>selected_peers = fset_of_list peers, max_sync_peers = DEFAULT_MAX_SYNC_PEERS\<rparr>"

definition with_max_sync_peers :: "replication_policy \<Rightarrow> nat \<Rightarrow> replication_policy" where
  "with_max_sync_peers p n = p\<lparr>max_sync_peers := n\<rparr>"

record topic_genesis =
  g_event_type_id :: string
  g_initial_peers :: "peer_id btree_set"
  g_replication_policy :: replication_policy

record event_envelope =
  ev_type_id :: string
  ev_payload :: "u8 list"

datatype topic_control =
    AddPeer peer_id
  | RemovePeer peer_id
  | SetReplicationPolicy replication_policy

datatype topic_payload =
    Genesis topic_genesis
  | Event event_envelope
  | Control topic_control

section \<open>Operations\<close>

record op_body =
  b_topic_id :: topic_id
  b_author :: peer_id
  b_actor_id :: actor_id
  b_actor_seq :: u64
  b_actor_prev :: "op_id option"
  b_deps :: "op_id btree_set"
  b_generation :: u64
  b_payload :: topic_payload

type_synonym signature = "u8 list"

record signed_op =
  s_body :: op_body
  s_signature :: signature

record operation =
  o_id :: op_id
  o_signed :: signed_op

abbreviation body :: "operation \<Rightarrow> op_body" where
  "body op \<equiv> s_body (o_signed op)"

section \<open>Outcomes and errors\<close>

record evicted_op =
  e_op_id :: op_id
  e_actor_id :: actor_id
  e_author :: peer_id
  e_actor_seq :: u64
  e_payload :: topic_payload

record topic_eviction =
  v_topic_id :: topic_id
  v_losing_genesis :: op_id
  v_winning_genesis :: op_id
  v_evicted :: "evicted_op list"

record admitted =
  a_accepted :: "op_id btree_set"
  a_evictions :: "topic_eviction list"
  a_ready_remaining :: bool

record sync_ack =
  k_topic_id :: topic_id
  k_peer_id :: peer_id
  k_genesis :: "op_id option"
  k_accepted :: "op_id btree_set"
  k_heads :: "op_id btree_set"
  k_clock :: actor_clock
  k_signature :: "signature option"

datatype memory_domain = 
    MdOperations | MdMetadata | MdSharedNodes | MdWorkspace | MdActivation | MdRecovery | MdControl

datatype (plugins only: code size) error =
    Encode
  | InvalidSignature
  | MissingSignature
  | AdmissionConflict
  | MemoryPressure memory_domain u64 u64
  | InvalidPublicKey
  | InvalidOpId
  | GenerationMismatch u64 u64
  | WrongSigner
  | EventTypeMismatch string string
  | TopicNotFound
  | TopicFull
  | NotTopicMember
  | PeerNotWhitelisted peer_id
  | InvalidSyncAck string
  | StaleIncarnation
  | ReplicationUnavailable
  | OpTooLarge
  | AdmissionCommitted admitted error
  | ReceiveCommitted sync_ack "topic_eviction list" error
  | ActorSeqGap u64 u64
  | ActorPrevMismatch
  | ActorFork
  | ActorAuthorMismatch
  | TopicMismatch
  | MissingDependency op_id
  | InvalidGenesis
  | Decode string
  | Storage string
  | Shared error
  | StoragePressure string
  | StorageBuffer u64 u64
  | StorageProbe
  | SyncCapacity string
  | RejectedOp op_id
  | BootstrapPending actor_clock
  | StagingCapacity string
  | EvictionJournalFull
  | TopicSealed
  | Fjall
  | ReopenRequired

type_synonym 'a result = "error + 'a"

fun cause :: "error \<Rightarrow> error" where
  "cause (Shared source) = cause source"
| "cause e = e"

lemma cause_not_Shared: "cause e \<noteq> Shared s"
  by (induction e rule: cause.induct) auto

section \<open>Parameters\<close>

text \<open>
  What the code takes from third-party crates. An encoder answers \<open>None\<close> where postcard reports an
  error; \<open>x_key_valid\<close> is the success of \<open>VerifyingKey::from_bytes\<close>.
\<close>

record externals =
  x_blake3 :: "u8 list \<Rightarrow> id32"
  x_body_bytes :: "op_body \<Rightarrow> u8 list option"
  x_signed_bytes :: "signed_op \<Rightarrow> u8 list option"
  x_op_size :: "operation \<Rightarrow> nat option"
  x_data_overhead :: "topic_id \<Rightarrow> nat option"
  x_key_valid :: "peer_id \<Rightarrow> bool"
  x_key_weak :: "peer_id \<Rightarrow> bool"
  x_verify_strict :: "peer_id \<Rightarrow> u8 list \<Rightarrow> signature \<Rightarrow> bool"

record signer =
  sg_peer_id :: peer_id
  sg_sign :: "u8 list \<Rightarrow> error + signature"

section \<open>Signing and validation\<close>

definition bytes_of_string :: "string \<Rightarrow> u8 list" where
  "bytes_of_string s = map (\<lambda>c. word_of_nat (of_char c)) s"

definition OP_SIGNING_DOMAIN :: "u8 list" where
  "OP_SIGNING_DOMAIN = bytes_of_string ''irokle/op/v1'' @ [0]"

definition crypto_verify :: "externals \<Rightarrow> peer_id \<Rightarrow> u8 list \<Rightarrow> signature \<Rightarrow> unit result" where
  "crypto_verify x peer message signature =
    (if \<not> x_key_valid x peer then Err InvalidPublicKey
     else if x_key_weak x peer then Err InvalidPublicKey
     else if x_verify_strict x peer message signature then Ok ()
     else Err InvalidSignature)"

definition op_signing_message :: "externals \<Rightarrow> op_body \<Rightarrow> u8 list result" where
  "op_signing_message x b =
    rbind (ok_or (x_body_bytes x b) Encode) (\<lambda>body_bytes. Ok (OP_SIGNING_DOMAIN @ body_bytes))"

definition signed_op_sign :: "externals \<Rightarrow> op_body \<Rightarrow> signer \<Rightarrow> signed_op result" where
  "signed_op_sign x b sg =
    (if b_author b \<noteq> sg_peer_id sg then Err WrongSigner
     else rbind (op_signing_message x b) (\<lambda>msg.
          rbind (sg_sign sg msg) (\<lambda>signature. Ok \<lparr>s_body = b, s_signature = signature\<rparr>)))"

definition signed_op_verify :: "externals \<Rightarrow> signed_op \<Rightarrow> unit result" where
  "signed_op_verify x s =
    rbind (op_signing_message x (s_body s)) (\<lambda>msg. crypto_verify x (b_author (s_body s)) msg (s_signature s))"

definition derive_id :: "externals \<Rightarrow> signed_op \<Rightarrow> op_id result" where
  "derive_id x s = rbind (ok_or (x_signed_bytes x s) Encode) (\<lambda>bytes. Ok (id_hash (x_blake3 x) bytes))"

definition op_new :: "externals \<Rightarrow> signed_op \<Rightarrow> operation result" where
  "op_new x s = rbind (derive_id x s) (\<lambda>i. Ok \<lparr>o_id = i, o_signed = s\<rparr>)"

definition op_sign :: "externals \<Rightarrow> op_body \<Rightarrow> signer \<Rightarrow> operation result" where
  "op_sign x b sg = rbind (signed_op_sign x b sg) (op_new x)"

definition op_validate :: "externals \<Rightarrow> operation \<Rightarrow> unit result" where
  "op_validate x op =
    rbind (derive_id x (o_signed op)) (\<lambda>i.
      if o_id op \<noteq> i then Err InvalidOpId else signed_op_verify x (o_signed op))"

definition MAX_FRAME_LEN :: nat where
  "MAX_FRAME_LEN = 16 * 1024 * 1024"

text \<open>\<open>Op::validate_frame\<close>, which is \<open>net::validate_op\<close>.\<close>

definition validate_frame :: "externals \<Rightarrow> operation \<Rightarrow> unit result" where
  "validate_frame x op =
    rbind (ok_or (x_data_overhead x (b_topic_id (body op))) Encode) (\<lambda>overhead.
    rbind (ok_or (x_op_size x op) Encode) (\<lambda>size.
      if overhead + size > MAX_FRAME_LEN then Err OpTooLarge else Ok ()))"

section \<open>Events\<close>

text \<open>An \<open>Event\<close> implementation: its type id and its codec.\<close>

record 'e event_impl =
  TYPE_ID :: string
  event_encode :: "'e \<Rightarrow> error + u8 list"
  event_decode :: "u8 list \<Rightarrow> error + 'e"

definition envelope_new :: "('e, 'x) event_impl_scheme \<Rightarrow> u8 list \<Rightarrow> event_envelope" where
  "envelope_new E payload = \<lparr>ev_type_id = TYPE_ID E, ev_payload = payload\<rparr>"

definition encode_event :: "('e, 'x) event_impl_scheme \<Rightarrow> 'e \<Rightarrow> event_envelope result" where
  "encode_event E event = rbind (event_encode E event) (\<lambda>payload. Ok (envelope_new E payload))"

definition decode_event :: "('e, 'x) event_impl_scheme \<Rightarrow> event_envelope \<Rightarrow> 'e result" where
  "decode_event E env =
    (if ev_type_id env \<noteq> TYPE_ID E then Err (EventTypeMismatch (TYPE_ID E) (ev_type_id env))
     else event_decode E (ev_payload env))"

section \<open>Properties\<close>

lemma op_sign_OkD:
  assumes "op_sign x b sg = Ok op"
  shows "body op = b" "b_author b = sg_peer_id sg" "derive_id x (o_signed op) = Ok (o_id op)"
    "\<exists>msg. op_signing_message x b = Ok msg \<and> sg_sign sg msg = Ok (s_signature (o_signed op))"
  using assms by (auto simp: op_sign_def signed_op_sign_def op_new_def result_simps split: if_splits)

text \<open>
  C35: an operation a signer produced validates, provided the signer's signatures verify under its
  own peer id, which must be a usable, not weak key; the operation carries the body that was signed
  and is authored by the signer.
\<close>

theorem op_sign_validates:
  assumes "\<And>msg sig. sg_sign sg msg = Ok sig \<Longrightarrow> x_verify_strict x (sg_peer_id sg) msg sig"
    and "x_key_valid x (sg_peer_id sg)" and "\<not> x_key_weak x (sg_peer_id sg)"
    and "op_sign x b sg = Ok op"
  shows "op_validate x op = Ok () \<and> body op = b \<and> b_author b = sg_peer_id sg"
proof -
  note d = op_sign_OkD[OF assms(4)]
  obtain msg where "op_signing_message x b = Ok msg" "sg_sign sg msg = Ok (s_signature (o_signed op))"
    using d(4) by blast
  then show ?thesis
    using d(1-3) assms(1-3) by (simp add: op_validate_def signed_op_verify_def crypto_verify_def)
qed

text \<open>Externals, a signer and bodies for concrete instances.\<close>

definition sample_ext :: externals where
  "sample_ext = \<lparr>x_blake3 = (\<lambda>bytes. ident (if length bytes \<le> 2 then last (0 # bytes) else 9)),
     x_body_bytes = (\<lambda>b. Some [ucast (b_generation b), ucast (b_actor_seq b)]),
     x_signed_bytes = (\<lambda>s. Some [ucast (b_generation (s_body s)), ucast (b_actor_seq (s_body s))]),
     x_op_size = (\<lambda>_. Some 100), x_data_overhead = (\<lambda>_. Some 40),
     x_key_valid = (\<lambda>_. True), x_key_weak = (\<lambda>_. False),
     x_verify_strict = (\<lambda>p m s. s = [1])\<rparr>"

definition sample_signer :: signer where
  "sample_signer = \<lparr>sg_peer_id = ident 7, sg_sign = (\<lambda>_. Ok [1])\<rparr>"

definition sample_genesis_payload :: topic_payload where
  "sample_genesis_payload = Genesis \<lparr>g_event_type_id = ''e'', g_initial_peers = {|ident 7, ident 8|},
     g_replication_policy = policy_all\<rparr>"

definition sample_body :: "u64 \<Rightarrow> op_id option \<Rightarrow> op_id btree_set \<Rightarrow> u64 \<Rightarrow> topic_payload \<Rightarrow> op_body" where
  "sample_body seq prev deps gen payload =
    \<lparr>b_topic_id = ident 100, b_author = ident 7, b_actor_id = ident 9, b_actor_seq = seq,
     b_actor_prev = prev, b_deps = deps, b_generation = gen, b_payload = payload\<rparr>"

definition sample_op :: "op_id \<Rightarrow> u64 \<Rightarrow> op_id option \<Rightarrow> op_id btree_set \<Rightarrow> u64 \<Rightarrow> topic_payload \<Rightarrow> operation" where
  "sample_op i seq prev deps gen payload =
    \<lparr>o_id = i, o_signed = \<lparr>s_body = sample_body seq prev deps gen payload, s_signature = [1]\<rparr>\<rparr>"

theorem op_sign_validates_witness:
  "op_validate sample_ext (sample_op (ident 1) 1 None {||} 0 sample_genesis_payload) = Ok ()"
proof -
  have "op_sign sample_ext (sample_body 1 None {||} 0 sample_genesis_payload) sample_signer =
      Ok (sample_op (ident 1) 1 None {||} 0 sample_genesis_payload)"
    by (simp add: op_sign_def signed_op_sign_def op_signing_message_def op_new_def derive_id_def id_hash_def
        ok_or_def sample_ext_def sample_signer_def sample_body_def sample_op_def)
  from op_sign_validates[OF _ _ _ this] show ?thesis
    by (simp add: sample_ext_def sample_signer_def)
qed

text \<open>
  C36: the id of a valid operation determines the operation, signature included: two valid
  operations with one id are the same, when encoding is injective and the digests of their two
  encodings do not collide.
\<close>

theorem op_id_binds_op:
  assumes "\<And>u v. x_signed_bytes x (o_signed a) = Some u \<Longrightarrow> x_signed_bytes x (o_signed b) = Some v \<Longrightarrow>
      x_blake3 x u = x_blake3 x v \<Longrightarrow> u = v"
    and "inj_on (x_signed_bytes x) {s. x_signed_bytes x s \<noteq> None}"
    and "op_validate x a = Ok ()" and "op_validate x b = Ok ()" and "o_id a = o_id b"
  shows "a = b"
proof -
  have "derive_id x (o_signed op) = Ok (o_id op)" if "op_validate x op = Ok ()" for op
    using that by (auto simp: op_validate_def result_simps split: if_splits)
  then have "derive_id x (o_signed a) = Ok (o_id a)" "derive_id x (o_signed b) = Ok (o_id a)"
    using assms(3-5) by (metis, metis)
  then obtain u v where uv: "x_signed_bytes x (o_signed a) = Some u" "x_signed_bytes x (o_signed b) = Some v"
    and "x_blake3 x u = x_blake3 x v"
    by (auto simp: derive_id_def id_hash_def result_simps)
  then have "x_signed_bytes x (o_signed a) = x_signed_bytes x (o_signed b)"
    using assms(1) by auto
  then have "o_signed a = o_signed b"
    by (rule inj_onD[OF assms(2)]) (use uv in auto)
  then show ?thesis using assms(5) by (cases a; cases b) simp
qed

theorem op_id_binds_op_witness:
  "\<exists>x a. op_validate x a = Ok () \<and> (\<forall>b. op_validate x b = Ok () \<and> o_id b = o_id a \<longrightarrow> b = a)"
proof -
  let ?a = "sample_op (ident 1) 1 None {||} 0 sample_genesis_payload"
  let ?x = "sample_ext\<lparr>x_signed_bytes := (\<lambda>s. if s = o_signed ?a then Some [1] else None)\<rparr>"
  have v: "op_validate ?x ?a = Ok ()"
    by (simp add: op_validate_def derive_id_def id_hash_def ok_or_def signed_op_verify_def crypto_verify_def
        op_signing_message_def sample_ext_def sample_op_def sample_body_def)
  have inj: "inj_on (x_signed_bytes ?x) {s. x_signed_bytes ?x s \<noteq> None}"
    by (auto simp: inj_on_def)
  have "b = ?a" if "op_validate ?x b = Ok ()" "o_id b = o_id ?a" for b
    by (rule op_id_binds_op[of ?x b ?a, OF _ inj that(1) v that(2)]) (auto split: if_splits)
  then show ?thesis using v by blast
qed


definition sample_event :: "string \<Rightarrow> u8 event_impl" where
  "sample_event t = \<lparr>TYPE_ID = t, event_encode = (\<lambda>b. Ok [b]), event_decode = (\<lambda>bs. Ok (hd bs))\<rparr>"


end
