(* ===== verification/Records.thy ===== *)
theory Records
  imports Ops
begin

text \<open>
  Stored records of \<open>storage/record.rs\<close>: operation metadata and its projections, control keys with
  their derived order, topic state, admitted batches with the checks a backend runs on them, and
  the accounting of buffered operations. Limits are the constants of \<open>storage/mod.rs\<close>.
\<close>

section \<open>Metadata\<close>

record op_meta =
  m_id :: op_id
  m_topic_id :: topic_id
  m_author :: peer_id
  m_actor_id :: actor_id
  m_actor_seq :: u64
  m_actor_prev :: "op_id option"
  m_deps :: "op_id btree_set"
  m_generation :: u64
  m_observed_clock :: actor_clock
  m_ready :: bool
  m_missing_deps :: "op_id btree_set"

record op_position =
  p_topic_id :: topic_id
  p_actor_id :: actor_id
  p_actor_seq :: u64
  p_actor_prev :: "op_id option"
  p_deps :: "op_id btree_set"
  p_generation :: u64

record op_header =
  h_topic_id :: topic_id
  h_actor_id :: actor_id
  h_actor_seq :: u64
  h_actor_prev :: "op_id option"
  h_generation :: u64

definition position_of_meta :: "op_meta \<Rightarrow> op_position" where
  "position_of_meta m = \<lparr>p_topic_id = m_topic_id m, p_actor_id = m_actor_id m, p_actor_seq = m_actor_seq m,
     p_actor_prev = m_actor_prev m, p_deps = m_deps m, p_generation = m_generation m\<rparr>"

definition header_of_meta :: "op_meta \<Rightarrow> op_header" where
  "header_of_meta m = \<lparr>h_topic_id = m_topic_id m, h_actor_id = m_actor_id m, h_actor_seq = m_actor_seq m,
     h_actor_prev = m_actor_prev m, h_generation = m_generation m\<rparr>"

definition header_of_position :: "op_position \<Rightarrow> op_header" where
  "header_of_position p = \<lparr>h_topic_id = p_topic_id p, h_actor_id = p_actor_id p, h_actor_seq = p_actor_seq p,
     h_actor_prev = p_actor_prev p, h_generation = p_generation p\<rparr>"

lemma header_of_position_of_meta: "header_of_position (position_of_meta m) = header_of_meta m"
  by (simp add: header_of_position_def position_of_meta_def header_of_meta_def)

section \<open>Control keys\<close>

text \<open>The derived \<open>Ord\<close> compares the fields in order.\<close>

datatype control_key =
  ControlKey (ck_generation: u64) (ck_actor_id: actor_id) (ck_actor_seq: u64) (ck_op_id: op_id)

definition ck_tuple :: "control_key \<Rightarrow> u64 \<times> actor_id \<times> u64 \<times> op_id" where
  "ck_tuple k = (ck_generation k, ck_actor_id k, ck_actor_seq k, ck_op_id k)"

lemma ck_tuple_inject: "ck_tuple a = ck_tuple b \<longleftrightarrow> a = b"
  by (cases a; cases b) (simp add: ck_tuple_def)

instantiation control_key :: linorder
begin

definition less_eq_control_key :: "control_key \<Rightarrow> control_key \<Rightarrow> bool" where
  "less_eq_control_key a b = (ck_tuple a \<le> ck_tuple b)"

definition less_control_key :: "control_key \<Rightarrow> control_key \<Rightarrow> bool" where
  "less_control_key a b = (ck_tuple a < ck_tuple b)"

instance
proof
  fix x y z :: control_key
  show "x < y \<longleftrightarrow> x \<le> y \<and> \<not> y \<le> x"
    unfolding less_control_key_def less_eq_control_key_def by (rule less_le_not_le)
  show "x \<le> x"
    unfolding less_eq_control_key_def by (rule order_refl)
  show "x \<le> y \<Longrightarrow> y \<le> z \<Longrightarrow> x \<le> z"
    unfolding less_eq_control_key_def by (rule order_trans)
  show "x \<le> y \<Longrightarrow> y \<le> x \<Longrightarrow> x = y"
    unfolding less_eq_control_key_def using ck_tuple_inject antisym by blast
  show "x \<le> y \<or> y \<le> x"
    unfolding less_eq_control_key_def by (rule linear)
qed

end

section \<open>Topic state and batches\<close>

record topic_state =
  t_topic_id :: topic_id
  t_event_type_id :: string
  t_genesis :: op_id
  t_heads :: "op_id btree_set"
  t_members :: "peer_id btree_set"
  t_replication_policy :: replication_policy
  t_membership_controls :: "(peer_id, control_key \<times> bool) btree_map"
  t_policy_control :: "(control_key \<times> replication_policy) option"

datatype obligation_target =
    ClockTarget actor_clock
  | RepairTarget "op_id btree_set"

record sync_obligation =
  ob_peer_id :: peer_id
  ob_topic_id :: topic_id
  ob_target :: obligation_target

record admission_effects =
  ef_sync_obligations :: "sync_obligation list"

record admitted_batch =
  ab_topic_id :: topic_id
  ab_expected_heads :: "op_id btree_set"
  ab_expected_topic_state :: "topic_state option"
  ab_entries :: "(operation \<times> op_meta) list"
  ab_heads :: "op_id btree_set"
  ab_topic_state :: "topic_state option"
  ab_effects :: admission_effects

definition meta_matches :: "operation \<Rightarrow> op_meta \<Rightarrow> bool" where
  "meta_matches op m \<longleftrightarrow>
    (let b = body op in
     m_id m = o_id op \<and> m_author m = b_author b \<and> m_actor_id m = b_actor_id b \<and>
     m_actor_seq m = b_actor_seq b \<and> m_actor_prev m = b_actor_prev b \<and> m_deps m = b_deps b \<and>
     m_generation m = b_generation b \<and> m_ready m \<and> m_missing_deps m = {||})"

definition validate_batch :: "admitted_batch \<Rightarrow> unit result" where
  "validate_batch batch =
    rbind (fold_res (\<lambda>state _. if t_topic_id state \<noteq> ab_topic_id batch then Err TopicMismatch else Ok ())
      (opt_list (ab_expected_topic_state batch) @ opt_list (ab_topic_state batch)) ()) (\<lambda>_.
    if (case ab_topic_state batch of None \<Rightarrow> False | Some state \<Rightarrow> t_heads state \<noteq> ab_heads batch)
    then Err (Storage ''topic state frontier mismatch'')
    else fold_res (\<lambda>(op, m) _.
      if b_topic_id (body op) \<noteq> ab_topic_id batch \<or> m_topic_id m \<noteq> ab_topic_id batch then Err TopicMismatch
      else if \<not> meta_matches op m then Err (Storage ''operation metadata mismatch'')
      else Ok ()) (ab_entries batch) ())"

definition validate_heads :: "admitted_batch \<Rightarrow> (op_meta \<Rightarrow> bool result) \<Rightarrow> unit result" where
  "validate_heads batch accounted =
    rbind (fold_res (\<lambda>(op, m) (heads, consumed).
        rbind (accounted m) (\<lambda>known.
          if known then Ok (heads, consumed)
          else Ok (finsert (o_id op) heads, consumed |\<union>| b_deps (body op))))
      (ab_entries batch) (ab_expected_heads batch, {||})) (\<lambda>(heads, consumed).
    if ffilter (\<lambda>i. i |\<notin>| consumed) heads \<noteq> ab_heads batch
    then Err (Storage ''admitted frontier mismatch'') else Ok ())"

definition ensure_deps_resolvable :: "(operation \<times> op_meta) list \<Rightarrow> (op_id \<Rightarrow> bool result) \<Rightarrow> unit result" where
  "ensure_deps_resolvable entries stored_dep =
    (let batch = fset_of_list (map (\<lambda>(op, _). o_id op) entries)
     in fold_res (\<lambda>(_, m) _.
          fold_res (\<lambda>dep _.
            if dep |\<in>| batch then Ok ()
            else rbind (stored_dep dep) (\<lambda>known. if known then Ok () else Err (MissingDependency dep)))
          (iter_set (m_deps m)) ()) entries ())"

section \<open>Pending accounting\<close>

definition MAX_PENDING_OPS_TOTAL :: nat where "MAX_PENDING_OPS_TOTAL = 4096"
definition MAX_PENDING_OPS_PER_SOURCE :: nat where "MAX_PENDING_OPS_PER_SOURCE = 1024"
definition MAX_PENDING_WAITERS_PER_DEP :: nat where "MAX_PENDING_WAITERS_PER_DEP = 1024"
definition MAX_PENDING_BYTES_TOTAL :: nat where "MAX_PENDING_BYTES_TOTAL = 64 * 1024 * 1024"
definition MAX_PENDING_BYTES_PER_SOURCE :: nat where "MAX_PENDING_BYTES_PER_SOURCE = 16 * 1024 * 1024"
definition MAX_PENDING_MISSING_DEPS :: nat where "MAX_PENDING_MISSING_DEPS = 128"
definition MAX_PENDING_OPS_PER_TOPIC :: nat where "MAX_PENDING_OPS_PER_TOPIC = 2048"
definition MAX_PENDING_BYTES_PER_TOPIC :: nat where "MAX_PENDING_BYTES_PER_TOPIC = 32 * 1024 * 1024"
definition MAX_REJECTED_PER_TOPIC :: nat where "MAX_REJECTED_PER_TOPIC = 4096"
definition MAX_PENDING_EVICTIONS :: nat where "MAX_PENDING_EVICTIONS = 1024"
definition PENDING_IDLE_MS :: u64 where "PENDING_IDLE_MS = 60 * 60 * 1000"

record pending_usage =
  u_ops :: u64
  u_bytes :: u64

definition no_usage :: pending_usage where
  "no_usage = \<lparr>u_ops = 0, u_bytes = 0\<rparr>"

definition charged :: "pending_usage \<Rightarrow> u64 \<Rightarrow> pending_usage" where
  "charged u bytes = \<lparr>u_ops = u_ops u + 1, u_bytes = u_bytes u + bytes\<rparr>"

definition refunded :: "pending_usage \<Rightarrow> u64 \<Rightarrow> pending_usage result" where
  "refunded u bytes =
    (case (checked_sub (u_ops u) 1, checked_sub (u_bytes u) bytes) of
       (Some ops, Some rest) \<Rightarrow> Ok \<lparr>u_ops = ops, u_bytes = rest\<rparr>
     | _ \<Rightarrow> Err (Storage ''pending accounting does not match the buffered records''))"

record pending_record =
  pr_source :: peer_id
  pr_topic_id :: topic_id
  pr_missing :: "op_id btree_set"
  pr_charge :: u64

definition check_pending_quota ::
  "pending_usage \<Rightarrow> pending_usage \<Rightarrow> pending_usage \<Rightarrow> u64 \<Rightarrow> unit result" where
  "check_pending_quota all source topic charge =
    (if u_ops all \<ge> of_nat MAX_PENDING_OPS_TOTAL
     then Err (Storage ''pending op buffer is full'')
     else if u_bytes all + charge > of_nat MAX_PENDING_BYTES_TOTAL
     then Err (Storage ''pending byte budget is full'')
     else if u_ops source \<ge> of_nat MAX_PENDING_OPS_PER_SOURCE
     then Err (Storage ''pending op source quota exceeded'')
     else if u_bytes source + charge > of_nat MAX_PENDING_BYTES_PER_SOURCE
     then Err (Storage ''pending byte quota exceeded for source'')
     else if u_ops topic \<ge> of_nat MAX_PENDING_OPS_PER_TOPIC
     then Err (Storage ''pending op topic quota exceeded'')
     else if u_bytes topic + charge > of_nat MAX_PENDING_BYTES_PER_TOPIC
     then Err (Storage ''pending byte quota exceeded for topic'')
     else Ok ())"

section \<open>What the checks decide\<close>

lemma validate_batch_Ok_iff:
  "validate_batch batch = Ok () \<longleftrightarrow>
    (\<forall>s. ab_expected_topic_state batch = Some s \<longrightarrow> t_topic_id s = ab_topic_id batch) \<and>
    (\<forall>s. ab_topic_state batch = Some s \<longrightarrow> t_topic_id s = ab_topic_id batch \<and> t_heads s = ab_heads batch) \<and>
    (\<forall>(op, m) \<in> set (ab_entries batch).
      b_topic_id (body op) = ab_topic_id batch \<and> m_topic_id m = ab_topic_id batch \<and> meta_matches op m)"
  unfolding validate_batch_def rbind_eq_Ok fold_res_check_Ok fold_res_check_pair_Ok
  by (auto simp: set_opt_list fold_res_check_Ok fold_res_check_pair_Ok split: if_splits option.splits)

text \<open>The frontier a batch must declare: known heads and new ids without what the new operations consume.\<close>

definition next_heads :: "op_id btree_set \<Rightarrow> operation list \<Rightarrow> op_id btree_set" where
  "next_heads heads ops =
    ffilter (\<lambda>i. \<not> (\<exists>op \<in> set ops. i |\<in>| b_deps (body op))) (heads |\<union>| fset_of_list (map o_id ops))"

lemma validate_heads_Ok_iff:
  assumes acc: "\<And>op m. (op, m) \<in> set (ab_entries batch) \<Longrightarrow> accounted m = Ok (known m)"
  shows "validate_heads batch accounted = Ok () \<longleftrightarrow>
    ab_heads batch = next_heads (ab_expected_heads batch)
      (map fst (filter (\<lambda>(op, m). \<not> known m) (ab_entries batch)))"
proof -
  define step where "step = (\<lambda>(op, m) (heads, consumed). rbind (accounted m) (\<lambda>known.
    if known then Ok (heads, consumed)
    else Ok (finsert (o_id op) heads, consumed |\<union>| b_deps (body op))) :: (op_id fset \<times> op_id fset) result)"
  have run: "fold_res step es (h, c) = Ok (h |\<union>| fset_of_list (map o_id new),
      c |\<union>| ffUnion (fset_of_list (map (\<lambda>op. b_deps (body op)) new)))"
    if "set es \<subseteq> set (ab_entries batch)" "new = map fst (filter (\<lambda>(op, m). \<not> known m) es)" for es h c new
    using that
  proof (induction es arbitrary: h c new)
    case (Cons e es)
    obtain op m where e: "e = (op, m)" by (cases e)
    have "step e (h, c) = (if known m then Ok (h, c) else Ok (finsert (o_id op) h, c |\<union>| b_deps (body op)))"
      using acc[of op m] Cons.prems(1) by (simp add: e step_def)
    then show ?case using Cons by (auto simp: e funion_finsert_left sup_assoc ac_simps)
  qed simp
  have "i |\<in>| ffUnion (fset_of_list (map (\<lambda>op. b_deps (body op)) new)) \<longleftrightarrow>
      (\<exists>op \<in> set new. i |\<in>| b_deps (body op))" for i new
    by (auto simp: ffUnion.rep_eq fset_of_list.rep_eq)
  moreover define new where "new = map fst (filter (\<lambda>(op, m). \<not> known m) (ab_entries batch))"
  ultimately show ?thesis
    unfolding validate_heads_def step_def[symmetric] run[OF subset_refl new_def] next_heads_def new_def[symmetric]
    by (auto simp del: map_map)
qed

lemma ensure_deps_resolvable_Ok_iff:
  assumes "\<And>dep. stored_dep dep = Ok (stored dep)"
  shows "ensure_deps_resolvable entries stored_dep = Ok () \<longleftrightarrow>
    (\<forall>(op, m) \<in> set entries. \<forall>dep. dep |\<in>| m_deps m \<longrightarrow> dep \<in> o_id ` fst ` set entries \<or> stored dep)"
proof -
  have B: "dep |\<in>| fset_of_list (map (\<lambda>(op, _). o_id op) entries) \<longleftrightarrow> dep \<in> o_id ` fst ` set entries" for dep
    by (force simp: fset_of_list_elem)
  show ?thesis
    unfolding ensure_deps_resolvable_def Let_def fold_res_check_pair_Ok B
    by (auto simp: fold_res_check_Ok assms)
qed

section \<open>Quotas\<close>

definition usage_within :: "nat \<Rightarrow> nat \<Rightarrow> pending_usage \<Rightarrow> bool" where
  "usage_within ops bytes u \<longleftrightarrow> unat (u_ops u) \<le> ops \<and> unat (u_bytes u) \<le> bytes"

lemma charged_within:
  assumes "usage_within n b u" "\<not> of_nat n \<le> u_ops u" "\<not> of_nat b < u_bytes u + c"
    and "n < 2 ^ 63" "b < 2 ^ 63" "unat c \<le> 2 ^ 63"
  shows "usage_within n b (charged u c)"
proof -
  have n: "unat (of_nat n :: u64) = n" and b: "unat (of_nat b :: u64) = b"
    using assms(4,5) by (simp_all add: unat_of_nat take_bit_nat_eq_self)
  have "unat (u_ops u) < n" using assms(2) n by (simp add: word_le_nat_alt)
  then have "unat (u_ops u + 1) \<le> n"
    using assms(4) by (simp add: unat_word_ariths)
  moreover have "unat (u_bytes u + c) \<le> b"
    using assms(3) b by (simp add: word_less_nat_alt)
  ultimately show ?thesis by (simp add: usage_within_def charged_def)
qed

text \<open>
  C34: a buffered operation the quota check admits leaves the totals, the source and the topic within
  their limits, so limits that hold keep holding; the byte counters do not wrap.
\<close>

theorem pending_quota_keeps_limits:
  assumes "usage_within MAX_PENDING_OPS_TOTAL MAX_PENDING_BYTES_TOTAL all"
    and "usage_within MAX_PENDING_OPS_PER_SOURCE MAX_PENDING_BYTES_PER_SOURCE source"
    and "usage_within MAX_PENDING_OPS_PER_TOPIC MAX_PENDING_BYTES_PER_TOPIC topic"
    and "unat charge \<le> 2 ^ 63"
    and "check_pending_quota all source topic charge = Ok ()"
  shows "usage_within MAX_PENDING_OPS_TOTAL MAX_PENDING_BYTES_TOTAL (charged all charge) \<and>
    usage_within MAX_PENDING_OPS_PER_SOURCE MAX_PENDING_BYTES_PER_SOURCE (charged source charge) \<and>
    usage_within MAX_PENDING_OPS_PER_TOPIC MAX_PENDING_BYTES_PER_TOPIC (charged topic charge) \<and>
    unat (u_bytes (charged all charge)) = unat (u_bytes all) + unat charge"
proof -
  have c: "\<not> of_nat MAX_PENDING_OPS_TOTAL \<le> u_ops all" "\<not> of_nat MAX_PENDING_BYTES_TOTAL < u_bytes all + charge"
    "\<not> of_nat MAX_PENDING_OPS_PER_SOURCE \<le> u_ops source" "\<not> of_nat MAX_PENDING_BYTES_PER_SOURCE < u_bytes source + charge"
    "\<not> of_nat MAX_PENDING_OPS_PER_TOPIC \<le> u_ops topic" "\<not> of_nat MAX_PENDING_BYTES_PER_TOPIC < u_bytes topic + charge"
    using assms(5) by (auto simp: check_pending_quota_def split: if_splits)
  have "unat (u_bytes all) + unat charge < 2 ^ 64"
    using assms(1,4) by (simp add: usage_within_def MAX_PENDING_BYTES_TOTAL_def)
  then have "unat (u_bytes (charged all charge)) = unat (u_bytes all) + unat charge"
    by (simp add: charged_def unat_add_no_overflow)
  then show ?thesis
    using charged_within[OF assms(1) c(1,2)] charged_within[OF assms(2) c(3,4)] charged_within[OF assms(3) c(5,6)] assms(4)
    by (simp add: MAX_PENDING_OPS_TOTAL_def MAX_PENDING_BYTES_TOTAL_def MAX_PENDING_OPS_PER_SOURCE_def
        MAX_PENDING_BYTES_PER_SOURCE_def MAX_PENDING_OPS_PER_TOPIC_def MAX_PENDING_BYTES_PER_TOPIC_def)
qed

theorem pending_quota_keeps_limits_witness:
  "usage_within MAX_PENDING_OPS_TOTAL MAX_PENDING_BYTES_TOTAL (charged no_usage 500)"
proof -
  have "check_pending_quota no_usage no_usage no_usage 500 = Ok ()"
    by (simp add: check_pending_quota_def no_usage_def MAX_PENDING_OPS_TOTAL_def MAX_PENDING_BYTES_TOTAL_def
        MAX_PENDING_OPS_PER_SOURCE_def MAX_PENDING_BYTES_PER_SOURCE_def MAX_PENDING_OPS_PER_TOPIC_def
        MAX_PENDING_BYTES_PER_TOPIC_def)
  from pending_quota_keeps_limits[OF _ _ _ _ this] show ?thesis
    by (simp add: usage_within_def no_usage_def)
qed

lemma refunded_charged:
  assumes "unat (u_ops u) + 1 < 2 ^ 64" "unat (u_bytes u) + unat b < 2 ^ 64"
  shows "refunded (charged u b) b = Ok u"
proof -
  have "checked_sub (u_ops u + 1) 1 = Some (u_ops u)" "checked_sub (u_bytes u + b) b = Some (u_bytes u)"
    using assms by (auto simp: checked_sub_def word_le_nat_alt unat_word_ariths)
  then show ?thesis by (simp add: refunded_def charged_def)
qed

end
