(* ===== verification/Membership.thy ===== *)
theory Membership
  imports Records
begin

text \<open>
  Membership and policy of a topic (\<open>oplog/membership.rs\<close>): the state a history materializes, the
  incremental application of one control, and the merge of the projections of several dependencies.
  Every control is a register whose highest key wins; the state is the same whichever way it is
  computed.
\<close>

section \<open>Definitions\<close>

definition control_key :: "operation \<Rightarrow> control_key" where
  "control_key op =
    (let b = body op in ControlKey (b_generation b) (b_actor_id b) (b_actor_seq b) (o_id op))"

type_synonym controls = "(peer_id, control_key \<times> bool) btree_map"

definition set_membership_control :: "controls \<Rightarrow> peer_id \<Rightarrow> control_key \<Rightarrow> bool \<Rightarrow> bool \<times> controls" where
  "set_membership_control controls peer key is_member =
    (if (case fmlookup controls peer of None \<Rightarrow> True | Some (current_key, _) \<Rightarrow> key > current_key)
     then (True, fmupd peer (key, is_member) controls)
     else (False, controls))"

definition newer_policy :: "control_key \<Rightarrow> (control_key \<times> replication_policy) option \<Rightarrow> bool" where
  "newer_policy key current = (case current of None \<Rightarrow> True | Some (current_key, _) \<Rightarrow> key > current_key)"

record materializing =
  z_genesis :: "(op_id \<times> topic_id \<times> topic_genesis) option"
  z_topic_id :: "topic_id option"
  z_controls :: controls
  z_policy :: "(control_key \<times> replication_policy) option"

definition materialize_step :: "operation \<Rightarrow> materializing \<Rightarrow> materializing result" where
  "materialize_step op z =
    (let b = body op in
     if (case z_topic_id z of None \<Rightarrow> False | Some topic \<Rightarrow> topic \<noteq> b_topic_id b) then Err TopicMismatch
     else
       let z = z\<lparr>z_topic_id := Some (case z_topic_id z of None \<Rightarrow> b_topic_id b | Some topic \<Rightarrow> topic)\<rparr> in
       case b_payload b of
         Genesis g \<Rightarrow>
           if (case z_genesis z of None \<Rightarrow> False | Some (genesis_id, _, _) \<Rightarrow> genesis_id \<noteq> o_id op)
           then Err InvalidGenesis
           else Ok (z\<lparr>z_genesis := Some (case z_genesis z of
                    None \<Rightarrow> (o_id op, b_topic_id b, g) | Some present \<Rightarrow> present)\<rparr>)
       | Control (AddPeer peer) \<Rightarrow>
           Ok (z\<lparr>z_controls := snd (set_membership_control (z_controls z) peer (control_key op) True)\<rparr>)
       | Control (RemovePeer peer) \<Rightarrow>
           Ok (z\<lparr>z_controls := snd (set_membership_control (z_controls z) peer (control_key op) False)\<rparr>)
       | Control (SetReplicationPolicy policy) \<Rightarrow>
           if newer_policy (control_key op) (z_policy z)
           then Ok (z\<lparr>z_policy := Some (control_key op, policy)\<rparr>) else Ok z
       | Event _ \<Rightarrow> Ok z)"

definition set_member :: "bool \<Rightarrow> peer_id \<Rightarrow> peer_id btree_set \<Rightarrow> peer_id btree_set" where
  "set_member is_member peer members = (if is_member then finsert peer members else members |-| {|peer|})"

definition materialize_topic_state :: "operation list \<Rightarrow> op_id btree_set \<Rightarrow> topic_state result" where
  "materialize_topic_state ops heads =
    rbind (fold_res materialize_step ops
      \<lparr>z_genesis = None, z_topic_id = None, z_controls = fmempty, z_policy = None\<rparr>) (\<lambda>z.
    rbind (ok_or (z_genesis z) TopicNotFound) (\<lambda>(genesis_id, topic, g).
      Ok \<lparr>t_topic_id = topic, t_event_type_id = g_event_type_id g, t_genesis = genesis_id, t_heads = heads,
        t_members = fold (\<lambda>(peer, (_, is_member)). set_member is_member peer) (iter_map (z_controls z)) (g_initial_peers g),
        t_replication_policy = (case z_policy z of None \<Rightarrow> g_replication_policy g | Some (_, policy) \<Rightarrow> policy),
        t_membership_controls = z_controls z, t_policy_control = z_policy z\<rparr>))"

definition apply_membership :: "peer_id \<Rightarrow> control_key \<Rightarrow> bool \<Rightarrow> topic_state \<Rightarrow> topic_state" where
  "apply_membership peer key is_member state =
    (case set_membership_control (t_membership_controls state) peer key is_member of
       (True, controls) \<Rightarrow> state\<lparr>t_membership_controls := controls,
          t_members := set_member is_member peer (t_members state)\<rparr>
     | (False, _) \<Rightarrow> state)"

definition apply_policy :: "control_key \<Rightarrow> replication_policy \<Rightarrow> topic_state \<Rightarrow> topic_state" where
  "apply_policy key policy state =
    (if newer_policy key (t_policy_control state)
     then state\<lparr>t_policy_control := Some (key, policy), t_replication_policy := policy\<rparr>
     else state)"

definition apply_control :: "topic_state \<Rightarrow> operation \<Rightarrow> topic_control \<Rightarrow> topic_state" where
  "apply_control state op control =
    (case control of
       AddPeer peer \<Rightarrow> apply_membership peer (control_key op) True state
     | RemovePeer peer \<Rightarrow> apply_membership peer (control_key op) False state
     | SetReplicationPolicy policy \<Rightarrow> apply_policy (control_key op) policy state)"

definition merge_state :: "topic_state \<Rightarrow> topic_state \<Rightarrow> topic_state result" where
  "merge_state current incoming =
    (if current = incoming then Ok current
     else if t_genesis current \<noteq> t_genesis incoming then Err InvalidGenesis
     else
       let current = fold (\<lambda>(peer, (key, member)). apply_membership peer key member)
             (iter_map (t_membership_controls incoming)) current
       in Ok (case t_policy_control incoming of
           None \<Rightarrow> current
         | Some (key, policy) \<Rightarrow> apply_policy key policy current))"

definition merge_states :: "op_id btree_set \<Rightarrow> (op_id, topic_state) btree_map \<Rightarrow> topic_state result" where
  "merge_states deps projections =
    rbind (fold_res (\<lambda>i merged.
        rbind (ok_or (fmlookup projections i) (MissingDependency i)) (\<lambda>incoming.
          case merged of
            None \<Rightarrow> Ok (Some incoming)
          | Some current \<Rightarrow> rbind (merge_state current incoming) (\<lambda>s. Ok (Some s))))
      (iter_set deps) None) (\<lambda>merged. ok_or merged TopicNotFound)"

section \<open>Registers whose highest key wins\<close>

text \<open>
  A register holds the offer with the highest key. What it holds after any sequence of offers is
  determined by the set of offers, when a key names one value.
\<close>

definition functional_offers :: "('k \<times> 'v) set \<Rightarrow> bool" where
  "functional_offers S \<longleftrightarrow> (\<forall>k v w. (k, v) \<in> S \<longrightarrow> (k, w) \<in> S \<longrightarrow> v = w)"

definition is_latest :: "('k::linorder \<times> 'v) set \<Rightarrow> ('k \<times> 'v) option \<Rightarrow> bool" where
  "is_latest S r \<longleftrightarrow>
    (case r of None \<Rightarrow> S = {} | Some (k, v) \<Rightarrow> (k, v) \<in> S \<and> (\<forall>k' v'. (k', v') \<in> S \<longrightarrow> k' \<le> k))"

lemma is_latest_unique:
  assumes "functional_offers S" "is_latest S r" "is_latest S r'"
  shows "r = r'"
proof (cases r; cases r')
  fix kv kv' assume r: "r = Some kv" and r': "r' = Some kv'"
  obtain k v k' v' where kv: "kv = (k, v)" "kv' = (k', v')" by (cases kv; cases kv')
  have "(k, v) \<in> S" "(k', v') \<in> S" "k' \<le> k" "k \<le> k'"
    using assms(2,3) unfolding is_latest_def r r' kv by auto
  then show ?thesis using assms(1) unfolding functional_offers_def r r' kv by auto
qed (use assms in \<open>auto simp: is_latest_def\<close>)

locale latest_register =
  fixes offer :: "'k::linorder \<Rightarrow> 'v \<Rightarrow> ('k \<times> 'v) option \<Rightarrow> ('k \<times> 'v) option"
  assumes offer_empty: "offer k v None = Some (k, v)"
    and offer_newer: "k' < k \<Longrightarrow> offer k v (Some (k', v')) = Some (k, v)"
    and offer_older: "\<not> k' < k \<Longrightarrow> offer k v (Some (k', v')) = Some (k', v')"
begin

lemma offer_latest:
  assumes "is_latest S r"
  shows "is_latest (insert (k, v) S) (offer k v r)"
proof (cases r)
  case None
  then show ?thesis using assms by (simp add: is_latest_def offer_empty)
next
  case (Some kv)
  obtain k' v' where kv: "kv = (k', v')" by (cases kv)
  show ?thesis
  proof (cases "k' < k")
    case True
    then have "k'' \<le> k" if "(k'', w) \<in> S" for k'' w
      using that assms Some kv by (fastforce simp: is_latest_def)
    then show ?thesis using True by (auto simp: Some kv is_latest_def offer_newer)
  next
    case False
    then show ?thesis using assms by (auto simp: Some kv is_latest_def offer_older)
  qed
qed

lemma fold_offer_latest:
  "is_latest S r \<Longrightarrow> is_latest (set xs \<union> S) (fold (\<lambda>(k, v). offer k v) xs r)"
proof (induction xs arbitrary: S r)
  case (Cons x xs)
  obtain k v where x: "x = (k, v)" by (cases x)
  show ?case
    using Cons.IH[OF offer_latest[OF Cons.prems, of k v]] by (simp add: x)
qed simp

lemma merge_latest:
  assumes "is_latest S r" "is_latest T r'"
  shows "is_latest (S \<union> T) (case r' of None \<Rightarrow> r | Some (k, v) \<Rightarrow> offer k v r)"
proof (cases r')
  case None
  then show ?thesis using assms by (simp add: is_latest_def)
next
  case (Some kv)
  obtain k v where kv: "kv = (k, v)" by (cases kv)
  have kT: "(k, v) \<in> T" "\<And>k' v'. (k', v') \<in> T \<Longrightarrow> k' \<le> k"
    using assms(2) Some kv by (auto simp: is_latest_def)
  have l: "is_latest (insert (k, v) S) (offer k v r)" by (rule offer_latest[OF assms(1)])
  then obtain k1 v1 where r: "offer k v r = Some (k1, v1)" "(k1, v1) \<in> insert (k, v) S" "k \<le> k1"
    "\<And>k' v'. (k', v') \<in> S \<Longrightarrow> k' \<le> k1"
    by (cases "offer k v r") (auto simp: is_latest_def)
  have "k' \<le> k1" if "(k', v') \<in> S \<union> T" for k' v'
    using that r(3,4) kT(2) by (blast intro: order_trans)
  moreover have "(k1, v1) \<in> S \<union> T" using r(2) kT(1) by blast
  ultimately show ?thesis by (auto simp: is_latest_def Some kv r(1))
qed

lemma fold_offer_order_irrelevant:
  assumes "functional_offers (set xs)" "set xs = set ys"
  shows "fold (\<lambda>(k, v). offer k v) xs None = fold (\<lambda>(k, v). offer k v) ys None"
proof -
  have "is_latest {} (None :: ('k \<times> 'v) option)" by (simp add: is_latest_def)
  from fold_offer_latest[OF this, of xs] fold_offer_latest[OF this, of ys]
  show ?thesis using is_latest_unique[OF assms(1)] assms(2) by simp
qed

end

definition offer_control :: "control_key \<Rightarrow> 'v \<Rightarrow> (control_key \<times> 'v) option \<Rightarrow> (control_key \<times> 'v) option" where
  "offer_control key v current =
    (case current of
       None \<Rightarrow> Some (key, v)
     | Some (current_key, w) \<Rightarrow> if key > current_key then Some (key, v) else Some (current_key, w))"

interpretation reg: latest_register "offer_control :: control_key \<Rightarrow> 'v \<Rightarrow> (control_key \<times> 'v) option \<Rightarrow> (control_key \<times> 'v) option"
  by unfold_locales (auto simp: offer_control_def)

lemma lookup_set_membership_control:
  "fmlookup (snd (set_membership_control controls peer key b)) p =
    (if p = peer then offer_control key b (fmlookup controls peer) else fmlookup controls p)"
  by (auto simp: set_membership_control_def offer_control_def split: option.splits)

lemma policy_offer: "(if newer_policy key cur then Some (key, policy) else cur) = offer_control key policy cur"
  by (auto simp: newer_policy_def offer_control_def split: option.splits)

section \<open>The state of a set of operations\<close>

definition member_offers :: "operation set \<Rightarrow> peer_id \<Rightarrow> (control_key \<times> bool) set" where
  "member_offers S p =
    {(control_key op, b) | op b. op \<in> S \<and> b_payload (body op) = Control (if b then AddPeer p else RemovePeer p)}"

definition policy_offers :: "operation set \<Rightarrow> (control_key \<times> replication_policy) set" where
  "policy_offers S =
    {(control_key op, pol) | op pol. op \<in> S \<and> b_payload (body op) = Control (SetReplicationPolicy pol)}"

definition members_ok :: "peer_id btree_set \<Rightarrow> controls \<Rightarrow> peer_id btree_set \<Rightarrow> bool" where
  "members_ok initial controls members \<longleftrightarrow>
    (\<forall>p. p |\<in>| members \<longleftrightarrow> (case fmlookup controls p of None \<Rightarrow> p |\<in>| initial | Some (_, b) \<Rightarrow> b))"

definition genesis_op :: "operation set \<Rightarrow> operation \<Rightarrow> topic_genesis \<Rightarrow> bool" where
  "genesis_op S op g \<longleftrightarrow> op \<in> S \<and> b_payload (body op) = Genesis g \<and>
    (\<forall>q \<in> S. b_topic_id (body q) = b_topic_id (body op)) \<and>
    (\<forall>q \<in> S. \<forall>g'. b_payload (body q) = Genesis g' \<longrightarrow> o_id q = o_id op)"

text \<open>
  The state a set of operations of one topic denotes: one genesis; for every peer the membership of
  its latest control, or the initial one; the latest policy, or the initial one.
\<close>

definition materialized :: "operation set \<Rightarrow> op_id btree_set \<Rightarrow> topic_state \<Rightarrow> bool" where
  "materialized S heads s \<longleftrightarrow> t_heads s = heads \<and>
    (\<exists>op g. genesis_op S op g \<and> t_genesis s = o_id op \<and> t_topic_id s = b_topic_id (body op) \<and>
      t_event_type_id s = g_event_type_id g \<and>
      members_ok (g_initial_peers g) (t_membership_controls s) (t_members s) \<and>
      t_replication_policy s = (case t_policy_control s of None \<Rightarrow> g_replication_policy g | Some (_, pol) \<Rightarrow> pol)) \<and>
    (\<forall>p. is_latest (member_offers S p) (fmlookup (t_membership_controls s) p)) \<and>
    is_latest (policy_offers S) (t_policy_control s)"

lemma control_key_inj: "inj_on o_id S \<Longrightarrow> a \<in> S \<Longrightarrow> b \<in> S \<Longrightarrow> control_key a = control_key b \<Longrightarrow> a = b"
  by (auto simp: control_key_def Let_def dest: inj_onD)

lemma functional_member_offers: "inj_on o_id S \<Longrightarrow> functional_offers (member_offers S p)"
proof -
  assume inj: "inj_on o_id S"
  have "v = w" if "(k, v) \<in> member_offers S p" and "(k, w) \<in> member_offers S p" for k v w
  proof -
    obtain a where a: "a \<in> S" "k = control_key a" "b_payload (body a) = Control (if v then AddPeer p else RemovePeer p)"
      using \<open>(k, v) \<in> member_offers S p\<close> by (auto simp: member_offers_def)
    obtain b where b: "b \<in> S" "k = control_key b" "b_payload (body b) = Control (if w then AddPeer p else RemovePeer p)"
      using \<open>(k, w) \<in> member_offers S p\<close> by (auto simp: member_offers_def)
    have "a = b" using control_key_inj[OF inj a(1) b(1)] a(2) b(2) by simp
    then show ?thesis using a(3) b(3) by (auto split: if_splits)
  qed
  then show ?thesis unfolding functional_offers_def by blast
qed

lemma functional_policy_offers: "inj_on o_id S \<Longrightarrow> functional_offers (policy_offers S)"
  unfolding functional_offers_def policy_offers_def using control_key_inj by fastforce

lemma genesis_op_unique:
  assumes "inj_on o_id S" "genesis_op S op g" "genesis_op S op' g'"
  shows "op = op'" "g = g'"
proof -
  have S: "op \<in> S" "op' \<in> S" and id: "o_id op = o_id op'"
    using assms(2,3) unfolding genesis_op_def by blast+
  then show "op = op'" using inj_onD[OF assms(1) id] by blast
  then show "g = g'" using assms(2,3) unfolding genesis_op_def by (metis topic_payload.inject(1))
qed

lemma members_ok_unique: "members_ok i c m \<Longrightarrow> members_ok i c m' \<Longrightarrow> m = m'"
  by (auto simp: members_ok_def fset_eq_iff)

lemma materialized_unique:
  assumes inj: "inj_on o_id S" and s: "materialized S h s" and s': "materialized S h s'"
  shows "s = s'"
proof -
  obtain op g where op: "genesis_op S op g" "t_genesis s = o_id op" "t_topic_id s = b_topic_id (body op)"
    "t_event_type_id s = g_event_type_id g" "members_ok (g_initial_peers g) (t_membership_controls s) (t_members s)"
    "t_replication_policy s = (case t_policy_control s of None \<Rightarrow> g_replication_policy g | Some (_, pol) \<Rightarrow> pol)"
    using s by (auto simp: materialized_def)
  obtain op' g' where op': "genesis_op S op' g'" "t_genesis s' = o_id op'" "t_topic_id s' = b_topic_id (body op')"
    "t_event_type_id s' = g_event_type_id g'" "members_ok (g_initial_peers g') (t_membership_controls s') (t_members s')"
    "t_replication_policy s' = (case t_policy_control s' of None \<Rightarrow> g_replication_policy g' | Some (_, pol) \<Rightarrow> pol)"
    using s' by (auto simp: materialized_def)
  have eq: "op' = op" "g' = g" using genesis_op_unique[OF inj op(1) op'(1)] by auto
  have c: "t_membership_controls s = t_membership_controls s'"
    using s s' is_latest_unique[OF functional_member_offers[OF inj]] unfolding materialized_def
    by (intro fmap_ext) blast
  have p: "t_policy_control s = t_policy_control s'"
    using s s' is_latest_unique[OF functional_policy_offers[OF inj]] unfolding materialized_def by blast
  have "t_members s = t_members s'" using op(5) op'(5) c eq members_ok_unique by simp
  then show ?thesis using op op' eq c p s s' by (auto simp: materialized_def)
qed

section \<open>Materialization\<close>

lemma member_offers_insert:
  "member_offers (insert op S) p =
    (case b_payload (body op) of
       Control (AddPeer q) \<Rightarrow> if q = p then insert (control_key op, True) (member_offers S p) else member_offers S p
     | Control (RemovePeer q) \<Rightarrow> if q = p then insert (control_key op, False) (member_offers S p) else member_offers S p
     | _ \<Rightarrow> member_offers S p)"
proof -
  have ins: "member_offers (insert op S) p = member_offers {op} p \<union> member_offers S p"
    unfolding member_offers_def by blast
  have one: "member_offers {op} p = {(control_key op, b) | b. b_payload (body op) = Control (if b then AddPeer p else RemovePeer p)}"
    unfolding member_offers_def by blast
  have two: "{(k, b) | b. P b} = (if P True then {(k, True)} else {}) \<union> (if P False then {(k, False)} else {})"
    for k :: control_key and P
    by (auto simp: set_eq_iff ex_bool_eq)
  show ?thesis
    unfolding ins one two by (auto split: topic_payload.splits topic_control.splits)
qed

lemma policy_offers_insert:
  "policy_offers (insert op S) =
    (case b_payload (body op) of
       Control (SetReplicationPolicy pol) \<Rightarrow> insert (control_key op, pol) (policy_offers S)
     | _ \<Rightarrow> policy_offers S)"
  by (auto simp: policy_offers_def split: topic_payload.splits topic_control.splits)

lemma offers_empty [simp]: "member_offers {} p = {}" "policy_offers {} = {}"
  by (simp_all add: member_offers_def policy_offers_def)

definition genesis_inv :: "operation set \<Rightarrow> (op_id \<times> topic_id \<times> topic_genesis) option \<Rightarrow> bool" where
  "genesis_inv S z \<longleftrightarrow>
    (case z of
       None \<Rightarrow> \<forall>q \<in> S. \<forall>g. b_payload (body q) \<noteq> Genesis g
     | Some (i, topic, g) \<Rightarrow> (\<exists>op \<in> S. o_id op = i \<and> b_topic_id (body op) = topic \<and> b_payload (body op) = Genesis g) \<and>
         (\<forall>q \<in> S. \<forall>g'. b_payload (body q) = Genesis g' \<longrightarrow> o_id q = i))"

definition z_inv :: "operation set \<Rightarrow> materializing \<Rightarrow> bool" where
  "z_inv S z \<longleftrightarrow> (S = {} \<longrightarrow> z_topic_id z = None) \<and> (\<forall>q \<in> S. z_topic_id z = Some (b_topic_id (body q))) \<and>
    genesis_inv S (z_genesis z) \<and>
    (\<forall>p. is_latest (member_offers S p) (fmlookup (z_controls z) p)) \<and> is_latest (policy_offers S) (z_policy z)"

definition compatible :: "operation set \<Rightarrow> bool" where
  "compatible S \<longleftrightarrow> (\<forall>a \<in> S. \<forall>b \<in> S. b_topic_id (body a) = b_topic_id (body b) \<and>
    (\<forall>g g'. b_payload (body a) = Genesis g \<longrightarrow> b_payload (body b) = Genesis g' \<longrightarrow> o_id a = o_id b))"

lemma materialize_step_inv:
  assumes inv: "z_inv S z" and step: "materialize_step op z = Ok z'"
  shows "z_inv (insert op S) z'"
proof -
  have m: "is_latest (member_offers S p) (fmlookup (z_controls z) p)" for p using inv by (simp add: z_inv_def)
  have pol: "is_latest (policy_offers S) (z_policy z)" using inv by (simp add: z_inv_def)
  have topic: "z_topic_id z' = Some (b_topic_id (body op))" "\<forall>q \<in> S. b_topic_id (body q) = b_topic_id (body op)"
    using inv step by (auto simp: z_inv_def materialize_step_def Let_def split: if_splits option.splits
        topic_payload.splits topic_control.splits)
  have gen0: "genesis_inv S (z_genesis z)" using inv by (simp add: z_inv_def)
  have gen: "genesis_inv (insert op S) (z_genesis z')"
  proof (cases "b_payload (body op)")
    case (Genesis g)
    show ?thesis
    proof (cases "z_genesis z")
      case None
      then have "z_genesis z' = Some (o_id op, b_topic_id (body op), g)"
        using step Genesis by (auto simp: materialize_step_def Let_def split: if_splits)
      then show ?thesis using gen0 None Genesis by (auto simp: genesis_inv_def)
    next
      case (Some y)
      obtain i t g0 where y: "y = (i, t, g0)" by (cases y)
      then have "o_id op = i" "z_genesis z' = Some (i, t, g0)"
        using step Genesis Some by (auto simp: materialize_step_def Let_def split: if_splits)
      then show ?thesis using gen0 Some y unfolding genesis_inv_def by auto
    qed
  next
    case (Event e)
    then have "z_genesis z' = z_genesis z" using step by (auto simp: materialize_step_def Let_def split: if_splits)
    then show ?thesis using gen0 Event by (auto simp: genesis_inv_def split: option.splits)
  next
    case (Control c)
    then have "z_genesis z' = z_genesis z"
      using step by (auto simp: materialize_step_def Let_def split: if_splits topic_control.splits)
    then show ?thesis using gen0 Control by (auto simp: genesis_inv_def split: option.splits)
  qed
  have "is_latest (member_offers (insert op S) p) (fmlookup (z_controls z') p)" for p
    using m[of p] reg.offer_latest[OF m[of p]] step
    by (auto simp: member_offers_insert materialize_step_def Let_def lookup_set_membership_control
        split: if_splits topic_payload.splits topic_control.splits)
  moreover have "is_latest (policy_offers (insert op S)) (z_policy z')"
    using pol reg.offer_latest[OF pol] step policy_offer
    by (auto simp: policy_offers_insert materialize_step_def Let_def split: if_splits topic_payload.splits topic_control.splits)
      (metis option.distinct(1))+
  ultimately show ?thesis using topic gen by (simp add: z_inv_def)
qed

lemma materialize_step_total:
  assumes "z_inv S z" "compatible (insert op S)"
  shows "\<exists>z'. materialize_step op z = Ok z'"
proof -
  have topic: "\<not> (case z_topic_id z of None \<Rightarrow> False | Some topic \<Rightarrow> topic \<noteq> b_topic_id (body op))"
  proof (cases "S = {}")
    case False
    then obtain q where q: "q \<in> S" by blast
    then have "b_topic_id (body q) = b_topic_id (body op)"
      using assms(2) unfolding compatible_def by blast
    then show ?thesis using assms(1) q by (simp add: z_inv_def)
  qed (use assms(1) in \<open>simp add: z_inv_def\<close>)
  have gen: "i = o_id op" if "b_payload (body op) = Genesis g" "z_genesis z = Some (i, t, g')" for g i t g'
  proof -
    have "genesis_inv S (Some (i, t, g'))" using assms(1) that(2) by (simp add: z_inv_def)
    then obtain q where "q \<in> S" "o_id q = i" "b_payload (body q) = Genesis g'"
      by (auto simp: genesis_inv_def)
    then show ?thesis using assms(2) that(1) unfolding compatible_def by blast
  qed
  show ?thesis
    using topic gen unfolding materialize_step_def Let_def
    by (auto split: option.splits topic_payload.splits topic_control.splits)
qed

lemma compatible_genesis: "genesis_op S op g \<Longrightarrow> compatible S"
proof -
  assume "genesis_op S op g"
  then have t: "b_topic_id (body q) = b_topic_id (body op)" if "q \<in> S" for q
    using that unfolding genesis_op_def by blast
  have i: "o_id q = o_id op" if "q \<in> S" "b_payload (body q) = Genesis g'" for q g'
    using that \<open>genesis_op S op g\<close> unfolding genesis_op_def by blast
  show ?thesis unfolding compatible_def by (intro ballI conjI allI impI) (metis t, metis i)
qed

lemma compatible_subset: "compatible S \<Longrightarrow> T \<subseteq> S \<Longrightarrow> compatible T"
  unfolding compatible_def by blast

abbreviation z_empty :: materializing where
  "z_empty \<equiv> \<lparr>z_genesis = None, z_topic_id = None, z_controls = fmempty, z_policy = None\<rparr>"

lemma z_inv_empty: "z_inv {} z_empty"
  by (simp add: z_inv_def genesis_inv_def is_latest_def)

lemma materialize_loop_inv:
  "z_inv S z \<Longrightarrow> fold_res materialize_step ops z = Ok z' \<Longrightarrow> z_inv (set ops \<union> S) z'"
proof (induction ops arbitrary: S z)
  case (Cons op ops)
  then obtain z1 where "materialize_step op z = Ok z1" "fold_res materialize_step ops z1 = Ok z'"
    by (auto simp: rbind_eq_Ok)
  then show ?case using Cons.IH[OF materialize_step_inv[OF Cons.prems(1)]] by simp
qed simp

lemma materialize_loop_total:
  "z_inv S z \<Longrightarrow> compatible (set ops \<union> S) \<Longrightarrow> \<exists>z'. fold_res materialize_step ops z = Ok z'"
proof (induction ops arbitrary: S z)
  case (Cons op ops)
  have "compatible (insert op S)" using Cons.prems(2) by (rule compatible_subset) auto
  then obtain z1 where z1: "materialize_step op z = Ok z1" using materialize_step_total Cons.prems(1) by blast
  have "compatible (set ops \<union> insert op S)" using Cons.prems(2) by (rule compatible_subset) auto
  then show ?case using Cons.IH[OF materialize_step_inv[OF Cons.prems(1) z1]] by (simp add: z1)
qed simp

lemma fold_set_member:
  assumes "distinct (map fst xs)"
  shows "p |\<in>| fold (\<lambda>(peer, (k, is_member)). set_member is_member peer) xs members \<longleftrightarrow>
    (case map_of xs p of None \<Rightarrow> p |\<in>| members | Some (_, b) \<Rightarrow> b)"
  using assms
proof (induction xs arbitrary: members)
  case (Cons x xs)
  obtain q k b where x: "x = (q, k, b)" by (cases x)
  then have "map_of xs q = None" using Cons.prems by (simp add: map_of_eq_None_iff)
  then show ?case using Cons x by (auto simp: set_member_def split: option.split)
qed simp

lemma materialize_sound:
  assumes "materialize_topic_state ops heads = Ok s"
  shows "materialized (set ops) heads s"
proof -
  obtain z where z: "fold_res materialize_step ops z_empty = Ok z"
    using assms by (auto simp: materialize_topic_state_def rbind_eq_Ok)
  then obtain i topic g where g: "z_genesis z = Some (i, topic, g)"
    using assms by (auto simp: materialize_topic_state_def result_simps)
  have inv: "z_inv (set ops) z" using materialize_loop_inv[OF z_inv_empty z] by simp
  then have "genesis_inv (set ops) (Some (i, topic, g))" by (simp add: z_inv_def g)
  then obtain op where op: "op \<in> set ops" "o_id op = i" "b_topic_id (body op) = topic" "b_payload (body op) = Genesis g"
    "\<forall>q \<in> set ops. \<forall>g'. b_payload (body q) = Genesis g' \<longrightarrow> o_id q = i"
    by (auto simp: genesis_inv_def)
  have "\<forall>q \<in> set ops. b_topic_id (body q) = b_topic_id (body op)"
    using inv op(1) unfolding z_inv_def by (metis option.inject)
  then have gen: "genesis_op (set ops) op g" using op unfolding genesis_op_def by blast
  have s: "s = \<lparr>t_topic_id = topic, t_event_type_id = g_event_type_id g, t_genesis = i, t_heads = heads,
        t_members = fold (\<lambda>(peer, (_, is_member)). set_member is_member peer) (iter_map (z_controls z)) (g_initial_peers g),
        t_replication_policy = (case z_policy z of None \<Rightarrow> g_replication_policy g | Some (_, policy) \<Rightarrow> policy),
        t_membership_controls = z_controls z, t_policy_control = z_policy z\<rparr>"
    using assms z g by (simp add: materialize_topic_state_def ok_or_def)
  have "members_ok (g_initial_peers g) (t_membership_controls s) (t_members s)"
    unfolding members_ok_def s by (simp add: fold_set_member[OF distinct_iter_map])
  moreover have "\<forall>p. is_latest (member_offers (set ops) p) (fmlookup (t_membership_controls s) p)"
    "is_latest (policy_offers (set ops)) (t_policy_control s)"
    using inv by (simp_all add: s z_inv_def)
  ultimately show ?thesis
    unfolding materialized_def using gen op(2,3) by (auto simp: s)
qed

lemma materialize_complete:
  assumes inj: "inj_on o_id (set ops)" and m: "materialized (set ops) heads s"
  shows "materialize_topic_state ops heads = Ok s"
proof -
  obtain op g where g: "genesis_op (set ops) op g" using m by (auto simp: materialized_def)
  obtain z where z: "fold_res materialize_step ops z_empty = Ok z"
    using materialize_loop_total[OF z_inv_empty, of ops] compatible_genesis[OF g] by auto
  have "z_inv (set ops) z" using materialize_loop_inv[OF z_inv_empty z] by simp
  moreover have "\<not> genesis_inv (set ops) None" using g by (auto simp: genesis_inv_def genesis_op_def simp del: split_paired_All)
  ultimately have "z_genesis z \<noteq> None" by (metis z_inv_def)
  then obtain s' where s': "materialize_topic_state ops heads = Ok s'"
    using z by (auto simp: materialize_topic_state_def ok_or_def split: option.splits)
  then show ?thesis using materialized_unique[OF inj m materialize_sound[OF s']] by simp
qed

section \<open>Incremental application and merge\<close>

lemma apply_membership_fields [simp]:
  "t_genesis (apply_membership p k b s) = t_genesis s" "t_heads (apply_membership p k b s) = t_heads s"
  "t_topic_id (apply_membership p k b s) = t_topic_id s" "t_event_type_id (apply_membership p k b s) = t_event_type_id s"
  "t_policy_control (apply_membership p k b s) = t_policy_control s"
  "t_replication_policy (apply_membership p k b s) = t_replication_policy s"
  by (simp_all add: apply_membership_def split: prod.split bool.split)

lemma apply_membership_controls:
  "fmlookup (t_membership_controls (apply_membership p k b s)) q =
    (if q = p then offer_control k b (fmlookup (t_membership_controls s) p) else fmlookup (t_membership_controls s) q)"
  by (auto simp: apply_membership_def set_membership_control_def offer_control_def split: option.splits)

lemma apply_membership_members:
  "members_ok i (t_membership_controls s) (t_members s) \<Longrightarrow>
    members_ok i (t_membership_controls (apply_membership p k b s)) (t_members (apply_membership p k b s))"
  by (auto simp: members_ok_def apply_membership_def set_membership_control_def set_member_def split: option.splits if_splits)

lemma apply_policy_fields [simp]:
  "t_genesis (apply_policy k pol s) = t_genesis s" "t_heads (apply_policy k pol s) = t_heads s"
  "t_topic_id (apply_policy k pol s) = t_topic_id s" "t_event_type_id (apply_policy k pol s) = t_event_type_id s"
  "t_membership_controls (apply_policy k pol s) = t_membership_controls s"
  "t_members (apply_policy k pol s) = t_members s"
  "t_policy_control (apply_policy k pol s) = offer_control k pol (t_policy_control s)"
  by (simp_all add: apply_policy_def policy_offer[symmetric])

lemma apply_policy_policy:
  "t_replication_policy s = (case t_policy_control s of None \<Rightarrow> d | Some (_, pol) \<Rightarrow> pol) \<Longrightarrow>
    t_replication_policy (apply_policy k pol s) =
      (case t_policy_control (apply_policy k pol s) of None \<Rightarrow> d | Some (_, pol) \<Rightarrow> pol)"
  by (auto simp: apply_policy_def newer_policy_def offer_control_def split: option.splits)

text \<open>A change of the registers and of what follows from them that fits a larger set of operations.\<close>

lemma materialized_grow:
  assumes s: "materialized S h s" and T: "genesis_op T op0 g0" and sub: "S \<subseteq> T"
    and inj: "inj_on o_id T"
    and same: "t_genesis s' = t_genesis s" "t_heads s' = h" "t_topic_id s' = t_topic_id s" "t_event_type_id s' = t_event_type_id s"
    and mem: "\<And>i. members_ok i (t_membership_controls s) (t_members s) \<Longrightarrow> members_ok i (t_membership_controls s') (t_members s')"
    and pol: "\<And>d. t_replication_policy s = (case t_policy_control s of None \<Rightarrow> d | Some (_, pol) \<Rightarrow> pol) \<Longrightarrow>
       t_replication_policy s' = (case t_policy_control s' of None \<Rightarrow> d | Some (_, pol) \<Rightarrow> pol)"
    and off: "\<And>p. is_latest (member_offers T p) (fmlookup (t_membership_controls s') p)"
      "is_latest (policy_offers T) (t_policy_control s')"
  shows "materialized T h s'"
proof -
  obtain op g where op: "genesis_op S op g" "t_genesis s = o_id op" "t_topic_id s = b_topic_id (body op)"
    "t_event_type_id s = g_event_type_id g" "members_ok (g_initial_peers g) (t_membership_controls s) (t_members s)"
    "t_replication_policy s = (case t_policy_control s of None \<Rightarrow> g_replication_policy g | Some (_, pol) \<Rightarrow> pol)"
    using s by (auto simp: materialized_def)
  have "op \<in> T" "b_payload (body op) = Genesis g" using op(1) sub unfolding genesis_op_def by blast+
  then have "o_id op = o_id op0" and in0: "op0 \<in> T" using T unfolding genesis_op_def by blast+
  then have "op = op0" using inj_onD[OF inj] \<open>op \<in> T\<close> by blast
  then have "genesis_op T op g" using T \<open>b_payload (body op) = Genesis g\<close> unfolding genesis_op_def by blast
  then show ?thesis
    unfolding materialized_def using same op(2-4) mem[OF op(5)] pol[OF op(6)] off by auto
qed

lemma genesis_op_insert:
  assumes "genesis_op S op0 g" "b_topic_id (body op) = b_topic_id (body op0)" "\<And>g. b_payload (body op) \<noteq> Genesis g"
  shows "genesis_op (insert op S) op0 g"
  using assms unfolding genesis_op_def by (metis insert_iff)

lemma apply_control_materialized:
  assumes s: "materialized S h s" and inj: "inj_on o_id (insert op S)"
    and op: "b_topic_id (body op) = t_topic_id s" "b_payload (body op) = Control c"
  shows "materialized (insert op S) h (apply_control s op c)"
proof -
  obtain op0 g where g: "genesis_op S op0 g" "t_topic_id s = b_topic_id (body op0)"
    using s by (auto simp: materialized_def)
  have T: "genesis_op (insert op S) op0 g" by (rule genesis_op_insert[OF g(1)]) (simp_all add: op g(2))
  have m: "is_latest (member_offers S p) (fmlookup (t_membership_controls s) p)" for p
    using s by (simp add: materialized_def)
  have pol: "is_latest (policy_offers S) (t_policy_control s)" using s by (simp add: materialized_def)
  have h: "t_heads s = h" using s by (simp add: materialized_def)
  show ?thesis
  proof (rule materialized_grow[OF s T _ inj])
    show "is_latest (member_offers (insert op S) p) (fmlookup (t_membership_controls (apply_control s op c)) p)" for p
      using m[of p] reg.offer_latest[OF m[of p], of "control_key op"]
      by (cases c) (auto simp: member_offers_insert op apply_control_def apply_membership_controls)
    show "is_latest (policy_offers (insert op S)) (t_policy_control (apply_control s op c))"
      using pol reg.offer_latest[OF pol, of "control_key op"]
      by (cases c) (auto simp: policy_offers_insert op apply_control_def)
    show "members_ok i (t_membership_controls (apply_control s op c)) (t_members (apply_control s op c))"
      if "members_ok i (t_membership_controls s) (t_members s)" for i
      using apply_membership_members[OF that] that by (cases c) (simp_all add: apply_control_def)
    show "t_replication_policy (apply_control s op c) =
        (case t_policy_control (apply_control s op c) of None \<Rightarrow> d | Some (_, pol) \<Rightarrow> pol)"
      if "t_replication_policy s = (case t_policy_control s of None \<Rightarrow> d | Some (_, pol) \<Rightarrow> pol)" for d
      using apply_policy_policy[OF that] that by (cases c) (simp_all add: apply_control_def)
  qed (use h in \<open>cases c; auto simp: apply_control_def\<close>)+
qed

lemma is_latest_merge_same: "is_latest S r \<Longrightarrow> is_latest T r \<Longrightarrow> is_latest (S \<union> T) r"
  by (auto simp: is_latest_def split: option.splits)

lemma member_offers_Un: "member_offers (S \<union> T) p = member_offers S p \<union> member_offers T p"
  unfolding member_offers_def by blast

lemma policy_offers_Un: "policy_offers (S \<union> T) = policy_offers S \<union> policy_offers T"
  unfolding policy_offers_def by blast

abbreviation merge_members :: "(peer_id \<times> control_key \<times> bool) list \<Rightarrow> topic_state \<Rightarrow> topic_state" where
  "merge_members \<equiv> fold (\<lambda>(peer, (key, member)). apply_membership peer key member)"

lemma merge_members_fields [simp]:
  "t_genesis (merge_members xs s) = t_genesis s" "t_heads (merge_members xs s) = t_heads s"
  "t_topic_id (merge_members xs s) = t_topic_id s" "t_event_type_id (merge_members xs s) = t_event_type_id s"
  "t_policy_control (merge_members xs s) = t_policy_control s"
  "t_replication_policy (merge_members xs s) = t_replication_policy s"
  by (induction xs arbitrary: s) auto

lemma merge_members_members:
  "members_ok i (t_membership_controls s) (t_members s) \<Longrightarrow>
    members_ok i (t_membership_controls (merge_members xs s)) (t_members (merge_members xs s))"
  by (induction xs arbitrary: s) (auto intro: apply_membership_members)

lemma merge_members_controls:
  assumes "distinct (map fst xs)"
  shows "fmlookup (t_membership_controls (merge_members xs s)) q =
    (case map_of xs q of
       None \<Rightarrow> fmlookup (t_membership_controls s) q
     | Some (k, b) \<Rightarrow> offer_control k b (fmlookup (t_membership_controls s) q))"
  using assms
proof (induction xs arbitrary: s)
  case (Cons x xs)
  obtain p k b where x: "x = (p, k, b)" by (cases x)
  then have "map_of xs p = None" using Cons.prems by (simp add: map_of_eq_None_iff)
  then show ?case using Cons x by (auto simp: apply_membership_controls split: option.split)
qed simp

lemma merge_state_materialized:
  assumes s: "materialized S h s" and t: "materialized T h' t" and same: "t_genesis s = t_genesis t"
    and inj: "inj_on o_id (S \<union> T)"
  obtains m where "merge_state s t = Ok m" "materialized (S \<union> T) h m"
proof -
  obtain op g where g: "genesis_op S op g" "t_genesis s = o_id op" using s by (auto simp: materialized_def)
  obtain op' g' where g': "genesis_op T op' g'" "t_genesis t = o_id op'" using t by (auto simp: materialized_def)
  have "op \<in> S \<union> T" "op' \<in> S \<union> T" using g(1) g'(1) unfolding genesis_op_def by blast+
  then have "op' = op" using inj_onD[OF inj, of op' op] g(2) g'(2) same by simp
  then have T: "genesis_op (S \<union> T) op g" using g(1) g'(1) unfolding genesis_op_def by (metis Un_iff)
  have ms: "is_latest (member_offers S p) (fmlookup (t_membership_controls s) p)" for p
    using s by (simp add: materialized_def)
  have mt: "is_latest (member_offers T p) (fmlookup (t_membership_controls t) p)" for p
    using t by (simp add: materialized_def)
  have ps: "is_latest (policy_offers S) (t_policy_control s)" using s by (simp add: materialized_def)
  have pt: "is_latest (policy_offers T) (t_policy_control t)" using t by (simp add: materialized_def)
  have h: "t_heads s = h" using s by (simp add: materialized_def)
  show thesis
  proof (cases "s = t")
    case True
    have "materialized (S \<union> T) h s"
      by (rule materialized_grow[OF s T _ inj])
        (use True ms mt ps pt h in \<open>auto simp: member_offers_Un policy_offers_Un intro: is_latest_merge_same\<close>)
    then show thesis using that[of s] True by (simp add: merge_state_def)
  next
    case False
    define c where "c = merge_members (iter_map (t_membership_controls t)) s"
    define m where "m = (case t_policy_control t of None \<Rightarrow> c | Some (key, policy) \<Rightarrow> apply_policy key policy c)"
    have ctl: "t_membership_controls m = t_membership_controls c" "t_members m = t_members c"
      "t_genesis m = t_genesis s" "t_heads m = h" "t_topic_id m = t_topic_id s" "t_event_type_id m = t_event_type_id s"
      by (simp_all add: m_def c_def h split: option.split)
    have pc: "t_policy_control m = (case t_policy_control t of None \<Rightarrow> t_policy_control s
        | Some (k, pol) \<Rightarrow> offer_control k pol (t_policy_control s))"
      by (simp add: m_def c_def split: option.split)
    have "materialized (S \<union> T) h m"
    proof (rule materialized_grow[OF s T _ inj])
      show "is_latest (member_offers (S \<union> T) p) (fmlookup (t_membership_controls m) p)" for p
        using reg.merge_latest[OF ms mt, of p p]
        by (simp add: ctl c_def merge_members_controls member_offers_Un)
      show "is_latest (policy_offers (S \<union> T)) (t_policy_control m)"
        using reg.merge_latest[OF ps pt] by (simp add: pc policy_offers_Un)
      show "members_ok i (t_membership_controls m) (t_members m)"
        if "members_ok i (t_membership_controls s) (t_members s)" for i
        using merge_members_members[OF that] by (simp add: ctl c_def)
      show "t_replication_policy m = (case t_policy_control m of None \<Rightarrow> d | Some (_, pol) \<Rightarrow> pol)"
        if "t_replication_policy s = (case t_policy_control s of None \<Rightarrow> d | Some (_, pol) \<Rightarrow> pol)" for d
        using that apply_policy_policy[of c d] by (simp add: m_def c_def split: option.split)
    qed (use ctl in auto)
    moreover have "merge_state s t = Ok m"
      using False same unfolding merge_state_def Let_def m_def c_def by simp
    ultimately show thesis using that by blast
  qed
qed

lemma merge_loop:
  assumes "\<And>i. i \<in> set ds \<Longrightarrow> fmlookup projections i = Some (st i) \<and> materialized (H i) (heads i) (st i) \<and> t_genesis (st i) = g"
    and "materialized S h s" "t_genesis s = g" and "inj_on o_id (S \<union> (\<Union>i \<in> set ds. H i))"
  shows "\<exists>m. fold_res (\<lambda>i merged.
        rbind (ok_or (fmlookup projections i) (MissingDependency i)) (\<lambda>incoming.
          case merged of
            None \<Rightarrow> Ok (Some incoming)
          | Some current \<Rightarrow> rbind (merge_state current incoming) (\<lambda>s. Ok (Some s)))) ds (Some s) = Ok (Some m) \<and>
      materialized (S \<union> (\<Union>i \<in> set ds. H i)) h m"
  using assms
proof (induction ds arbitrary: S s)
  case (Cons d ds)
  have d: "fmlookup projections d = Some (st d)" "materialized (H d) (heads d) (st d)" "t_genesis (st d) = g"
    using Cons.prems(1)[of d] by simp_all
  have "inj_on o_id (S \<union> H d)" using Cons.prems(4) by (rule inj_on_subset) auto
  then obtain m where m: "merge_state s (st d) = Ok m" "materialized (S \<union> H d) h m"
    using merge_state_materialized[OF Cons.prems(2) d(2)] Cons.prems(3) d(3) by auto
  have "t_genesis m = g"
  proof -
    have "t_genesis m = t_genesis s"
      using m(1) by (auto simp: merge_state_def Let_def split: if_splits option.splits)
    then show ?thesis using Cons.prems(3) by simp
  qed
  moreover have "inj_on o_id ((S \<union> H d) \<union> (\<Union>i \<in> set ds. H i))"
    using Cons.prems(4) by (rule inj_on_subset) auto
  ultimately show ?case
    using Cons.IH[OF _ m(2)] Cons.prems(1) m(1) d(1) by (simp add: ok_or_def Un_assoc)
qed auto

section \<open>Properties\<close>

text \<open>
  C25: the state a history materializes does not depend on the order or repetition of its
  operations: any other list of the same operations, whose ids are distinct, gives the same state.
\<close>

theorem materialize_order_irrelevant:
  assumes "inj_on o_id (set ops)" and "set ops' = set ops" and "materialize_topic_state ops heads = Ok s"
  shows "materialize_topic_state ops' heads = Ok s"
  using materialize_complete[of ops'] materialize_sound[OF assms(3)] assms(1,2) by simp

definition sample_history :: "operation list" where
  "sample_history =
    [sample_op (ident 1) 1 None {||} 0 sample_genesis_payload,
     sample_op (ident 2) 2 (Some (ident 1)) {|ident 1|} 1 (Control (AddPeer (ident 20))),
     sample_op (ident 3) 3 (Some (ident 2)) {|ident 2|} 2 (Control (RemovePeer (ident 20)))]"

lemma sample_history_inj: "inj_on o_id (set sample_history)"
  by (simp add: sample_history_def sample_op_def)

theorem materialize_order_irrelevant_witness:
  "\<exists>s. materialize_topic_state sample_history {|ident 3|} = Ok s \<and>
    materialize_topic_state (rev sample_history) {|ident 3|} = Ok s \<and> ident 20 |\<notin>| t_members s \<and> ident 7 |\<in>| t_members s"
proof -
  obtain s where s: "materialize_topic_state sample_history {|ident 3|} = Ok s"
    and m: "ident 20 |\<notin>| t_members s" "ident 7 |\<in>| t_members s"
  proof -
    have "case materialize_topic_state sample_history {|ident 3|} of
        Inl _ \<Rightarrow> False | Inr s \<Rightarrow> \<not> ident 20 |\<in>| t_members s \<and> ident 7 |\<in>| t_members s" by code_simp
    then show thesis using that by (auto split: sum.splits)
  qed
  from materialize_order_irrelevant[OF sample_history_inj _ s, of "rev sample_history"] s m
  show ?thesis by auto
qed

text \<open>
  C26: applying one control to a materialized state is replaying the history with that control
  appended, whatever position its key has among the controls already applied.
\<close>

theorem apply_control_is_replay:
  assumes "inj_on o_id (set (ops @ [op]))" and "materialize_topic_state ops heads = Ok s"
    and "b_topic_id (body op) = t_topic_id s" and "b_payload (body op) = Control c"
  shows "materialize_topic_state (ops @ [op]) heads = Ok (apply_control s op c)"
  using apply_control_materialized[OF materialize_sound[OF assms(2)] _ assms(3,4)] assms(1)
  by (intro materialize_complete) simp_all

theorem apply_control_is_replay_witness:
  "let ops = take 2 sample_history; op = sample_history ! 2
   in \<exists>s. materialize_topic_state ops {||} = Ok s \<and>
     materialize_topic_state (ops @ [op]) {||} = Ok (apply_control s op (RemovePeer (ident 20)))"
proof -
  let ?ops = "take 2 sample_history" and ?op = "sample_history ! 2"
  obtain s where s: "materialize_topic_state ?ops {||} = Ok s" and t: "t_topic_id s = ident 100"
  proof -
    have "case materialize_topic_state ?ops {||} of Inl _ \<Rightarrow> False | Inr s \<Rightarrow> t_topic_id s = ident 100" by code_simp
    then show thesis using that by (auto split: sum.splits)
  qed
  have "materialize_topic_state (?ops @ [?op]) {||} = Ok (apply_control s ?op (RemovePeer (ident 20)))"
    by (rule apply_control_is_replay[OF _ s])
      (simp_all add: t sample_history_def sample_op_def sample_body_def)
  with s show ?thesis by (auto simp: Let_def)
qed

text \<open>
  C27: merging the projections of several dependencies of one genesis is replaying the union of
  their histories: the merge succeeds and its state is what any listing of the union materializes.
\<close>

theorem merge_states_is_union_replay:
  assumes "deps \<noteq> {||}"
    and "\<And>i. i |\<in>| deps \<Longrightarrow> fmlookup projections i = Some (st i) \<and>
      materialize_topic_state (hist i) (heads i) = Ok (st i) \<and> t_genesis (st i) = g"
    and "set ops = (\<Union>i \<in> fset deps. set (hist i))" and "inj_on o_id (set ops)"
  shows "\<exists>m. merge_states deps projections = Ok m \<and> materialize_topic_state ops (t_heads m) = Ok m"
proof -
  obtain d ds where ds: "iter_set deps = d # ds"
    using assms(1) by (cases "iter_set deps") (auto simp: iter_set_def dest: arg_cong[where f = set])
  then have set: "fset deps = insert d (set ds)" using set_iter_set[of deps] by simp
  have st: "fmlookup projections i = Some (st i) \<and> materialized (set (hist i)) (heads i) (st i) \<and> t_genesis (st i) = g"
    if "i \<in> insert d (set ds)" for i
    using assms(2)[of i] that materialize_sound set by auto
  have U: "set (hist d) \<union> (\<Union>i \<in> set ds. set (hist i)) = set ops" using assms(3) set by simp
  obtain m where m: "fold_res (\<lambda>i merged.
        rbind (ok_or (fmlookup projections i) (MissingDependency i)) (\<lambda>incoming.
          case merged of
            None \<Rightarrow> Ok (Some incoming)
          | Some current \<Rightarrow> rbind (merge_state current incoming) (\<lambda>s. Ok (Some s)))) ds (Some (st d)) = Ok (Some m)"
    "materialized (set ops) (heads d) m"
    using merge_loop[of ds projections st "\<lambda>i. set (hist i)" heads g "set (hist d)" "heads d" "st d"] st U assms(4)
    by auto
  have "merge_states deps projections = Ok m"
    using st[of d] m(1) by (simp add: merge_states_def ds ok_or_def)
  moreover have "t_heads m = heads d" using m(2) by (simp add: materialized_def)
  ultimately show ?thesis using materialize_complete[OF assms(4) m(2)] by auto
qed

theorem merge_states_is_union_replay_witness:
  "\<exists>s t m. materialize_topic_state (take 2 sample_history) {|ident 2|} = Ok s \<and>
     materialize_topic_state sample_history {|ident 3|} = Ok t \<and>
     merge_states {|ident 2, ident 3|} (fmupd (ident 2) s (fmupd (ident 3) t fmempty)) = Ok m \<and>
     materialize_topic_state sample_history (t_heads m) = Ok m"
proof -
  let ?a = "take 2 sample_history" and ?b = sample_history
  obtain s where s: "materialize_topic_state ?a {|ident 2|} = Ok s" and gs: "t_genesis s = ident 1"
  proof -
    have "case materialize_topic_state ?a {|ident 2|} of Inl _ \<Rightarrow> False | Inr s \<Rightarrow> t_genesis s = ident 1" by code_simp
    then show thesis using that by (auto split: sum.splits)
  qed
  obtain t where t: "materialize_topic_state ?b {|ident 3|} = Ok t" and gt: "t_genesis t = ident 1"
  proof -
    have "case materialize_topic_state ?b {|ident 3|} of Inl _ \<Rightarrow> False | Inr s \<Rightarrow> t_genesis s = ident 1" by code_simp
    then show thesis using that by (auto split: sum.splits)
  qed
  let ?p = "fmupd (ident 2) s (fmupd (ident 3) t fmempty)"
  have "\<exists>m. merge_states {|ident 2, ident 3|} ?p = Ok m \<and> materialize_topic_state ?b (t_heads m) = Ok m"
    by (rule merge_states_is_union_replay[of _ _ "\<lambda>i. if i = ident 2 then s else t"
          "\<lambda>i. if i = ident 2 then ?a else ?b" "\<lambda>i. {|i|}" "ident 1"])
      (use s t gs gt sample_history_inj in \<open>auto simp: dest: in_set_takeD\<close>)
  with s t show ?thesis by blast
qed

end
