(* ===== verification/Evidence.thy ===== *)
theory Evidence
  imports Records
begin

text \<open>
  Branch evidence, obligations and peer status (\<open>storage/evidence.rs\<close>), with the branch checks of
  \<open>storage/mod.rs\<close>: what an acknowledgement covers and settles, how obligations and acknowledgements
  merge, and how attempt outcomes fold into a peer's status.
\<close>

section \<open>Acknowledgements and obligations\<close>

record peer_ack =
  ack_peer_id :: peer_id
  ack_topic_id :: topic_id
  ack_genesis :: "op_id option"
  ack_heads :: "op_id btree_set"
  ack_clock :: actor_clock

definition MAX_REPAIR_IDS :: nat where
  "MAX_REPAIR_IDS = 4096"

definition obligation_clock :: "peer_id \<Rightarrow> topic_id \<Rightarrow> actor_clock \<Rightarrow> sync_obligation" where
  "obligation_clock peer topic clock = \<lparr>ob_peer_id = peer, ob_topic_id = topic, ob_target = ClockTarget clock\<rparr>"

definition obligation_repair :: "peer_id \<Rightarrow> topic_id \<Rightarrow> op_id btree_set \<Rightarrow> sync_obligation" where
  "obligation_repair peer topic ids = \<lparr>ob_peer_id = peer, ob_topic_id = topic, ob_target = RepairTarget ids\<rparr>"

definition obligation_is_empty :: "sync_obligation \<Rightarrow> bool" where
  "obligation_is_empty ob =
    (case ob_target ob of
       ClockTarget clock \<Rightarrow> clock_is_empty clock
     | RepairTarget ids \<Rightarrow> ids = {||})"

definition ack_covers :: "peer_ack option \<Rightarrow> op_id option \<Rightarrow> sync_obligation \<Rightarrow> bool" where
  "ack_covers ack genesis ob =
    (case ob_target ob of
       RepairTarget _ \<Rightarrow> False
     | ClockTarget target \<Rightarrow>
         genesis \<noteq> None \<and>
         (case ack of None \<Rightarrow> False
          | Some a \<Rightarrow> ack_genesis a = genesis \<and> clock_dominates (ack_clock a) target))"

definition merged_obligation :: "sync_obligation option \<Rightarrow> sync_obligation \<Rightarrow> sync_obligation result" where
  "merged_obligation existing incoming =
    (if (case ob_target incoming of RepairTarget ids \<Rightarrow> fcard ids > MAX_REPAIR_IDS | _ \<Rightarrow> False)
     then Err (Storage ''repair obligation exceeds its id limit'')
     else case existing of
       None \<Rightarrow> Ok incoming
     | Some merged \<Rightarrow>
         (case (ob_target merged, ob_target incoming) of
            (ClockTarget stored, ClockTarget clock) \<Rightarrow>
              Ok (merged\<lparr>ob_target := ClockTarget (clock_merge stored clock)\<rparr>)
          | (RepairTarget stored, RepairTarget ids) \<Rightarrow>
              let stored' = stored |\<union>| ids
              in if fcard stored' > MAX_REPAIR_IDS
                 then Err (Storage ''repair obligation exceeds its id limit'')
                 else Ok (merged\<lparr>ob_target := RepairTarget stored'\<rparr>)
          | _ \<Rightarrow> Err (Storage ''obligation kinds differ under one key'')))"

text \<open>The lookup \<open>meta\<close> resolves the position of a repair id and may fail.\<close>

definition settled_obligation ::
  "sync_obligation \<Rightarrow> peer_ack \<Rightarrow> (op_id \<Rightarrow> op_position option result) \<Rightarrow> sync_obligation option result" where
  "settled_obligation ob ack meta =
    rbind (case ob_target ob of
       ClockTarget target \<Rightarrow>
         Ok (ClockTarget (fold (\<lambda>(actor, seq) rest.
            if clock_get (ack_clock ack) actor < seq then clock_observe rest actor seq else rest)
            (clock_iter target) clock_new))
     | RepairTarget ids \<Rightarrow>
         rbind (fold_res (\<lambda>i rest.
            rbind (if i |\<in>| ack_heads ack then Ok True
                   else rbind (meta i) (\<lambda>pos. Ok (case pos of
                     None \<Rightarrow> False
                   | Some p \<Rightarrow> p_topic_id p = ob_topic_id ob \<and>
                       clock_get (ack_clock ack) (p_actor_id p) \<ge> p_actor_seq p))) (\<lambda>covered.
            Ok (if covered then rest else finsert i rest))) (iter_set ids) {||})
         (\<lambda>rest. Ok (RepairTarget rest)))
     (\<lambda>target. let rest = ob\<lparr>ob_target := target\<rparr>
       in Ok (if obligation_is_empty rest then None else Some rest))"

section \<open>Peer status\<close>

datatype sync_peer_state = Idle | Healthy | Behind | Failed

record sync_peer_status =
  st_peer_id :: peer_id
  st_topic_id :: topic_id
  st_state :: sync_peer_state
  st_pending_obligations :: nat
  st_failed_attempts :: u64
  st_successful_attempts :: u64
  st_last_attempt_ms :: "u64 option"
  st_last_success_ms :: "u64 option"
  st_last_error :: "string option"
  st_latest_attempt :: "(u64 \<times> u64) option"
  st_recent_attempts :: "(u64 \<times> u64) list"

definition MAX_RECENT_ATTEMPTS :: nat where
  "MAX_RECENT_ATTEMPTS = 32"

datatype sync_state_update = Keep | SetState sync_peer_state | BehindUnlessFailed

record sync_status_update =
  up_successful_attempts :: u64
  up_failed_attempts :: u64
  up_state :: sync_state_update
  up_pending_obligations :: "nat option"
  up_last_attempt_ms :: "u64 option"
  up_last_success_ms :: "u64 option"
  up_last_error :: "string option option"
  up_expected_attempts :: "u64 option"
  up_attempt :: "(u64 \<times> u64) option"

definition stale_outcome :: "sync_peer_status \<Rightarrow> sync_status_update \<Rightarrow> bool" where
  "stale_outcome status update =
    (case up_last_attempt_ms update of
       None \<Rightarrow> False
     | Some attempt_ms \<Rightarrow>
         (case st_last_attempt_ms status of None \<Rightarrow> False | Some newest \<Rightarrow> attempt_ms < newest) \<or>
         (up_failed_attempts update > 0 \<and> up_successful_attempts update = 0 \<and>
          (case st_last_success_ms status of None \<Rightarrow> False | Some ok_ms \<Rightarrow> attempt_ms \<le> ok_ms)))"

definition newest_ms :: "u64 option \<Rightarrow> u64 option \<Rightarrow> u64 option" where
  "newest_ms stored update =
    (case update of
       None \<Rightarrow> stored
     | Some ms \<Rightarrow> Some (max (case stored of None \<Rightarrow> ms | Some s \<Rightarrow> s) ms))"

text \<open>\<open>recent_attempts.push\<close>, sort, and dropping the excess from the front.\<close>

definition remember_attempt :: "(u64 \<times> u64) \<Rightarrow> (u64 \<times> u64) list \<Rightarrow> (u64 \<times> u64) list" where
  "remember_attempt attempt recent =
    (let sorted = sort (recent @ [attempt])
     in drop (length sorted - MAX_RECENT_ATTEMPTS) sorted)"

definition count_attempts :: "sync_status_update \<Rightarrow> sync_peer_status \<Rightarrow> sync_peer_status" where
  "count_attempts update status =
    status\<lparr>st_successful_attempts := saturating_add (st_successful_attempts status) (up_successful_attempts update),
      st_failed_attempts := saturating_add (st_failed_attempts status) (up_failed_attempts update),
      st_last_attempt_ms := newest_ms (st_last_attempt_ms status) (up_last_attempt_ms update),
      st_last_success_ms := newest_ms (st_last_success_ms status) (up_last_success_ms update)\<rparr>"

definition install_gauges :: "sync_status_update \<Rightarrow> sync_peer_status \<Rightarrow> sync_peer_status" where
  "install_gauges update status =
    status\<lparr>st_pending_obligations := (case up_pending_obligations update of
        None \<Rightarrow> st_pending_obligations status | Some pending \<Rightarrow> pending),
      st_last_error := (case up_last_error update of None \<Rightarrow> st_last_error status | Some e \<Rightarrow> e),
      st_state := (case up_state update of
        Keep \<Rightarrow> st_state status
      | SetState state \<Rightarrow> state
      | BehindUnlessFailed \<Rightarrow> if st_state status \<noteq> Failed then Behind else st_state status)\<rparr>"

definition apply_status_update :: "sync_peer_status \<Rightarrow> sync_status_update \<Rightarrow> bool \<times> sync_peer_status" where
  "apply_status_update status update =
    (let attempts = saturating_add (st_successful_attempts status) (st_failed_attempts status);
         expected = (case up_expected_attempts update of None \<Rightarrow> True | Some want \<Rightarrow> want = attempts)
     in case (case up_attempt update of
          Some attempt \<Rightarrow>
            if st_latest_attempt status = Some attempt \<or> attempt \<in> set (st_recent_attempts status) then None
            else
              let status = status\<lparr>st_recent_attempts := remember_attempt attempt (st_recent_attempts status)\<rparr>;
                  current = (expected \<and>
                    (case st_latest_attempt status of None \<Rightarrow> True | Some latest \<Rightarrow> attempt > latest))
              in Some (current, if current then status\<lparr>st_latest_attempt := Some attempt\<rparr> else status)
        | None \<Rightarrow> Some (expected \<and> \<not> stale_outcome status update, status)) of
          None \<Rightarrow> (False, status)
        | Some (current, status) \<Rightarrow>
            let counted = (up_successful_attempts update > 0 \<or> up_failed_attempts update > 0 \<or> up_attempt update \<noteq> None);
                status = count_attempts update status
            in if \<not> current then (counted, status) else (True, install_gauges update status))"

definition new_peer_status :: "peer_id \<Rightarrow> topic_id \<Rightarrow> sync_peer_status" where
  "new_peer_status peer topic =
    \<lparr>st_peer_id = peer, st_topic_id = topic, st_state = Idle, st_pending_obligations = 0,
     st_failed_attempts = 0, st_successful_attempts = 0, st_last_attempt_ms = None,
     st_last_success_ms = None, st_last_error = None, st_latest_attempt = None, st_recent_attempts = []\<rparr>"

section \<open>Branches\<close>

definition ack_reached_op :: "peer_ack \<Rightarrow> op_id \<Rightarrow> op_id \<Rightarrow> op_position \<Rightarrow> bool" where
  "ack_reached_op ack genesis i position \<longleftrightarrow>
    ack_genesis ack = Some genesis \<and>
    (i |\<in>| ack_heads ack \<or> clock_get (ack_clock ack) (p_actor_id position) \<ge> p_actor_seq position)"

datatype ack_commit_kind = Certify | Retain

definition ack_commit :: "topic_state option \<Rightarrow> peer_ack \<Rightarrow> ack_commit_kind result" where
  "ack_commit state ack =
    (case state of
       None \<Rightarrow> Ok Retain
     | Some s \<Rightarrow>
         if ack_genesis ack \<noteq> Some (t_genesis s) then Err StaleIncarnation
         else if ack_peer_id ack |\<notin>| t_members s then Err NotTopicMember
         else Ok Certify)"

definition same_incarnation :: "peer_ack \<Rightarrow> peer_ack \<Rightarrow> bool" where
  "same_incarnation existing incoming \<longleftrightarrow>
    ack_peer_id existing = ack_peer_id incoming \<and> ack_topic_id existing = ack_topic_id incoming \<and>
    ack_genesis existing \<noteq> None \<and> ack_genesis existing = ack_genesis incoming"

definition stored_ack_dominates :: "peer_ack \<Rightarrow> peer_ack \<Rightarrow> bool" where
  "stored_ack_dominates existing incoming \<longleftrightarrow>
    same_incarnation existing incoming \<and> clock_dominates (ack_clock existing) (ack_clock incoming)"

definition merged_peer_ack :: "peer_ack \<Rightarrow> peer_ack \<Rightarrow> peer_ack" where
  "merged_peer_ack existing incoming =
    (if same_incarnation existing incoming
     then incoming\<lparr>ack_clock := clock_merge (ack_clock incoming) (ack_clock existing)\<rparr>
     else incoming)"

definition branch_matches :: "topic_state option \<Rightarrow> op_id option \<Rightarrow> unit result" where
  "branch_matches state expected =
    (if map_option t_genesis state = expected then Ok () else Err StaleIncarnation)"

definition peer_departed :: "topic_state option \<Rightarrow> peer_id \<Rightarrow> op_id option \<Rightarrow> bool" where
  "peer_departed state peer expected \<longleftrightarrow>
    branch_matches state expected = Ok () \<and>
    (case state of None \<Rightarrow> True | Some s \<Rightarrow> peer |\<notin>| t_members s)"

text \<open>\<open>TopicEviction::key\<close> and the record a reset must journal.\<close>

definition eviction_record_key :: "(u8 list \<Rightarrow> id32) \<Rightarrow> topic_eviction \<Rightarrow> eviction_key" where
  "eviction_record_key blake3 ev =
    blake3 (as_bytes (v_topic_id ev) @ as_bytes (v_losing_genesis ev) @ as_bytes (v_winning_genesis ev)
      @ concat (map (\<lambda>e. as_bytes (e_op_id e)) (v_evicted ev)))"

definition journalled_eviction ::
  "(u8 list \<Rightarrow> id32) \<Rightarrow> topic_eviction option \<Rightarrow> (eviction_key \<times> topic_eviction) option" where
  "journalled_eviction blake3 eviction =
    (case eviction of
       None \<Rightarrow> None
     | Some ev \<Rightarrow> if v_evicted ev = [] then None else Some (eviction_record_key blake3 ev, ev))"

section \<open>Settling obligations\<close>

lemma clock_is_empty_iff: "clock_is_empty c \<longleftrightarrow> clock_entry c = (\<lambda>_. None)"
proof
  assume e: "clock_entry c = (\<lambda>_. None)"
  show "clock_is_empty c"
  proof (cases "root c")
    case (Some n)
    then have "nkey n \<in> node_actors n" using nkey_in_actors wf_rootD by blast
    then have "node_lookup n (nkey n) \<noteq> None" using actors_lookup[OF wf_rootD[OF Some]] by blast
    then show ?thesis using e Some by (simp add: clock_entry_def fun_eq_iff)
  qed (simp add: clock_is_empty_def)
qed (simp add: clock_is_empty_def clock_entry_def fun_eq_iff)

lemma entry_fold_observe_if:
  assumes "distinct (map fst xs)"
  shows "clock_entry (fold (\<lambda>(actor, seq) rest. if P actor seq then clock_observe rest actor seq else rest) xs acc) x =
    (case map_of xs x of
       Some s \<Rightarrow> if P x s then join_seq (clock_entry acc x) (Some s) else clock_entry acc x
     | None \<Rightarrow> clock_entry acc x)"
  using assms
proof (induction xs arbitrary: acc)
  case (Cons p xs)
  obtain a s where p: "p = (a, s)" by (cases p)
  then have "map_of xs a = None" using Cons.prems by (simp add: map_of_eq_None_iff)
  then show ?case using Cons p by (auto split: option.split)
qed simp

definition clock_rest :: "actor_clock \<Rightarrow> actor_clock \<Rightarrow> actor_id \<Rightarrow> u64 option" where
  "clock_rest target certified x =
    (case clock_entry target x of
       Some s \<Rightarrow> if clock_get certified x < s then Some s else None
     | None \<Rightarrow> None)"

lemma settled_clock:
  assumes "ob_target ob = ClockTarget target"
  obtains rest where "clock_entry rest = clock_rest target (ack_clock ack)"
    and "settled_obligation ob ack meta =
      Ok (if clock_dominates (ack_clock ack) target then None else Some (ob\<lparr>ob_target := ClockTarget rest\<rparr>))"
proof -
  define rest where "rest = fold (\<lambda>(actor, seq) rest.
    if clock_get (ack_clock ack) actor < seq then clock_observe rest actor seq else rest) (clock_iter target) clock_new"
  have e: "clock_entry rest = clock_rest target (ack_clock ack)"
    unfolding rest_def entry_fold_observe_if[OF distinct_iter]
    by (auto simp: fun_eq_iff clock_rest_def entry_map_of[of target] entry_fold_observe_if[OF distinct_iter]
        split: option.splits)
  have "clock_is_empty rest \<longleftrightarrow> (\<forall>x s. clock_entry target x = Some s \<longrightarrow> s \<le> clock_get (ack_clock ack) x)"
    by (auto simp: clock_is_empty_iff e clock_rest_def fun_eq_iff split: option.splits)
      (metis linorder_not_less)+
  also have "\<dots> \<longleftrightarrow> clock_dominates (ack_clock ack) target"
    by (auto simp: dominates_iff clock_get_def[of target] split: option.splits)
  finally show ?thesis
    using that[OF e] assms
    by (simp add: settled_obligation_def Let_def obligation_is_empty_def flip: rest_def)
qed

definition repair_covered :: "sync_obligation \<Rightarrow> peer_ack \<Rightarrow> (op_id \<Rightarrow> op_position option) \<Rightarrow> op_id \<Rightarrow> bool" where
  "repair_covered ob ack pos i \<longleftrightarrow> i |\<in>| ack_heads ack \<or>
    (\<exists>p. pos i = Some p \<and> p_topic_id p = ob_topic_id ob \<and> p_actor_seq p \<le> clock_get (ack_clock ack) (p_actor_id p))"

lemma settled_repair:
  fixes ack :: peer_ack
  assumes "ob_target ob = RepairTarget ids" and "\<And>i. meta i = Ok (pos i)"
  defines "rest \<equiv> ffilter (\<lambda>i. \<not> repair_covered ob ack pos i) ids"
  shows "settled_obligation ob ack meta =
    Ok (if rest = {||} then None else Some (ob\<lparr>ob_target := RepairTarget rest\<rparr>))"
proof -
  have step: "(\<lambda>i rest. rbind (if i |\<in>| ack_heads ack then Ok True
      else rbind (meta i) (\<lambda>pos. Ok (case pos of None \<Rightarrow> False
        | Some p \<Rightarrow> p_topic_id p = ob_topic_id ob \<and> clock_get (ack_clock ack) (p_actor_id p) \<ge> p_actor_seq p)))
      (\<lambda>covered. Ok (if covered then rest else finsert i rest))) =
    (\<lambda>i rest. Ok (if repair_covered ob ack pos i then rest else finsert i rest) :: op_id fset result)"
    by (auto simp: fun_eq_iff repair_covered_def assms(2) split: option.splits)
  have run: "fold (\<lambda>i rest. if repair_covered ob ack pos i then rest else finsert i rest) xs acc =
      acc |\<union>| fset_of_list (filter (\<lambda>i. \<not> repair_covered ob ack pos i) xs)" for xs acc
    by (induction xs arbitrary: acc) auto
  have "fset_of_list (filter (\<lambda>i. \<not> repair_covered ob ack pos i) (iter_set ids)) = rest"
    by (auto simp: rest_def fset_eq_iff fset_of_list_elem)
  then have "fold_res (\<lambda>i rest. Ok (if repair_covered ob ack pos i then rest else finsert i rest) :: op_id fset result)
      (iter_set ids) {||} = Ok rest"
    by (subst fold_res_total[where g = "\<lambda>i rest. if repair_covered ob ack pos i then rest else finsert i rest"])
      (simp_all add: run)
  then show ?thesis
    unfolding settled_obligation_def assms(1) obligation_target.case step
    by (simp add: Let_def obligation_is_empty_def)
qed

section \<open>Remembered attempts\<close>

lemma sorted_remember: "sorted (remember_attempt a recent)"
  by (simp add: remember_attempt_def Let_def sorted_wrt_drop)

lemma length_remember: "length (remember_attempt a recent) \<le> MAX_RECENT_ATTEMPTS"
  by (simp add: remember_attempt_def Let_def)

lemma set_remember: "set (remember_attempt a recent) \<subseteq> insert a (set recent)"
  by (auto simp: remember_attempt_def Let_def dest: in_set_dropD)

lemma attempt_remembered:
  assumes "a \<notin> set recent" "length (filter (\<lambda>b. a < b) recent) < MAX_RECENT_ATTEMPTS"
  shows "a \<in> set (remember_attempt a recent)"
proof -
  let ?xs = "sort (recent @ [a])"
  have "a \<in> set ?xs" by simp
  then obtain ys zs where xs: "?xs = ys @ a # zs" by (meson split_list)
  have "sorted (ys @ a # zs)" using xs by (metis sorted_sort)
  then have ge: "\<forall>b \<in> set zs. a \<le> b" by (simp add: sorted_append)
  have "filter (\<lambda>b. b = a) recent = []" using assms(1) by (auto simp: filter_empty_conv)
  then have "length (filter (\<lambda>b. b = a) ?xs) = 1" by (simp add: filter_sort)
  then have "a \<notin> set zs" unfolding xs by (auto simp: filter_empty_conv)
  with ge have "\<forall>b \<in> set zs. a < b" by (metis order_le_less)
  then have "filter (\<lambda>b. a < b) zs = zs" by (simp add: filter_id_conv)
  moreover have "length (filter (\<lambda>b. a < b) ?xs) = length (filter (\<lambda>b. a < b) recent)"
    by (simp add: filter_sort)
  ultimately have "length zs < MAX_RECENT_ATTEMPTS"
    using assms(2) unfolding xs by simp
  then have "length ?xs - MAX_RECENT_ATTEMPTS \<le> length ys" unfolding xs by simp
  then have "drop (length ?xs - MAX_RECENT_ATTEMPTS) ?xs = drop (length ?xs - MAX_RECENT_ATTEMPTS) ys @ a # zs"
    unfolding xs by simp
  then show ?thesis unfolding remember_attempt_def Let_def by simp
qed

definition status_ok :: "sync_peer_status \<Rightarrow> bool" where
  "status_ok st \<longleftrightarrow> length (st_recent_attempts st) \<le> MAX_RECENT_ATTEMPTS \<and> sorted (st_recent_attempts st)"

lemma install_gauges_fields [simp]:
  "st_recent_attempts (install_gauges u s) = st_recent_attempts s"
  "st_latest_attempt (install_gauges u s) = st_latest_attempt s"
  "st_successful_attempts (install_gauges u s) = st_successful_attempts s"
  "st_failed_attempts (install_gauges u s) = st_failed_attempts s"
  by (simp_all add: install_gauges_def)

lemma count_attempts_fields [simp]:
  "st_recent_attempts (count_attempts u s) = st_recent_attempts s"
  "st_latest_attempt (count_attempts u s) = st_latest_attempt s"
  "st_successful_attempts (count_attempts u s) = saturating_add (st_successful_attempts s) (up_successful_attempts u)"
  "st_failed_attempts (count_attempts u s) = saturating_add (st_failed_attempts s) (up_failed_attempts u)"
  by (simp_all add: count_attempts_def)

lemma le_saturating_add: "a \<le> saturating_add a b"
proof -
  have "unat a < 2 ^ LENGTH('a)" by (rule unsigned_less)
  then have "unat a \<le> 2 ^ LENGTH('a) - 1" by linarith
  then show ?thesis by (simp add: word_le_nat_alt unat_saturating_add)
qed

text \<open>An update either is a repeat, or counts on a status that differs in the attempt fields only.\<close>

lemma apply_status_update_cases:
  assumes "apply_status_update st up = (changed, st')"
  obtains (repeat) "\<not> changed" "st' = st"
  | (counts) st0 current where "st' = (if current then install_gauges up (count_attempts up st0) else count_attempts up st0)"
      "current \<longrightarrow> changed" "status_ok st \<Longrightarrow> status_ok st0"
      "st_successful_attempts st0 = st_successful_attempts st" "st_failed_attempts st0 = st_failed_attempts st"
      "st_state st0 = st_state st"
      "st_latest_attempt st0 = st_latest_attempt st \<or>
        current \<and> (\<exists>a. st_latest_attempt st0 = Some a \<and> (\<forall>b. st_latest_attempt st = Some b \<longrightarrow> b < a))"
proof (cases "up_attempt up")
  case None
  then have "(st' = install_gauges up (count_attempts up st) \<and> changed) \<or> st' = count_attempts up st"
    using assms by (auto simp: apply_status_update_def Let_def split: if_splits)
  then show ?thesis using counts[of True st] counts[of False st] by auto
next
  case (Some a)
  show ?thesis
  proof (cases "st_latest_attempt st = Some a \<or> a \<in> set (st_recent_attempts st)")
    case True
    then show ?thesis using assms Some repeat by (simp add: apply_status_update_def Let_def)
  next
    case False
    let ?r = "st\<lparr>st_recent_attempts := remember_attempt a (st_recent_attempts st)\<rparr>"
    have ok: "status_ok ?r" "status_ok (?r\<lparr>st_latest_attempt := Some a\<rparr>)"
      by (simp_all add: status_ok_def length_remember sorted_remember)
    show ?thesis
    proof (cases "(case up_expected_attempts up of None \<Rightarrow> True
          | Some want \<Rightarrow> want = saturating_add (st_successful_attempts st) (st_failed_attempts st)) \<and>
        (case st_latest_attempt st of None \<Rightarrow> True | Some latest \<Rightarrow> a > latest)")
      case cur: True
      then have "st' = install_gauges up (count_attempts up (?r\<lparr>st_latest_attempt := Some a\<rparr>))" "changed"
        using assms Some False by (simp_all add: apply_status_update_def Let_def)
      then show ?thesis
        using counts[of True "?r\<lparr>st_latest_attempt := Some a\<rparr>"] ok cur by (auto split: option.splits)
    next
      case cur: False
      then have "st' = count_attempts up ?r" using assms Some False by (auto simp: apply_status_update_def Let_def)
      then show ?thesis using counts[of False ?r] ok by simp
    qed
  qed
qed

section \<open>Properties\<close>

text \<open>
  C28: settling drops exactly what the acknowledgement covers. A clock obligation keeps the entries
  above the certified position and disappears exactly when the certified clock dominates its target;
  a repair obligation keeps the ids that are neither acknowledged heads nor at a covered position of
  the same topic.
\<close>

theorem settled_obligation_exact:
  "(ob_target ob = ClockTarget target \<longrightarrow>
     (\<exists>rest. (\<forall>x. clock_entry rest x = (case clock_entry target x of
          Some s \<Rightarrow> if clock_get (ack_clock ack) x < s then Some s else None | None \<Rightarrow> None)) \<and>
        settled_obligation ob ack meta =
          Ok (if clock_dominates (ack_clock ack) target then None else Some (ob\<lparr>ob_target := ClockTarget rest\<rparr>)))) \<and>
   (ob_target ob = RepairTarget ids \<and> (\<forall>i. meta i = Ok (pos i)) \<longrightarrow>
     (let rest = ffilter (\<lambda>i. \<not> repair_covered ob ack pos i) ids
      in settled_obligation ob ack meta =
          Ok (if rest = {||} then None else Some (ob\<lparr>ob_target := RepairTarget rest\<rparr>))))"
proof (intro conjI impI)
  assume "ob_target ob = ClockTarget target"
  then obtain rest where "clock_entry rest = clock_rest target (ack_clock ack)"
    and "settled_obligation ob ack meta =
      Ok (if clock_dominates (ack_clock ack) target then None else Some (ob\<lparr>ob_target := ClockTarget rest\<rparr>))"
    by (rule settled_clock)
  then show "\<exists>rest. (\<forall>x. clock_entry rest x = (case clock_entry target x of
          Some s \<Rightarrow> if clock_get (ack_clock ack) x < s then Some s else None | None \<Rightarrow> None)) \<and>
        settled_obligation ob ack meta =
          Ok (if clock_dominates (ack_clock ack) target then None else Some (ob\<lparr>ob_target := ClockTarget rest\<rparr>))"
    by (intro exI[of _ rest]) (simp add: clock_rest_def)
next
  assume asm: "ob_target ob = RepairTarget ids \<and> (\<forall>i. meta i = Ok (pos i))"
  then have t: "ob_target ob = RepairTarget ids" and m: "\<And>i. meta i = Ok (pos i)" by simp_all
  show "let rest = ffilter (\<lambda>i. \<not> repair_covered ob ack pos i) ids
      in settled_obligation ob ack meta =
          Ok (if rest = {||} then None else Some (ob\<lparr>ob_target := RepairTarget rest\<rparr>))"
    unfolding Let_def by (rule settled_repair[of ob ids meta pos ack, OF t m])
qed

definition sample_ack :: peer_ack where
  "sample_ack = \<lparr>ack_peer_id = ident 7, ack_topic_id = ident 100, ack_genesis = Some (ident 1),
     ack_heads = {|ident 3|}, ack_clock = clock_observe clock_new (ident 9) 4\<rparr>"

theorem settled_obligation_exact_witness:
  "settled_obligation (obligation_clock (ident 7) (ident 100) (clock_observe clock_new (ident 9) 3)) sample_ack (\<lambda>_. Ok None) = Ok None \<and>
   settled_obligation (obligation_repair (ident 7) (ident 100) {|ident 3, ident 4|}) sample_ack (\<lambda>_. Ok None) =
     Ok (Some (obligation_repair (ident 7) (ident 100) {|ident 4|}))"
proof
  let ?c = "clock_observe clock_new (ident 9) 3"
  have "clock_dominates (ack_clock sample_ack) ?c" by (simp add: dominates_iff sample_ack_def)
  then show "settled_obligation (obligation_clock (ident 7) (ident 100) ?c) sample_ack (\<lambda>_. Ok None) = Ok None"
    using settled_obligation_exact[of "obligation_clock (ident 7) (ident 100) ?c" ?c sample_ack]
    by (auto simp: obligation_clock_def)
  have "ffilter (\<lambda>i. \<not> repair_covered (obligation_repair (ident 7) (ident 100) {|ident 3, ident 4|}) sample_ack (\<lambda>_. None) i)
      {|ident 3, ident 4|} = {|ident 4|}"
    by (auto simp: fset_eq_iff repair_covered_def sample_ack_def)
  then show "settled_obligation (obligation_repair (ident 7) (ident 100) {|ident 3, ident 4|}) sample_ack (\<lambda>_. Ok None) =
      Ok (Some (obligation_repair (ident 7) (ident 100) {|ident 4|}))"
    using settled_obligation_exact[of "obligation_repair (ident 7) (ident 100) {|ident 3, ident 4|}" _ sample_ack
        "\<lambda>_. Ok None" "{|ident 3, ident 4|}" "\<lambda>_. None"]
    by (simp add: obligation_repair_def Let_def)
qed

text \<open>
  C29: merging obligations loses nothing and stays bounded: a certified acknowledgement covers the
  merged clock obligation exactly when it covers both parts, and a merged repair obligation holds
  the ids of both within the id limit.
\<close>

theorem merged_obligation_keeps_both:
  assumes "merged_obligation (Some old) incoming = Ok m"
  shows "(ack_covers ack g m \<longleftrightarrow> ack_covers ack g old \<and> ack_covers ack g incoming) \<and>
    ob_peer_id m = ob_peer_id old \<and> ob_topic_id m = ob_topic_id old \<and>
    (\<forall>ids. ob_target m = RepairTarget ids \<longrightarrow> fcard ids \<le> MAX_REPAIR_IDS \<and>
      (\<exists>a b. ob_target old = RepairTarget a \<and> ob_target incoming = RepairTarget b \<and> ids = a |\<union>| b))"
  using assms
  by (auto simp: merged_obligation_def ack_covers_def Let_def dominates_iff split: if_splits obligation_target.splits option.splits)

theorem merged_obligation_keeps_both_witness:
  "let a = obligation_clock (ident 7) (ident 100) (clock_observe clock_new (ident 9) 3);
       b = obligation_clock (ident 7) (ident 100) (clock_observe clock_new (ident 10) 2)
   in \<exists>m. merged_obligation (Some a) b = Ok m \<and> \<not> ack_covers (Some sample_ack) (Some (ident 1)) m"
proof -
  let ?a = "obligation_clock (ident 7) (ident 100) (clock_observe clock_new (ident 9) 3)"
  let ?b = "obligation_clock (ident 7) (ident 100) (clock_observe clock_new (ident 10) 2)"
  obtain m where m: "merged_obligation (Some ?a) ?b = Ok m"
    by (auto simp: merged_obligation_def obligation_clock_def)
  have "\<not> ack_covers (Some sample_ack) (Some (ident 1)) ?b"
    by (auto simp: ack_covers_def obligation_clock_def sample_ack_def dominates_iff intro!: exI[of _ "ident 10"])
  then show ?thesis
    using merged_obligation_keeps_both[OF m, of "Some sample_ack" "Some (ident 1)"] m by auto
qed


definition sample_update :: sync_status_update where
  "sample_update = \<lparr>up_successful_attempts = 1, up_failed_attempts = 0, up_state = SetState Healthy,
     up_pending_obligations = Some 0, up_last_attempt_ms = Some 5, up_last_success_ms = Some 5,
     up_last_error = Some None, up_expected_attempts = None, up_attempt = Some (1, 1)\<rparr>"


text \<open>
  C31: every status update keeps the remembered identities sorted and bounded, never lowers a
  counter, and never moves the newest installed attempt back.
\<close>

theorem status_update_monotone:
  assumes "status_ok st" and "apply_status_update st up = (changed, st')"
  shows "status_ok st' \<and> st_successful_attempts st \<le> st_successful_attempts st' \<and>
    st_failed_attempts st \<le> st_failed_attempts st' \<and>
    (\<forall>a. st_latest_attempt st = Some a \<longrightarrow> (\<exists>b. st_latest_attempt st' = Some b \<and> a \<le> b)) \<and>
    (\<not> changed \<longrightarrow> st_state st' = st_state st \<and> st_latest_attempt st' = st_latest_attempt st)"
  using assms(2)
proof (cases rule: apply_status_update_cases)
  case (counts st0 current)
  have "status_ok (install_gauges up (count_attempts up st0))" "status_ok (count_attempts up st0)"
    using counts(3)[OF assms(1)] by (simp_all add: status_ok_def)
  then show ?thesis
    using counts(1,2,4,5,6,7) le_saturating_add
    by (cases current) (auto simp: count_attempts_def intro: order.strict_implies_order)
qed (use assms in auto)

theorem status_update_monotone_witness:
  "status_ok (snd (apply_status_update (new_peer_status (ident 7) (ident 100)) sample_update))"
  using status_update_monotone[of "new_peer_status (ident 7) (ident 100)" sample_update
      "fst (apply_status_update (new_peer_status (ident 7) (ident 100)) sample_update)"
      "snd (apply_status_update (new_peer_status (ident 7) (ident 100)) sample_update)"]
  by (simp add: status_ok_def new_peer_status_def MAX_RECENT_ATTEMPTS_def)




end
