(* ===== verification/Snapshot.thy ===== *)
theory Snapshot
  imports Evidence
begin

text \<open>
  Coherent reads of a store: \<open>SnapshotRead\<close> of \<open>storage/mod.rs\<close> and the views of
  \<open>storage/record.rs\<close>. A snapshot is a record of the required methods; the methods the trait
  defaults are definitions over it. \<open>coherent_snapshot\<close> is what every planner relies on: all reads
  of one snapshot answer from one pair of record maps.
\<close>

record topic_view =
  tv_state :: topic_state
  tv_clock :: actor_clock
  tv_tips :: "(actor_id, u64 \<times> op_id) btree_map"
  tv_fingerprint :: id32
  tv_epoch :: u64
  tv_pending_missing :: "op_id btree_set"
  tv_ack :: "peer_ack option"
  tv_owed :: bool

record request_view =
  rv_genesis :: op_id
  rv_epoch :: u64
  rv_member :: bool
  rv_clock :: actor_clock

record snapshot_read =
  sr_topic_view :: "topic_id \<Rightarrow> peer_id option \<Rightarrow> topic_view option result"
  sr_get_op :: "op_id \<Rightarrow> operation option result"
  sr_get_meta :: "op_id \<Rightarrow> op_meta option result"
  sr_dep_resolvable :: "op_id \<Rightarrow> bool result"
  sr_actor_range :: "topic_id \<Rightarrow> actor_id \<Rightarrow> u64 \<Rightarrow> nat \<Rightarrow> (u64 \<times> op_id) list result"
  sr_list_op_ids :: "topic_id \<Rightarrow> op_id btree_set result"

section \<open>Default methods\<close>

definition actor_count :: "snapshot_read \<Rightarrow> topic_id \<Rightarrow> nat result" where
  "actor_count read topic =
    rbind (sr_topic_view read topic None) (\<lambda>view.
      Ok (case view of None \<Rightarrow> 0 | Some view \<Rightarrow> clock_len (tv_clock view)))"

definition request_view_of :: "snapshot_read \<Rightarrow> topic_id \<Rightarrow> peer_id \<Rightarrow> actor_id btree_set \<Rightarrow> request_view option result" where
  "request_view_of read topic peer actors =
    rbind (sr_topic_view read topic None) (\<lambda>view.
      Ok (map_option (\<lambda>view.
        \<lparr>rv_genesis = t_genesis (tv_state view), rv_epoch = tv_epoch view,
         rv_member = (peer |\<in>| t_members (tv_state view)), rv_clock = clock_selected (tv_clock view) actors\<rparr>) view))"

definition get_position :: "snapshot_read \<Rightarrow> op_id \<Rightarrow> op_position option result" where
  "get_position read i = rbind (sr_get_meta read i) (\<lambda>m. Ok (map_option position_of_meta m))"

definition get_header :: "snapshot_read \<Rightarrow> op_id \<Rightarrow> op_header option result" where
  "get_header read i = rbind (get_position read i) (\<lambda>p. Ok (map_option header_of_position p))"

definition get_observation :: "snapshot_read \<Rightarrow> op_id \<Rightarrow> (op_header \<times> actor_clock) option result" where
  "get_observation read i =
    rbind (sr_get_meta read i) (\<lambda>m. Ok (map_option (\<lambda>m. (header_of_meta m, m_observed_clock m)) m))"

definition range_after :: "'k::linorder option \<Rightarrow> nat \<Rightarrow> 'k btree_set \<Rightarrow> 'k list" where
  "range_after after limit ids =
    take limit (filter (\<lambda>i. case after of None \<Rightarrow> True | Some a \<Rightarrow> a < i) (iter_set ids))"

definition topic_ids_after :: "snapshot_read \<Rightarrow> topic_id \<Rightarrow> op_id option \<Rightarrow> nat \<Rightarrow> op_id list result" where
  "topic_ids_after read topic after limit =
    rbind (sr_list_op_ids read topic) (\<lambda>ids. Ok (range_after after limit ids))"

section \<open>Coherence\<close>

text \<open>
  The records of one commit, by id, each under its own id; a dependency is resolvable once both of
  its records are there.
\<close>

definition resolvable_in :: "(op_id, operation) btree_map \<Rightarrow> (op_id, op_meta) btree_map \<Rightarrow> op_id \<Rightarrow> bool" where
  "resolvable_in ops metas i \<longleftrightarrow> contains_key ops i \<and> contains_key metas i"

definition snapshot_of :: "snapshot_read \<Rightarrow> (op_id, operation) btree_map \<Rightarrow> (op_id, op_meta) btree_map \<Rightarrow> bool" where
  "snapshot_of read ops metas \<longleftrightarrow>
    (\<forall>i. sr_get_op read i = Ok (fmlookup ops i)) \<and> (\<forall>i. sr_get_meta read i = Ok (fmlookup metas i)) \<and>
    (\<forall>i. sr_dep_resolvable read i = Ok (resolvable_in ops metas i)) \<and>
    (\<forall>i op. fmlookup ops i = Some op \<longrightarrow> o_id op = i) \<and> (\<forall>i m. fmlookup metas i = Some m \<longrightarrow> m_id m = i)"

locale coherent_snapshot =
  fixes read :: snapshot_read and ops :: "(op_id, operation) btree_map" and metas :: "(op_id, op_meta) btree_map"
  assumes coherent: "snapshot_of read ops metas"
begin

lemma read_op [simp]: "sr_get_op read i = Ok (fmlookup ops i)"
  using coherent by (simp add: snapshot_of_def)

lemma read_meta [simp]: "sr_get_meta read i = Ok (fmlookup metas i)"
  using coherent by (simp add: snapshot_of_def)

lemma read_resolvable [simp]: "sr_dep_resolvable read i = Ok (resolvable_in ops metas i)"
  using coherent by (simp add: snapshot_of_def)

lemma op_keyed: "fmlookup ops i = Some op \<Longrightarrow> o_id op = i"
  using coherent by (simp add: snapshot_of_def)

lemma meta_keyed: "fmlookup metas i = Some m \<Longrightarrow> m_id m = i"
  using coherent by (simp add: snapshot_of_def)

lemma position_is_meta: "get_position read i = Ok (map_option position_of_meta (fmlookup metas i))"
  by (simp add: get_position_def)

lemma header_is_meta: "get_header read i = Ok (map_option header_of_meta (fmlookup metas i))"
  by (simp add: get_header_def position_is_meta option.map_comp comp_def header_of_position_of_meta)

end

section \<open>Paged listings\<close>

lemma sorted_range_after: "sorted (range_after after limit ids)"
  by (simp add: range_after_def sorted_wrt_take sorted_wrt_filter)

lemma distinct_range_after: "distinct (range_after after limit ids)"
  by (simp add: range_after_def)

lemma length_range_after: "length (range_after after limit ids) \<le> limit"
  by (simp add: range_after_def)

section \<open>A concrete snapshot\<close>

definition sample_meta :: "operation \<Rightarrow> op_meta" where
  "sample_meta op = \<lparr>m_id = o_id op, m_topic_id = b_topic_id (body op), m_author = b_author (body op),
     m_actor_id = b_actor_id (body op), m_actor_seq = b_actor_seq (body op), m_actor_prev = b_actor_prev (body op),
     m_deps = b_deps (body op), m_generation = b_generation (body op), m_observed_clock = clock_new,
     m_ready = True, m_missing_deps = {||}\<rparr>"

definition sample_ops :: "operation list \<Rightarrow> (op_id, operation) btree_map" where
  "sample_ops ops = fmap_of_list (map (\<lambda>op. (o_id op, op)) ops)"

definition sample_metas :: "operation list \<Rightarrow> (op_id, op_meta) btree_map" where
  "sample_metas ops = fmap_of_list (map (\<lambda>op. (o_id op, sample_meta op)) ops)"

definition sample_read :: "operation list \<Rightarrow> snapshot_read" where
  "sample_read ops =
    \<lparr>sr_topic_view = (\<lambda>_ _. Ok None), sr_get_op = (\<lambda>i. Ok (fmlookup (sample_ops ops) i)),
     sr_get_meta = (\<lambda>i. Ok (fmlookup (sample_metas ops) i)),
     sr_dep_resolvable = (\<lambda>i. Ok (resolvable_in (sample_ops ops) (sample_metas ops) i)),
     sr_actor_range = (\<lambda>_ _ _ _. Ok []), sr_list_op_ids = (\<lambda>_. Ok (fmdom (sample_ops ops)))\<rparr>"

lemma sample_read_coherent: "snapshot_of (sample_read ops) (sample_ops ops) (sample_metas ops)"
  by (auto simp: snapshot_of_def sample_read_def sample_ops_def sample_metas_def sample_meta_def
      fmlookup_of_list dest!: map_of_SomeD)

end
