(* ===== verification/Kahn.thy ===== *)
theory Kahn
  imports Prelude
begin

text \<open>
  The counting argument behind the two topological orders of \<open>oplog/topology.rs\<close>, on an abstract
  dependency graph: what holds of the emitted sequence, the ready set and the counters before and
  after each emission, and what an empty ready set means.
\<close>

definition deps_first :: "('i \<Rightarrow> 'i set) \<Rightarrow> 'i list \<Rightarrow> bool" where
  "deps_first D out \<longleftrightarrow> (\<forall>ys x zs. out = ys @ x # zs \<longrightarrow> D x \<subseteq> set ys)"

definition dep_rel :: "'i set \<Rightarrow> ('i \<Rightarrow> 'i set) \<Rightarrow> ('i \<times> 'i) set" where
  "dep_rel V D = {(d, i). i \<in> V \<and> d \<in> D i}"

definition kahn_inv :: "'i set \<Rightarrow> ('i \<Rightarrow> 'i set) \<Rightarrow> 'i set \<Rightarrow> 'i list \<Rightarrow> ('i \<Rightarrow> nat) \<Rightarrow> bool" where
  "kahn_inv V D R out cnt \<longleftrightarrow>
    distinct out \<and> set out \<subseteq> V \<and> R \<subseteq> V \<and> R \<inter> set out = {} \<and>
    (\<forall>i \<in> V. cnt i = card (D i - set out)) \<and>
    (\<forall>i \<in> V. i \<in> R \<union> set out \<longleftrightarrow> D i \<subseteq> set out) \<and> deps_first D out"

lemma deps_first_Nil [simp]: "deps_first D []"
  by (simp add: deps_first_def)

lemma deps_first_snoc: "deps_first D (out @ [x]) \<longleftrightarrow> deps_first D out \<and> D x \<subseteq> set out"
proof
  assume L: "deps_first D (out @ [x])"
  have "D y \<subseteq> set ys" if "out = ys @ y # zs" for ys y zs
    using L[unfolded deps_first_def, rule_format, of ys y "zs @ [x]"] that by simp
  then show "deps_first D out \<and> D x \<subseteq> set out"
    using L[unfolded deps_first_def, rule_format, of out x "[]"] by (simp add: deps_first_def)
next
  assume R: "deps_first D out \<and> D x \<subseteq> set out"
  show "deps_first D (out @ [x])"
    unfolding deps_first_def
  proof (intro allI impI)
    fix ys y zs assume e: "out @ [x] = ys @ y # zs"
    show "D y \<subseteq> set ys"
    proof (cases zs rule: rev_cases)
      case Nil
      then show ?thesis using e R by simp
    next
      case (snoc us u)
      then have "out = ys @ y # us" using e by simp
      then show ?thesis using R by (auto simp: deps_first_def)
    qed
  qed
qed

lemma same_prefix:
  "xs @ i # ys = xs' @ i # ys' \<Longrightarrow> i \<notin> set xs \<Longrightarrow> i \<notin> set xs' \<Longrightarrow> xs = xs'"
proof (induction xs arbitrary: xs')
  case Nil
  then show ?case by (cases xs') auto
next
  case (Cons x xs)
  then show ?case by (cases xs') auto
qed

lemma deps_first_rel:
  assumes "deps_first D out" "distinct out" "set out = V" "(d, i) \<in> (dep_rel V D)\<^sup>+"
  shows "\<exists>ys zs us. out = ys @ d # zs @ i # us"
  using assms(4)
proof (induction rule: trancl_induct)
  case (base i)
  then obtain ys us where o: "out = ys @ i # us" using assms(3) by (auto simp: dep_rel_def dest: split_list)
  then have "d \<in> set ys" using assms(1) base by (auto simp: dep_rel_def deps_first_def)
  then obtain y1 y2 where "ys = y1 @ d # y2" by (meson split_list)
  then show ?case using o by (intro exI[of _ y1] exI[of _ y2] exI[of _ us]) simp
next
  case (step i j)
  then obtain ys zs us where o: "out = ys @ d # zs @ i # us" by blast
  obtain vs ws where o': "out = vs @ j # ws" using assms(3) step(2) by (auto simp: dep_rel_def dest: split_list)
  then have "i \<in> set vs" using assms(1) step(2) by (auto simp: dep_rel_def deps_first_def)
  then obtain v1 v2 where "vs = v1 @ i # v2" by (meson split_list)
  with o' have "out = v1 @ i # v2 @ j # ws" by simp
  moreover have "v1 = ys @ d # zs"
  proof -
    have "v1 @ i # (v2 @ j # ws) = (ys @ d # zs) @ i # us" using o calculation by simp
    moreover have "distinct (v1 @ i # v2 @ j # ws)" using assms(2) \<open>out = v1 @ i # v2 @ j # ws\<close> by simp
    then have "i \<notin> set v1" by simp
    moreover have "distinct ((ys @ d # zs) @ i # us)" using assms(2) o by simp
    then have "i \<notin> set (ys @ d # zs)" by auto
    ultimately show ?thesis by (rule same_prefix)
  qed
  ultimately show ?case by (intro exI[of _ ys] exI[of _ "zs @ i # v2"] exI[of _ ws]) simp
qed

locale dep_graph =
  fixes V :: "'i set" and D :: "'i \<Rightarrow> 'i set"
  assumes finite_V: "finite V" and deps_in: "\<And>i. i \<in> V \<Longrightarrow> D i \<subseteq> V"
begin

lemma finite_deps: "i \<in> V \<Longrightarrow> finite (D i)"
  using deps_in finite_V finite_subset by blast

lemma kahn_start: "kahn_inv V D {i \<in> V. D i = {}} [] (\<lambda>i. card (D i))"
  by (auto simp: kahn_inv_def)

lemma kahn_zero_iff: "kahn_inv V D R out cnt \<Longrightarrow> i \<in> V \<Longrightarrow> cnt i = 0 \<longleftrightarrow> i \<in> R \<union> set out"
  using finite_deps[of i] by (auto simp: kahn_inv_def)

lemma kahn_child:
  assumes inv: "kahn_inv V D R out cnt" and i: "i \<in> R" and c: "c \<in> V" "i \<in> D c"
  shows "c \<notin> R \<union> set out" "0 < cnt c" "card (D c - set (out @ [i])) = cnt c - 1"
proof -
  have "i \<notin> set out" using inv i by (auto simp: kahn_inv_def)
  then show "c \<notin> R \<union> set out" using inv c by (auto simp: kahn_inv_def)
  then show "0 < cnt c" using kahn_zero_iff[OF inv c(1)] by simp
  have "D c - set (out @ [i]) = (D c - set out) - {i}" by auto
  then show "card (D c - set (out @ [i])) = cnt c - 1"
    using inv c \<open>i \<notin> set out\<close> finite_deps[OF c(1)] by (simp add: kahn_inv_def card_Diff_singleton)
qed

lemma kahn_step:
  assumes inv: "kahn_inv V D R out cnt" and i: "i \<in> R"
    and cnt': "\<And>c. c \<in> V \<Longrightarrow> cnt' c = (if i \<in> D c then cnt c - 1 else cnt c)"
    and R': "R' = (R - {i}) \<union> {c \<in> V. i \<in> D c \<and> cnt' c = 0}"
  shows "kahn_inv V D R' (out @ [i]) cnt'"
proof -
  have iV: "i \<in> V" "i \<notin> set out" using inv i by (auto simp: kahn_inv_def)
  have Di: "D i \<subseteq> set out" using inv i iV by (auto simp: kahn_inv_def)
  have cnt: "cnt' c = card (D c - set (out @ [i]))" if "c \<in> V" for c
  proof (cases "i \<in> D c")
    case True
    then show ?thesis using cnt'[OF that] kahn_child(3)[OF inv i that True] by simp
  next
    case False
    then have "D c - set (out @ [i]) = D c - set out" by auto
    then show ?thesis using cnt'[OF that] inv that False by (simp add: kahn_inv_def)
  qed
  have zero: "cnt' c = 0 \<longleftrightarrow> D c \<subseteq> set (out @ [i])" if "c \<in> V" for c
    using cnt[OF that] finite_deps[OF that] by auto
  have "c \<in> R' \<union> set (out @ [i]) \<longleftrightarrow> D c \<subseteq> set (out @ [i])" if c: "c \<in> V" for c
  proof (cases "i \<in> D c")
    case True
    then show ?thesis using zero[OF c] kahn_child(1)[OF inv i c True] R' c Di iV by auto
  next
    case False
    then have "D c \<subseteq> set (out @ [i]) \<longleftrightarrow> D c \<subseteq> set out" by auto
    then show ?thesis using inv c False R' i by (auto simp: kahn_inv_def)
  qed
  moreover have "R' \<inter> set (out @ [i]) = {}"
    using inv R' kahn_child(1)[OF inv i] Di iV by (auto simp: kahn_inv_def)
  moreover have "deps_first D (out @ [i])" using inv Di by (simp add: deps_first_snoc kahn_inv_def)
  moreover have "R' \<subseteq> V" using inv R' by (auto simp: kahn_inv_def)
  ultimately show ?thesis using inv iV cnt by (simp add: kahn_inv_def)
qed

lemma kahn_done_complete:
  assumes inv: "kahn_inv V D {} out cnt" and ac: "acyclic (dep_rel V D)"
  shows "set out = V"
proof (rule ccontr)
  assume "set out \<noteq> V"
  then have ne: "V - set out \<noteq> {}" using inv by (auto simp: kahn_inv_def)
  have "dep_rel V D \<subseteq> V \<times> V" using deps_in by (auto simp: dep_rel_def)
  then have "finite (dep_rel V D)" using finite_V finite_subset by blast
  then have "wf (dep_rel V D)" using ac finite_acyclic_wf by blast
  then obtain i where i: "i \<in> V - set out" and min: "\<And>d. (d, i) \<in> dep_rel V D \<Longrightarrow> d \<notin> V - set out"
    using ne wfE_min[of "dep_rel V D" _ "V - set out"] by (metis ex_in_conv)
  then have "D i \<subseteq> set out" using deps_in[of i] by (auto simp: dep_rel_def)
  then show False using inv i by (auto simp: kahn_inv_def)
qed

lemma kahn_done_acyclic:
  assumes inv: "kahn_inv V D R out cnt" and "set out = V"
  shows "acyclic (dep_rel V D)"
proof (rule acyclicI, rule allI, rule notI)
  fix x assume "(x, x) \<in> (dep_rel V D)\<^sup>+"
  then obtain ys zs us where "out = ys @ x # zs @ x # us"
    using deps_first_rel[of D out V x x] inv assms(2) by (auto simp: kahn_inv_def)
  then show False using inv by (simp add: kahn_inv_def)
qed

lemma kahn_done_length:
  assumes "kahn_inv V D R out cnt"
  shows "length out = card V \<longleftrightarrow> set out = V"
proof -
  have "length out = card (set out)" using assms by (simp add: kahn_inv_def distinct_card)
  moreover have "set out \<subseteq> V" using assms by (simp add: kahn_inv_def)
  ultimately show ?thesis using finite_V card_subset_eq by metis
qed

lemma kahn_done_iff:
  assumes "kahn_inv V D {} out cnt"
  shows "length out = card V \<longleftrightarrow> acyclic (dep_rel V D)"
  using assms kahn_done_length kahn_done_complete kahn_done_acyclic by blast

end

end
