(* ===== verification/Topology.thy ===== *)
theory Topology
  imports Snapshot Kahn
begin

text \<open>
  Topological orders of the op graph (\<open>oplog/topology.rs\<close>): of a batch of operations, oldest
  generation first, and of stored operations read through a snapshot, where an operation with a
  missing record or an unresolved dependency is a hole and defers what depends on it.
\<close>

section \<open>Ordering a batch\<close>

type_synonym graph_children = "(op_id, op_id btree_set) btree_map"

definition batch_by_id :: "operation list \<Rightarrow> (op_id, operation) btree_map" where
  "batch_by_id ops = fold (\<lambda>op m. fmupd (o_id op) op m) ops fmempty"

definition add_child :: "op_id \<Rightarrow> op_id \<Rightarrow> graph_children \<Rightarrow> graph_children" where
  "add_child dep child children = modify_or {||} (finsert child) dep children"

definition children_of :: "graph_children \<Rightarrow> op_id \<Rightarrow> op_id list" where
  "children_of children i = (case fmlookup children i of None \<Rightarrow> [] | Some s \<Rightarrow> iter_set s)"

definition count_deps ::
  "(op_id, operation) btree_map \<Rightarrow> op_id \<times> operation \<Rightarrow> (op_id, nat) btree_map \<times> graph_children
    \<Rightarrow> (op_id, nat) btree_map \<times> graph_children" where
  "count_deps by_id = (\<lambda>(i, op) (indeg, children).
    let (count, children) = fold (\<lambda>dep (count, children).
          if contains_key by_id dep then (count + 1, add_child dep i children) else (count, children))
          (iter_set (b_deps (body op))) (0, children)
    in (fmupd i count indeg, children))"

definition batch_generation :: "(op_id, operation) btree_map \<Rightarrow> op_id \<Rightarrow> u64" where
  "batch_generation by_id i = (case fmlookup by_id i of None \<Rightarrow> 0 | Some op \<Rightarrow> b_generation (body op))"

definition release_child ::
  "(op_id, operation) btree_map \<Rightarrow> op_id \<Rightarrow> (u64 \<times> op_id) btree_set \<times> (op_id, nat) btree_map
    \<Rightarrow> (u64 \<times> op_id) btree_set \<times> (op_id, nat) btree_map" where
  "release_child by_id child = (\<lambda>(ready, indeg).
    case fmlookup indeg child of
      None \<Rightarrow> (ready, indeg)
    | Some count \<Rightarrow>
        let count = count - 1
        in (if count = 0 then finsert (batch_generation by_id child, child) ready else ready,
            fmupd child count indeg))"

text \<open>
  The loop pops the least pair until none is ready. One unit of fuel is spent per popped operation;
  \<open>order_loop_done\<close> shows that the number of operations is enough.
\<close>

fun order_loop ::
  "nat \<Rightarrow> (op_id, operation) btree_map \<Rightarrow> graph_children \<Rightarrow> (u64 \<times> op_id) btree_set
    \<Rightarrow> (op_id, nat) btree_map \<Rightarrow> operation list \<Rightarrow> (u64 \<times> op_id) btree_set \<times> operation list result" where
  "order_loop 0 by_id children ready indeg out = (ready, Ok out)"
| "order_loop (Suc n) by_id children ready indeg out =
    (case iter_set ready of
       [] \<Rightarrow> (ready, Ok out)
     | (g, i) # _ \<Rightarrow>
         (case fmlookup by_id i of
            None \<Rightarrow> (ready, Err (Storage ''missing input op''))
          | Some op \<Rightarrow>
              let (ready, indeg) = fold (release_child by_id) (children_of children i) (ready |-| {|(g, i)|}, indeg)
              in order_loop n by_id children ready indeg (out @ [op])))"

definition topological_ops :: "operation list \<Rightarrow> operation list result" where
  "topological_ops ops =
    (let by_id = batch_by_id ops;
         (indeg, children) = fold (count_deps by_id) (iter_map by_id) (fmempty, fmempty);
         ready = fset_of_list (map (\<lambda>(i, _). (batch_generation by_id i, i))
                   (filter (\<lambda>(_, count). count = 0) (iter_map indeg)));
         n = fcard (fmdom by_id)
     in rbind (snd (order_loop n by_id children ready indeg [])) (\<lambda>out.
        if length out \<noteq> n then Err (Storage ''cycle in input op batch'') else Ok out))"

section \<open>The batch graph\<close>

definition batch_deps :: "(op_id, operation) btree_map \<Rightarrow> op_id \<Rightarrow> op_id set" where
  "batch_deps by_id i =
    (case fmlookup by_id i of None \<Rightarrow> {} | Some op \<Rightarrow> {d. d |\<in>| b_deps (body op) \<and> contains_key by_id d})"

interpretation bg: dep_graph "fset (fmdom by_id)" "batch_deps by_id" for by_id
  by unfold_locales (auto simp: batch_deps_def contains_key_fmdom split: option.splits)

lemma lookup_batch_by_id:
  "fmlookup (batch_by_id ops) i = Some op \<Longrightarrow> op \<in> set ops \<and> o_id op = i"
proof -
  have "fmlookup (fold (\<lambda>op m. fmupd (o_id op) op m) ops m) i = Some op \<Longrightarrow>
      (op \<in> set ops \<and> o_id op = i) \<or> fmlookup m i = Some op" for m
  proof (induction ops arbitrary: m)
    case (Cons a ops)
    from Cons.IH[of "fmupd (o_id a) a m"] Cons.prems show ?case by (auto split: if_splits)
  qed simp
  then show "fmlookup (batch_by_id ops) i = Some op \<Longrightarrow> op \<in> set ops \<and> o_id op = i"
    by (force simp: batch_by_id_def)
qed

lemma fmdom_batch_by_id: "fset (fmdom (batch_by_id ops)) = o_id ` set ops"
proof -
  have "fset (fmdom (fold (\<lambda>op m. fmupd (o_id op) op m) ops m)) = o_id ` set ops \<union> fset (fmdom m)" for m
    by (induction ops arbitrary: m) auto
  then show ?thesis by (simp add: batch_by_id_def)
qed

definition child_set :: "graph_children \<Rightarrow> op_id \<Rightarrow> op_id set" where
  "child_set children i = set (children_of children i)"

lemma child_set_empty [simp]: "child_set fmempty i = {}"
  by (simp add: child_set_def children_of_def)

lemma child_set_add_child: "child_set (add_child dep c children) i = (if i = dep then insert c (child_set children i) else child_set children i)"
  by (auto simp: child_set_def children_of_def add_child_def get_or_def split: option.splits)

lemma distinct_children_of [simp]: "distinct (children_of children i)"
  by (simp add: children_of_def split: option.split)

lemma count_deps_inner:
  assumes "distinct ds"
  obtains ch' where "fold (\<lambda>dep (count, children). if contains_key by_id dep then (count + 1, add_child dep i children) else (count, children))
      ds (n, ch) = (n + card {d \<in> set ds. contains_key by_id d}, ch')"
    and "\<And>d. child_set ch' d = (if d \<in> set ds \<and> contains_key by_id d then insert i (child_set ch d) else child_set ch d)"
proof -
  let ?f = "\<lambda>dep (count, children). if contains_key by_id dep then (count + 1 :: nat, add_child dep i children) else (count, children)"
  have "\<exists>ch'. fold ?f ds (n, ch) = (n + card {d \<in> set ds. contains_key by_id d}, ch') \<and>
      (\<forall>d. child_set ch' d = (if d \<in> set ds \<and> contains_key by_id d then insert i (child_set ch d) else child_set ch d))"
    using assms
  proof (induction ds arbitrary: n ch)
    case (Cons x ds)
    have x: "{d \<in> set (x # ds). contains_key by_id d} =
        (if contains_key by_id x then insert x {d \<in> set ds. contains_key by_id d} else {d \<in> set ds. contains_key by_id d})"
      by auto
    show ?case
    proof (cases "contains_key by_id x")
      case True
      obtain ch' where ch': "fold ?f ds (n + 1, add_child x i ch) = (n + 1 + card {d \<in> set ds. contains_key by_id d}, ch')"
        "\<forall>d. child_set ch' d = (if d \<in> set ds \<and> contains_key by_id d then insert i (child_set (add_child x i ch) d)
            else child_set (add_child x i ch) d)"
        using Cons.IH[of "n + 1" "add_child x i ch"] Cons.prems by auto
      then show ?thesis using True Cons.prems x by (auto simp: child_set_add_child)
    next
      case False
      then show ?thesis using Cons.IH[of n ch] Cons.prems x by auto
    qed
  qed simp
  then show thesis using that by blast
qed

lemma count_deps_step:
  assumes "fmlookup by_id i = Some op"
  obtains ch' where "count_deps by_id (i, op) (indeg, ch) = (fmupd i (card (batch_deps by_id i)) indeg, ch')"
    and "\<And>d. child_set ch' d = (if d \<in> batch_deps by_id i then insert i (child_set ch d) else child_set ch d)"
proof -
  have D: "{d \<in> set (iter_set (b_deps (body op))). contains_key by_id d} = batch_deps by_id i"
    using assms by (auto simp: batch_deps_def)
  obtain ch' where "fold (\<lambda>dep (count, children). if contains_key by_id dep then (count + 1, add_child dep i children) else (count, children))
      (iter_set (b_deps (body op))) (0, ch) = (0 + card {d \<in> set (iter_set (b_deps (body op))). contains_key by_id d}, ch')"
    and "\<And>d. child_set ch' d = (if d \<in> set (iter_set (b_deps (body op))) \<and> contains_key by_id d
        then insert i (child_set ch d) else child_set ch d)"
    using count_deps_inner[where ds = "iter_set (b_deps (body op))" and n = 0 and ch = ch and i = i and by_id = by_id]
    by (metis (no_types, lifting) distinct_iter_set)
  moreover have "d \<in> set (iter_set (b_deps (body op))) \<and> contains_key by_id d \<longleftrightarrow> d \<in> batch_deps by_id i" for d
    using assms by (auto simp: batch_deps_def)
  ultimately show thesis using that[of ch'] by (simp add: count_deps_def D)
qed

lemma count_deps_fold:
  assumes "distinct (map fst xs)" "\<And>i op. (i, op) \<in> set xs \<Longrightarrow> fmlookup by_id i = Some op"
  shows "\<exists>indeg' ch'. fold (count_deps by_id) xs (indeg, ch) = (indeg', ch') \<and>
    (\<forall>i. fmlookup indeg' i = (if i \<in> fst ` set xs then Some (card (batch_deps by_id i)) else fmlookup indeg i)) \<and>
    (\<forall>d. child_set ch' d = child_set ch d \<union> {i \<in> fst ` set xs. d \<in> batch_deps by_id i})"
  using assms
proof (induction xs arbitrary: indeg ch)
  case (Cons x xs)
  obtain i op where x: "x = (i, op)" by (cases x)
  have op: "fmlookup by_id i = Some op" using Cons.prems(2)[of i op] by (simp add: x)
  obtain ch1 where ch1: "count_deps by_id (i, op) (indeg, ch) = (fmupd i (card (batch_deps by_id i)) indeg, ch1)"
    "\<And>d. child_set ch1 d = (if d \<in> batch_deps by_id i then insert i (child_set ch d) else child_set ch d)"
    using count_deps_step[OF op, where indeg = indeg and ch = ch] by metis
  obtain indeg' ch' where r: "fold (count_deps by_id) xs (fmupd i (card (batch_deps by_id i)) indeg, ch1) = (indeg', ch')"
    "\<And>j. fmlookup indeg' j = (if j \<in> fst ` set xs then Some (card (batch_deps by_id j))
        else fmlookup (fmupd i (card (batch_deps by_id i)) indeg) j)"
    "\<And>d. child_set ch' d = child_set ch1 d \<union> {j \<in> fst ` set xs. d \<in> batch_deps by_id j}"
    using Cons.IH[of "fmupd i (card (batch_deps by_id i)) indeg" ch1] Cons.prems by auto
  show ?case
    by (intro exI[of _ indeg'] exI[of _ ch'] conjI allI) (use r ch1 in \<open>auto simp: x\<close>)
qed simp

lemma graph_built:
  obtains indeg ch where "fold (count_deps by_id) (iter_map by_id) (fmempty, fmempty) = (indeg, ch)"
    and "\<And>i. fmlookup indeg i = (if contains_key by_id i then Some (card (batch_deps by_id i)) else None)"
    and "\<And>d. child_set ch d = {i \<in> fset (fmdom by_id). d \<in> batch_deps by_id i}"
proof -
  have "i \<in> fst ` set (iter_map by_id) \<longleftrightarrow> contains_key by_id i" for i
  proof -
    have "i \<in> fst ` set (iter_map by_id) \<longleftrightarrow> (\<exists>op. fmlookup by_id i = Some op)"
      by (force simp: image_iff Bex_def)
    then show ?thesis by (simp add: contains_key_def)
  qed
  moreover have "contains_key by_id i \<longleftrightarrow> i \<in> fset (fmdom by_id)" for i
    by (simp add: contains_key_def fmlookup_dom_iff)
  ultimately show thesis
    using count_deps_fold[of "iter_map by_id" by_id fmempty fmempty] that by auto
qed

section \<open>The batch loop\<close>

abbreviation gen_key :: "(op_id, operation) btree_map \<Rightarrow> op_id \<Rightarrow> u64 \<times> op_id" where
  "gen_key by_id i \<equiv> (batch_generation by_id i, i)"

lemma release_fold:
  assumes "distinct cs" "\<And>c. c \<in> set cs \<Longrightarrow> fmlookup indeg c = Some (cnt c)"
  shows "fold (release_child by_id) cs (ready, indeg) = (ready', indeg') \<Longrightarrow>
    fset ready' = fset ready \<union> gen_key by_id ` {c \<in> set cs. cnt c - 1 = 0} \<and>
    (\<forall>c. fmlookup indeg' c = (if c \<in> set cs then Some (cnt c - 1) else fmlookup indeg c))"
  using assms
proof (induction cs arbitrary: ready indeg)
  case (Cons c cs)
  let ?ready = "if cnt c - 1 = 0 then finsert (gen_key by_id c) ready else ready"
  have step: "release_child by_id c (ready, indeg) = (?ready, fmupd c (cnt c - 1) indeg)"
    using Cons.prems(3)[of c] by (simp add: release_child_def Let_def)
  have "fset ready' = fset ?ready \<union> gen_key by_id ` {x \<in> set cs. cnt x - 1 = 0} \<and>
      (\<forall>x. fmlookup indeg' x = (if x \<in> set cs then Some (cnt x - 1) else fmlookup (fmupd c (cnt c - 1) indeg) x))"
  proof (rule Cons.IH)
    show "fold (release_child by_id) cs (?ready, fmupd c (cnt c - 1) indeg) = (ready', indeg')"
      using Cons.prems(1) step by simp
    show "distinct cs" using Cons.prems(2) by simp
    show "fmlookup (fmupd c (cnt c - 1) indeg) x = Some (cnt x)" if "x \<in> set cs" for x
      using that Cons.prems(2) Cons.prems(3)[of x] by auto
  qed
  then show ?case using Cons.prems(2) by (cases "cnt c - 1 = 0") (auto simp del: diff_is_0_eq diff_is_0_eq')
qed simp

definition order_inv ::
  "(op_id, operation) btree_map \<Rightarrow> (u64 \<times> op_id) btree_set \<Rightarrow> (op_id, nat) btree_map \<Rightarrow> operation list \<Rightarrow> bool" where
  "order_inv by_id ready indeg out \<longleftrightarrow>
    (\<forall>g i. (g, i) |\<in>| ready \<longrightarrow> g = batch_generation by_id i) \<and> fmdom indeg = fmdom by_id \<and>
    (\<forall>op \<in> set out. fmlookup by_id (o_id op) = Some op) \<and>
    kahn_inv (fset (fmdom by_id)) (batch_deps by_id) (snd ` fset ready) (map o_id out) (\<lambda>i. the (fmlookup indeg i))"

definition children_ok :: "(op_id, operation) btree_map \<Rightarrow> graph_children \<Rightarrow> bool" where
  "children_ok by_id ch \<longleftrightarrow> (\<forall>d. child_set ch d = {i \<in> fset (fmdom by_id). d \<in> batch_deps by_id i})"

definition ids_ok :: "(op_id, operation) btree_map \<Rightarrow> bool" where
  "ids_ok by_id \<longleftrightarrow> (\<forall>i op. fmlookup by_id i = Some op \<longrightarrow> o_id op = i)"

lemma order_step:
  assumes inv: "order_inv by_id ready indeg out" and ch: "children_ok by_id ch" and ids: "ids_ok by_id"
    and i: "(g, i) |\<in>| ready"
    and fold: "fold (release_child by_id) (children_of ch i) (ready |-| {|(g, i)|}, indeg) = (ready', indeg')"
  obtains op where "fmlookup by_id i = Some op" "g = batch_generation by_id i" "o_id op = i"
    "order_inv by_id ready' indeg' (out @ [op])" "length out < fcard (fmdom by_id)"
proof -
  let ?V = "fset (fmdom by_id)" and ?D = "batch_deps by_id" and ?R = "snd ` fset ready"
  note k = inv[unfolded order_inv_def]
  have ready: "fset ready = gen_key by_id ` ?R" using k by (force simp: image_iff)
  have g: "g = batch_generation by_id i" using i k by blast
  have iR: "i \<in> ?R" using i by force
  then have iV: "i \<in> ?V" using k by (auto simp: kahn_inv_def)
  then obtain op where op: "fmlookup by_id i = Some op" by (auto simp: fmlookup_dom_iff)
  then have oid: "o_id op = i" using ids by (simp add: ids_ok_def)
  have cset: "set (children_of ch i) = {c \<in> ?V. i \<in> ?D c}" using ch by (simp add: children_ok_def child_set_def)
  have cnt: "fmlookup indeg c = Some (the (fmlookup indeg c))" if "c \<in> set (children_of ch i)" for c
  proof -
    have "c |\<in>| fmdom indeg" using that k cset by auto
    then show ?thesis by (metis fmlookup_dom_iff option.sel)
  qed
  from release_fold[OF distinct_children_of cnt fold]
  have r: "fset ready' = (fset ready - {(g, i)}) \<union> gen_key by_id ` {c \<in> set (children_of ch i). the (fmlookup indeg c) - 1 = 0}"
    and d: "\<And>c. fmlookup indeg' c = (if c \<in> set (children_of ch i) then Some (the (fmlookup indeg c) - 1) else fmlookup indeg c)"
    by auto
  have R': "snd ` fset ready' = (?R - {i}) \<union> {c \<in> ?V. i \<in> ?D c \<and> the (fmlookup indeg' c) = 0}"
  proof -
    have "snd ` (fset ready - {(g, i)}) = ?R - {i}"
    proof -
      have "fset ready - {(g, i)} = gen_key by_id ` (?R - {i})" by (subst ready) (auto simp: g)
      then show ?thesis by (simp add: image_image)
    qed
    moreover have "snd ` gen_key by_id ` S = S" for S by (simp add: image_image)
    ultimately show ?thesis unfolding r image_Un cset by (auto simp: d cset)
  qed
  have "kahn_inv ?V ?D (snd ` fset ready') (map o_id out @ [i]) (\<lambda>i. the (fmlookup indeg' i))"
    by (rule bg.kahn_step[OF _ iR _ R']) (use k cset d in auto)
  moreover have "h = batch_generation by_id j" if "(h, j) |\<in>| ready'" for h j
    using that k unfolding r by auto
  moreover have "fmdom indeg' = fmdom by_id"
  proof -
    have "c |\<in>| fmdom indeg' \<longleftrightarrow> c |\<in>| fmdom indeg" for c
      using d[of c] cnt[of c] by (auto simp: fmlookup_dom_iff)
    then show ?thesis using k by (metis fsubsetI fsubset_antisym)
  qed
  ultimately have inv': "order_inv by_id ready' indeg' (out @ [op])"
    using k op oid by (auto simp: order_inv_def)
  have "length (map o_id (out @ [op])) \<le> card ?V"
  proof -
    have "distinct (map o_id (out @ [op]))" "set (map o_id (out @ [op])) \<subseteq> ?V"
      using inv' by (auto simp: order_inv_def kahn_inv_def)
    then show ?thesis by (metis distinct_card card_mono finite_fset)
  qed
  then have "length out < fcard (fmdom by_id)" by (simp add: fcard.rep_eq)
  then show thesis using that op g oid inv' by blast
qed

lemma iter_set_Nil_iff: "iter_set s = [] \<longleftrightarrow> s = {||}"
  by (metis bot_fset.rep_eq fset_inject set_empty set_iter_set)

lemma iter_set_Cons_least: "iter_set s = x # xs \<Longrightarrow> x |\<in>| s \<and> (\<forall>y. y |\<in>| s \<longrightarrow> x \<le> y)"
  using sorted_iter_set[of s] set_iter_set[of s] by auto

lemma order_loop_done:
  assumes "order_inv by_id ready indeg out" "children_ok by_id ch" "ids_ok by_id"
    and "fcard (fmdom by_id) \<le> length out + n" and "P out"
    and step: "\<And>ready indeg out g i op. order_inv by_id ready indeg out \<Longrightarrow> P out \<Longrightarrow> (g, i) |\<in>| ready \<Longrightarrow>
      (\<forall>y. y |\<in>| ready \<longrightarrow> (g, i) \<le> y) \<Longrightarrow> fmlookup by_id i = Some op \<Longrightarrow> P (out @ [op])"
  shows "\<exists>out' indeg'. order_loop n by_id ch ready indeg out = ({||}, Ok out') \<and> order_inv by_id {||} indeg' out' \<and> P out'"
  using assms(1-5)
proof (induction n arbitrary: ready indeg out)
  case 0
  have "ready = {||}"
  proof (rule ccontr)
    assume "ready \<noteq> {||}"
    then obtain g i where i: "(g, i) |\<in>| ready" by (metis all_not_fin_conv surj_pair)
    obtain ready' indeg' where f: "fold (release_child by_id) (children_of ch i) (ready |-| {|(g, i)|}, indeg) = (ready', indeg')"
      by fastforce
    have "length out < fcard (fmdom by_id)" by (rule order_step[OF 0(1-3) i f])
    then show False using 0(4) by simp
  qed
  then show ?case using 0 by auto
next
  case (Suc n)
  show ?case
  proof (cases "iter_set ready")
    case Nil
    then have "ready = {||}" by (simp add: iter_set_Nil_iff)
    then show ?thesis using Suc.prems by (auto simp: Nil)
  next
    case (Cons x xs)
    obtain g i where x: "x = (g, i)" by (cases x)
    have i: "(g, i) |\<in>| ready" "\<forall>y. y |\<in>| ready \<longrightarrow> (g, i) \<le> y"
      using iter_set_Cons_least[OF Cons] by (simp_all add: x)
    obtain ready' indeg' where f: "fold (release_child by_id) (children_of ch i) (ready |-| {|(g, i)|}, indeg) = (ready', indeg')"
      by fastforce
    obtain op where op: "fmlookup by_id i = Some op" "order_inv by_id ready' indeg' (out @ [op])"
      by (rule order_step[OF Suc.prems(1-3) i(1) f])
    have "P (out @ [op])" by (rule step[OF Suc.prems(1,5) i op(1)])
    then show ?thesis
      using Suc.IH[OF op(2) Suc.prems(2,3)] Suc.prems(4) by (simp add: Cons x op(1) f)
  qed
qed

lemma ids_ok_batch [simp]: "ids_ok (batch_by_id ops)"
  by (simp add: ids_ok_def lookup_batch_by_id)

lemma batch_start:
  assumes "fold (count_deps by_id) (iter_map by_id) (fmempty, fmempty) = (indeg, ch)"
  shows "children_ok by_id ch"
    and "order_inv by_id (fset_of_list (map (\<lambda>(i, _). gen_key by_id i) (filter (\<lambda>(_, count). count = 0) (iter_map indeg)))) indeg []"
proof -
  let ?V = "fset (fmdom by_id)" and ?D = "batch_deps by_id"
  define ready where "ready = fset_of_list (map (\<lambda>(i, _). gen_key by_id i) (filter (\<lambda>(_, count). count = 0) (iter_map indeg)))"
  obtain indeg' ch' where g: "fold (count_deps by_id) (iter_map by_id) (fmempty, fmempty) = (indeg', ch')"
    "\<And>i. fmlookup indeg' i = (if contains_key by_id i then Some (card (?D i)) else None)"
    "\<And>d. child_set ch' d = {i \<in> ?V. d \<in> ?D i}"
    using graph_built[of by_id] by blast
  then have indeg: "\<And>i. fmlookup indeg i = (if contains_key by_id i then Some (card (?D i)) else None)"
    and ch: "\<And>d. child_set ch d = {i \<in> ?V. d \<in> ?D i}" using assms by auto
  show "children_ok by_id ch" using ch by (simp add: children_ok_def)
  have R: "snd ` fset ready = {i \<in> ?V. ?D i = {}}"
  proof -
    have "i \<in> snd ` fset ready \<longleftrightarrow> fmlookup indeg i = Some 0" for i
      by (force simp: ready_def fset_of_list.rep_eq image_iff)
    moreover have "fmlookup indeg i = Some 0 \<longleftrightarrow> i \<in> ?V \<and> ?D i = {}" for i
      using indeg[of i] bg.finite_deps[of i by_id] by (auto simp: contains_key_fmdom)
    ultimately show ?thesis by blast
  qed
  have "kahn_inv ?V ?D (snd ` fset ready) [] (\<lambda>i. the (fmlookup indeg i))"
    unfolding R using bg.kahn_start[of by_id] indeg by (auto simp: kahn_inv_def contains_key_fmdom)
  moreover have "fmdom indeg = fmdom by_id"
  proof (rule fset_eqI)
    show "i |\<in>| fmdom indeg \<longleftrightarrow> i |\<in>| fmdom by_id" for i
      using indeg[of i] by (auto simp: fmlookup_dom_iff contains_key_def)
  qed
  moreover have "h = batch_generation by_id i" if "(h, i) |\<in>| ready" for h i
    using that by (auto simp: ready_def fset_of_list.rep_eq)
  ultimately have "order_inv by_id ready indeg []" unfolding order_inv_def by simp
  then show "order_inv by_id (fset_of_list (map (\<lambda>(i, _). gen_key by_id i) (filter (\<lambda>(_, count). count = 0) (iter_map indeg)))) indeg []"
    by (simp only: ready_def)
qed

lemma topological_ops_run:
  assumes "P []"
    and step: "\<And>ready indeg out g i op. order_inv (batch_by_id ops) ready indeg out \<Longrightarrow> P out \<Longrightarrow> (g, i) |\<in>| ready \<Longrightarrow>
      (\<forall>y. y |\<in>| ready \<longrightarrow> (g, i) \<le> y) \<Longrightarrow> fmlookup (batch_by_id ops) i = Some op \<Longrightarrow> P (out @ [op])"
  obtains out indeg where "order_inv (batch_by_id ops) {||} indeg out" "P out"
    "topological_ops ops = (if acyclic (dep_rel (o_id ` set ops) (batch_deps (batch_by_id ops))) then Ok out
      else Err (Storage ''cycle in input op batch''))"
proof -
  let ?b = "batch_by_id ops"
  obtain indeg ch where f: "fold (count_deps ?b) (iter_map ?b) (fmempty, fmempty) = (indeg, ch)" by fastforce
  let ?ready = "fset_of_list (map (\<lambda>(i, _). gen_key ?b i) (filter (\<lambda>(_, count). count = 0) (iter_map indeg)))"
  obtain out indeg' where o: "order_loop (fcard (fmdom ?b)) ?b ch ?ready indeg [] = ({||}, Ok out)"
    "order_inv ?b {||} indeg' out" "P out"
    using order_loop_done[OF batch_start(2)[OF f] batch_start(1)[OF f] ids_ok_batch, of "fcard (fmdom ?b)" P] assms
    by fastforce
  have "kahn_inv (fset (fmdom ?b)) (batch_deps ?b) {} (map o_id out) (\<lambda>i. the (fmlookup indeg' i))"
    using o(2) by (simp add: order_inv_def)
  from bg.kahn_done_iff[OF this]
  have "length out = fcard (fmdom ?b) \<longleftrightarrow> acyclic (dep_rel (o_id ` set ops) (batch_deps ?b))"
    by (simp add: fcard.rep_eq fmdom_batch_by_id)
  then show thesis
    using that[OF o(2,3)] unfolding topological_ops_def Let_def f prod.case o(1) by simp
qed

lemma lookup_batch_inj:
  assumes "inj_on o_id (set ops)" "op \<in> set ops"
  shows "fmlookup (batch_by_id ops) (o_id op) = Some op"
proof -
  have "o_id op |\<in>| fmdom (batch_by_id ops)" using fmdom_batch_by_id[of ops] assms(2) by auto
  then obtain q where q: "fmlookup (batch_by_id ops) (o_id op) = Some q" by (auto simp: fmlookup_dom_iff)
  then have "q = op" using lookup_batch_by_id[OF q] assms by (auto dest: inj_onD)
  then show ?thesis using q by simp
qed

lemma batch_deps_inj:
  assumes "inj_on o_id (set ops)" "op \<in> set ops"
  shows "batch_deps (batch_by_id ops) (o_id op) = fset (b_deps (body op)) \<inter> o_id ` set ops"
  using lookup_batch_inj[OF assms] fmdom_batch_by_id[of ops] by (auto simp: batch_deps_def contains_key_fmdom)

definition batch_relation :: "operation list \<Rightarrow> (op_id \<times> op_id) set" where
  "batch_relation ops = {(d, i). \<exists>op \<in> set ops. i = o_id op \<and> d |\<in>| b_deps (body op) \<and> d \<in> o_id ` set ops}"

lemma batch_relation_dep_rel:
  "inj_on o_id (set ops) \<Longrightarrow> dep_rel (o_id ` set ops) (batch_deps (batch_by_id ops)) = batch_relation ops"
  by (auto simp: dep_rel_def batch_relation_def batch_deps_inj)

definition op_key :: "operation \<Rightarrow> u64 \<times> op_id" where
  "op_key op = (b_generation (body op), o_id op)"

lemma gen_key_op: "fmlookup (batch_by_id ops) i = Some op \<Longrightarrow> gen_key (batch_by_id ops) i = op_key op"
  using lookup_batch_by_id[of ops i op] by (simp add: op_key_def batch_generation_def)

lemma order_inv_out:
  assumes "order_inv (batch_by_id ops) ready indeg out" "inj_on o_id (set ops)"
  shows "set out \<subseteq> set ops" "distinct out" "distinct (map o_id out)" "deps_first (batch_deps (batch_by_id ops)) (map o_id out)"
proof -
  show "set out \<subseteq> set ops" using assms(1) lookup_batch_by_id by (fastforce simp: order_inv_def)
  show d: "distinct (map o_id out)" and "deps_first (batch_deps (batch_by_id ops)) (map o_id out)"
    using assms(1) by (auto simp: order_inv_def kahn_inv_def)
  then show "distinct out" by (simp add: distinct_map)
qed

lemma order_done_all:
  assumes "order_inv (batch_by_id ops) {||} indeg out" "inj_on o_id (set ops)" "acyclic (batch_relation ops)"
  shows "set out = set ops"
proof -
  have "set (map o_id out) = o_id ` set ops"
  proof -
    have "kahn_inv (fset (fmdom (batch_by_id ops))) (batch_deps (batch_by_id ops)) {} (map o_id out) (\<lambda>i. the (fmlookup indeg i))"
      using assms(1) by (simp add: order_inv_def)
    from bg.kahn_done_complete[OF this] show ?thesis
      using assms(3) by (simp only: fmdom_batch_by_id batch_relation_dep_rel[OF assms(2)])
  qed
  then show ?thesis using order_inv_out(1)[OF assms(1,2)] assms(2)
    by (metis image_set inj_on_image_eq_iff order_refl)
qed

text \<open>
  C23. \<open>topological_ops\<close> on a batch whose ids are distinct: it answers an error exactly when the
  batch depends on itself in a circle, and otherwise a list of the batch's operations, each once,
  in which every operation stands after all its dependencies inside the batch. The loop has always
  enough fuel, so an answer is always given.
\<close>

theorem topological_ops_correct:
  assumes "inj_on o_id (set ops)"
  shows "case topological_ops ops of
      Ok out \<Rightarrow> acyclic (batch_relation ops) \<and> distinct out \<and> set out = set ops \<and>
        (\<forall>ys op zs. out = ys @ op # zs \<longrightarrow> fset (b_deps (body op)) \<inter> o_id ` set ops \<subseteq> o_id ` set ys)
    | Err e \<Rightarrow> \<not> acyclic (batch_relation ops) \<and> e = Storage ''cycle in input op batch''"
proof -
  obtain out indeg where o: "order_inv (batch_by_id ops) {||} indeg out"
    "topological_ops ops = (if acyclic (batch_relation ops) then Ok out else Err (Storage ''cycle in input op batch''))"
    using topological_ops_run[where P = "\<lambda>_. True"] batch_relation_dep_rel[OF assms] by metis
  note out = order_inv_out[OF o(1) assms]
  have "fset (b_deps (body op)) \<inter> o_id ` set ops \<subseteq> o_id ` set ys" if "out = ys @ op # zs" for ys op zs
  proof -
    have "op \<in> set ops" using out(1) that by auto
    moreover have "batch_deps (batch_by_id ops) (o_id op) \<subseteq> set (map o_id ys)"
      using out(4) that unfolding deps_first_def by (metis list.simps(9) map_append)
    ultimately show ?thesis using batch_deps_inj[OF assms] by auto
  qed
  then show ?thesis using o(2) out(2) order_done_all[OF o(1) assms] by auto
qed

lemma order_pops_least:
  assumes gens: "\<forall>op \<in> set ops. \<forall>q \<in> set ops. o_id q |\<in>| b_deps (body op) \<longrightarrow> b_generation (body q) < b_generation (body op)"
    and inj: "inj_on o_id (set ops)"
    and inv: "order_inv (batch_by_id ops) ready indeg out"
    and least: "\<forall>y. y |\<in>| ready \<longrightarrow> (g, i) \<le> y" and op: "q \<in> set ops - set out"
  shows "(g, i) \<le> op_key q"
proof -
  let ?b = "batch_by_id ops" and ?S = "set ops - set out"
  obtain m where m: "m \<in> ?S" "\<forall>x \<in> ?S. op_key m \<le> op_key x"
  proof -
    have fin: "finite (op_key ` ?S)" "op_key ` ?S \<noteq> {}" using op by auto
    obtain m where "m \<in> ?S" "Min (op_key ` ?S) = op_key m" using Min_in[OF fin] by blast
    then show thesis using that Min_le[OF fin(1)] by auto
  qed
  have kahn: "kahn_inv (fset (fmdom ?b)) (batch_deps ?b) (snd ` fset ready) (map o_id out) (\<lambda>i. the (fmlookup indeg i))"
    using inv by (simp add: order_inv_def)
  have "batch_deps ?b (o_id m) \<subseteq> set (map o_id out)"
  proof
    fix d assume "d \<in> batch_deps ?b (o_id m)"
    then obtain x where x: "x \<in> set ops" "d = o_id x" "o_id x |\<in>| b_deps (body m)"
      using batch_deps_inj[OF inj, of m] m(1) by auto
    then have "op_key x < op_key m" using gens m(1) by (auto simp: op_key_def)
    then have "x \<notin> ?S" using m(2) by (meson leD)
    then show "d \<in> set (map o_id out)" using x by auto
  qed
  moreover have "o_id m \<in> fset (fmdom ?b)" using m(1) by (auto simp: fmdom_batch_by_id)
  ultimately have "o_id m \<in> snd ` fset ready \<union> set (map o_id out)"
    using kahn by (simp add: kahn_inv_def)
  moreover have "o_id m \<notin> set (map o_id out)"
    using m(1) inj order_inv_out(1)[OF inv inj] by (auto dest: inj_onD)
  ultimately obtain h where h: "(h, o_id m) |\<in>| ready" by auto
  then have "(h, o_id m) = op_key m"
  proof -
    have "h = batch_generation (batch_by_id ops) (o_id m)" using inv h by (simp add: order_inv_def)
    then show ?thesis using gen_key_op[OF lookup_batch_inj[OF inj]] m(1) by simp
  qed
  moreover have "(g, i) \<le> (h, o_id m)" using least h by blast
  moreover have "op_key m \<le> op_key q" using m(2) op by blast
  ultimately show ?thesis by simp
qed

definition sample_batch :: "operation list" where
  "sample_batch =
    [sample_op (ident 2) 2 (Some (ident 1)) {|ident 1, ident 9|} 1 (Control (AddPeer (ident 20))),
     sample_op (ident 1) 1 None {||} 0 sample_genesis_payload]"

lemma sample_batch_inj: "inj_on o_id (set sample_batch)"
  by (simp add: sample_batch_def sample_op_def)

theorem topological_ops_correct_witness:
  "inj_on o_id (set sample_batch) \<and>
   (case topological_ops sample_batch of
      Ok out \<Rightarrow> acyclic (batch_relation sample_batch) \<and> distinct out \<and> set out = set sample_batch \<and>
        (\<forall>ys op zs. out = ys @ op # zs \<longrightarrow> fset (b_deps (body op)) \<inter> o_id ` set sample_batch \<subseteq> o_id ` set ys)
    | Err e \<Rightarrow> \<not> acyclic (batch_relation sample_batch) \<and> e = Storage ''cycle in input op batch'')"
  using topological_ops_correct[OF sample_batch_inj] sample_batch_inj by blast

lemma sorted_batch_run:
  assumes gens: "\<forall>op \<in> set ops. \<forall>q \<in> set ops. o_id q |\<in>| b_deps (body op) \<longrightarrow> b_generation (body q) < b_generation (body op)"
    and inj: "inj_on o_id (set ops)"
  obtains out indeg where "order_inv (batch_by_id ops) {||} indeg out" "sorted (map op_key out)"
    "topological_ops ops = (if acyclic (batch_relation ops) then Ok out else Err (Storage ''cycle in input op batch''))"
proof -
  let ?P = "\<lambda>out. sorted (map op_key out) \<and> (\<forall>x \<in> set out. \<forall>y \<in> set ops - set out. op_key x \<le> op_key y)"
  have "?P (out @ [op])"
    if inv: "order_inv (batch_by_id ops) ready indeg out" and P: "?P out" and i: "(g, i) |\<in>| ready"
      and least: "\<forall>y. y |\<in>| ready \<longrightarrow> (g, i) \<le> y" and op: "fmlookup (batch_by_id ops) i = Some op"
    for ready indeg out g i op
  proof -
    have key: "(g, i) = op_key op" using inv i gen_key_op[OF op] by (auto simp: order_inv_def)
    have "i \<notin> set (map o_id out)" using inv i by (force simp: order_inv_def kahn_inv_def)
    then have new: "op \<in> set ops - set out" using lookup_batch_by_id[OF op] by auto
    have "op_key op \<le> op_key y" if "y \<in> set ops - set out" for y
      using order_pops_least[OF gens inj inv least that] by (simp add: key)
    then show ?thesis using P new by (auto simp: sorted_append)
  qed
  then obtain out indeg where "order_inv (batch_by_id ops) {||} indeg out" "?P out"
    "topological_ops ops = (if acyclic (dep_rel (o_id ` set ops) (batch_deps (batch_by_id ops))) then Ok out
      else Err (Storage ''cycle in input op batch''))"
    by (rule topological_ops_run[of ?P ops, rotated]) simp_all
  then show thesis using that batch_relation_dep_rel[OF inj] by simp
qed

text \<open>
  C24. On a batch whose generations grow along its dependencies, as every validated operation's do,
  \<open>topological_ops\<close> is the sort by generation and then by id: the result does not depend on the
  order the operations arrived in.
\<close>

theorem topological_ops_sorts:
  assumes "inj_on o_id (set ops)"
    and "\<forall>op \<in> set ops. \<forall>q \<in> set ops. o_id q |\<in>| b_deps (body op) \<longrightarrow> b_generation (body q) < b_generation (body op)"
  shows "topological_ops ops = Ok (sort_key op_key (remdups ops))"
proof -
  obtain out indeg where o: "order_inv (batch_by_id ops) {||} indeg out" "sorted (map op_key out)"
    "topological_ops ops = (if acyclic (batch_relation ops) then Ok out else Err (Storage ''cycle in input op batch''))"
    by (rule sorted_batch_run[OF assms(2,1)])
  have "acyclic (batch_relation ops)"
  proof -
    let ?gen = "\<lambda>i. batch_generation (batch_by_id ops) i"
    have "?gen (o_id op) = b_generation (body op)" if "op \<in> set ops" for op
      using lookup_batch_inj[OF assms(1) that] by (simp add: batch_generation_def)
    then have "batch_relation ops \<subseteq> measure (\<lambda>i. unat (?gen i))"
      using assms(2) by (auto simp: batch_relation_def word_less_nat_alt)
    then show ?thesis using wf_measure wf_subset wf_acyclic by blast
  qed
  moreover have "out = sort_key op_key (remdups ops)"
  proof (rule sym, rule map_sorted_distinct_set_unique[of op_key])
    show "inj_on op_key (set (sort_key op_key (remdups ops)) \<union> set out)"
      using assms(1) order_inv_out(1)[OF o(1) assms(1)] by (auto simp: inj_on_def op_key_def)
    show "distinct (map op_key (sort_key op_key (remdups ops)))"
      using assms(1) by (auto simp: distinct_map inj_on_def op_key_def)
    show "distinct (map op_key out)" 
      using order_inv_out(2)[OF o(1) assms(1)] order_inv_out(1)[OF o(1) assms(1)] assms(1)
      by (auto simp: distinct_map inj_on_def op_key_def)
    show "set (sort_key op_key (remdups ops)) = set out"
      using order_done_all[OF o(1) assms(1) calculation] by simp
  qed (simp_all add: o(2))
  ultimately show ?thesis using o(3) by simp
qed

theorem topological_ops_sorts_witness:
  "topological_ops sample_batch = Ok (sort_key op_key (remdups sample_batch)) \<and>
   sort_key op_key (remdups sample_batch) = rev sample_batch"
proof -
  have "topological_ops sample_batch = Ok (sort_key op_key (remdups sample_batch))"
    by (rule topological_ops_sorts[OF sample_batch_inj])
      (simp add: sample_batch_def sample_op_def sample_body_def)
  then show ?thesis by (simp add: sample_batch_def sample_op_def sample_body_def op_key_def)
qed

end
