(* ===== verification/Topology_Store.thy ===== *)
theory Topology_Store
  imports Topology
begin

text \<open>
  Topological orders of stored operations (\<open>topological_meta\<close> and its callers in
  \<open>oplog/topology.rs\<close>). An operation with a missing record or an unresolved dependency is a hole:
  it and what depends on it are left out, and only a cycle among the rest is an error.
\<close>

section \<open>Definitions\<close>

type_synonym present_map = "(op_id, op_meta \<times> nat) btree_map"

definition scan_dep ::
  "snapshot_read \<Rightarrow> op_id btree_set \<Rightarrow> op_id \<Rightarrow> op_id \<Rightarrow> nat \<times> bool \<times> graph_children \<Rightarrow> (nat \<times> bool \<times> graph_children) result" where
  "scan_dep read ids i dep = (\<lambda>(deps_in_set, dangling, children).
    if dep |\<in>| ids then Ok (deps_in_set + 1, dangling, add_child dep i children)
    else rbind (sr_dep_resolvable read dep) (\<lambda>ok. Ok (deps_in_set, if ok then dangling else True, children)))"

definition scan_id ::
  "snapshot_read \<Rightarrow> op_id btree_set \<Rightarrow> op_id \<Rightarrow> present_map \<times> graph_children \<times> op_id btree_set
    \<Rightarrow> (present_map \<times> graph_children \<times> op_id btree_set) result" where
  "scan_id read ids i = (\<lambda>(present, children, blocked).
    rbind (sr_get_meta read i) (\<lambda>meta.
    case meta of
      None \<Rightarrow> Ok (present, children, finsert i blocked)
    | Some meta \<Rightarrow>
        rbind (sr_dep_resolvable read i) (\<lambda>ok.
        if \<not> ok then Ok (present, children, finsert i blocked)
        else rbind (fold_res (scan_dep read ids i) (iter_set (m_deps meta)) (0, False, children))
          (\<lambda>(deps_in_set, dangling, children).
            if dangling then Ok (present, children, finsert i blocked)
            else Ok (fmupd i (meta, deps_in_set) present, children, blocked)))))"

text \<open>The frontier is a stack, its top first.\<close>

definition block_child ::
  "op_id btree_set \<Rightarrow> op_id \<Rightarrow> present_map \<times> op_id btree_set \<times> op_id list \<Rightarrow> present_map \<times> op_id btree_set \<times> op_id list" where
  "block_child ids child = (\<lambda>(present, blocked, frontier).
    if child |\<in>| ids \<and> child |\<notin>| blocked
    then (fmdrop child present, finsert child blocked, child # frontier) else (present, blocked, frontier))"

abbreviation unblocked :: "op_id btree_set \<Rightarrow> op_id btree_set \<Rightarrow> nat" where
  "unblocked ids blocked \<equiv> fcard (ids |-| blocked)"

lemma block_child_measure:
  "fold (block_child ids) cs (present, blocked, frontier) = (present', blocked', frontier') \<Longrightarrow>
    2 * unblocked ids blocked' + length frontier' \<le> 2 * unblocked ids blocked + length frontier"
proof (induction cs arbitrary: present blocked frontier)
  case (Cons c cs)
  show ?case
  proof (cases "c |\<in>| ids \<and> c |\<notin>| blocked")
    case True
    have "unblocked ids (finsert c blocked) < unblocked ids blocked"
      by (rule pfsubset_fcard_mono) (use True in auto)
    then show ?thesis
      using Cons.IH[of "fmdrop c present" "finsert c blocked" "c # frontier"] Cons.prems True
      by (simp add: block_child_def)
  next
    case False
    then show ?thesis using Cons.IH[of present blocked frontier] Cons.prems by (auto simp: block_child_def)
  qed
qed simp

function block_loop ::
  "op_id btree_set \<Rightarrow> graph_children \<Rightarrow> present_map \<Rightarrow> op_id btree_set \<Rightarrow> op_id list \<Rightarrow> present_map \<times> op_id btree_set" where
  "block_loop ids children present blocked [] = (present, blocked)"
| "block_loop ids children present blocked (i # frontier) =
    (let r = fold (block_child ids) (children_of children i) (present, blocked, frontier)
     in block_loop ids children (fst r) (fst (snd r)) (snd (snd r)))"
  by pat_completeness auto
termination
proof (relation "measure (\<lambda>(ids, children, present, blocked, frontier). 2 * unblocked ids blocked + length frontier)")
  fix ids children present blocked i frontier
  fix r assume r: "r = fold (block_child ids) (children_of children i) (present, blocked, frontier)"
  obtain p b f where "r = (p, b, f)" by (cases r)
  then show "((ids, children, fst r, fst (snd r), snd (snd r)), ids, children, present, blocked, i # frontier)
      \<in> measure (\<lambda>(ids, children, present, blocked, frontier). 2 * unblocked ids blocked + length frontier)"
    using block_child_measure[of ids "children_of children i" present blocked frontier p b f] r by simp
qed simp

definition release_present :: "op_id \<Rightarrow> present_map \<times> op_id list \<Rightarrow> present_map \<times> op_id list" where
  "release_present child = (\<lambda>(present, ready).
    case fmlookup present child of
      None \<Rightarrow> (present, ready)
    | Some (meta, count) \<Rightarrow>
        let count = count - 1
        in (fmupd child (meta, count) present, if count = 0 then ready @ [child] else ready))"

lemma release_present_dom:
  "fold release_present cs (present, ready) = (present', ready') \<Longrightarrow> fmdom present' = fmdom present"
proof (induction cs arbitrary: present ready)
  case (Cons c cs)
  obtain p r where r: "release_present c (present, ready) = (p, r)" by fastforce
  then have "fmdom p = fmdom present"
    by (auto simp: release_present_def Let_def fmdomI split: option.splits prod.splits)
  then show ?case using Cons.IH[of p r] Cons.prems r by simp
qed simp

function fifo_loop :: "graph_children \<Rightarrow> present_map \<Rightarrow> op_id list \<Rightarrow> op_meta list \<Rightarrow> op_meta list" where
  "fifo_loop children present [] out = out"
| "fifo_loop children present (i # ready) out =
    (case fmlookup present i of
       None \<Rightarrow> fifo_loop children present ready out
     | Some (meta, _) \<Rightarrow>
         let r = fold release_present (children_of children i) (fmdrop i present, ready)
         in fifo_loop children (fst r) (snd r) (out @ [meta]))"
  by pat_completeness auto
termination
proof (relation "measures [\<lambda>(children, present, ready, out). fcard (fmdom present), \<lambda>(children, present, ready, out). length ready]")
  fix children present i ready out x meta n r
  assume i: "fmlookup present i = Some x" and r: "r = fold release_present (children_of children i) (fmdrop i present, ready)"
  obtain p q where pq: "r = (p, q)" by (cases r)
  have "fmdom p = fmdom (fmdrop i present)" using release_present_dom[of "children_of children i" "fmdrop i present" ready p q] r pq by simp
  moreover have "fcard (fmdom (fmdrop i present)) < fcard (fmdom present)"
    unfolding fmdom_drop by (rule fcard_fminus1_less) (rule fmdomI[OF i])
  ultimately show "((children, fst r, snd r, out @ [meta]), children, present, i # ready, out)
      \<in> measures [\<lambda>(children, present, ready, out). fcard (fmdom present), \<lambda>(children, present, ready, out). length ready]"
    by (simp add: pq)
qed auto

definition topological_meta :: "snapshot_read \<Rightarrow> op_id btree_set \<Rightarrow> op_meta list result" where
  "topological_meta read ids =
    rbind (fold_res (scan_id read ids) (iter_set ids) (fmempty, fmempty, {||})) (\<lambda>(present, children, blocked).
    let (present, blocked) = block_loop ids children present blocked (rev (iter_set blocked));
        ready = map fst (filter (\<lambda>(_, _, count). count = 0) (iter_map present));
        expected = fcard (fmdom present);
        out = fifo_loop children present ready []
    in if length out \<noteq> expected then Err (Storage ''cycle in op graph'') else Ok out)"

definition subset_entries_in :: "snapshot_read \<Rightarrow> op_id btree_set \<Rightarrow> (operation \<times> op_meta) list result" where
  "subset_entries_in read ids =
    rbind (topological_meta read ids) (map_res (\<lambda>meta.
      rbind (sr_get_op read (m_id meta)) (\<lambda>op.
      rbind (ok_or op (Storage ''missing op'')) (\<lambda>op. Ok (op, meta)))))"

definition subset_in :: "snapshot_read \<Rightarrow> op_id btree_set \<Rightarrow> operation list result" where
  "subset_in read ids = rbind (subset_entries_in read ids) (\<lambda>entries. Ok (map fst entries))"

definition topological_entries :: "snapshot_read \<Rightarrow> topic_id \<Rightarrow> (operation \<times> op_meta) list result" where
  "topological_entries read topic = rbind (sr_list_op_ids read topic) (subset_entries_in read)"

definition topological :: "snapshot_read \<Rightarrow> topic_id \<Rightarrow> operation list result" where
  "topological read topic = rbind (topological_entries read topic) (\<lambda>entries. Ok (map fst entries))"

definition topological_ids :: "snapshot_read \<Rightarrow> op_id btree_set \<Rightarrow> op_id list result" where
  "topological_ids read ids = rbind (topological_meta read ids) (\<lambda>metas. Ok (map m_id metas))"

section \<open>Holes\<close>

definition deps_of :: "(op_id, op_meta) btree_map \<Rightarrow> op_id \<Rightarrow> op_id set" where
  "deps_of metas i = (case fmlookup metas i of None \<Rightarrow> {} | Some m \<Rightarrow> fset (m_deps m))"

inductive hole :: "(op_id, operation) btree_map \<Rightarrow> (op_id, op_meta) btree_map \<Rightarrow> op_id btree_set \<Rightarrow> op_id \<Rightarrow> bool"
  for ops metas ids where
  unresolved: "i |\<in>| ids \<Longrightarrow> \<not> resolvable_in ops metas i \<Longrightarrow> hole ops metas ids i"
| dangling: "i |\<in>| ids \<Longrightarrow> d \<in> deps_of metas i \<Longrightarrow> d |\<notin>| ids \<Longrightarrow> \<not> resolvable_in ops metas d \<Longrightarrow> hole ops metas ids i"
| dependent: "i |\<in>| ids \<Longrightarrow> d \<in> deps_of metas i \<Longrightarrow> hole ops metas ids d \<Longrightarrow> hole ops metas ids i"

lemma hole_in: "hole ops metas ids i \<Longrightarrow> i |\<in>| ids"
  by (induction rule: hole.induct)

definition whole :: "(op_id, operation) btree_map \<Rightarrow> (op_id, op_meta) btree_map \<Rightarrow> op_id btree_set \<Rightarrow> op_id set" where
  "whole ops metas ids = {i. i |\<in>| ids \<and> \<not> hole ops metas ids i}"

definition whole_deps :: "(op_id, op_meta) btree_map \<Rightarrow> op_id btree_set \<Rightarrow> op_id \<Rightarrow> op_id set" where
  "whole_deps metas ids i = deps_of metas i \<inter> fset ids"

lemma whole_deps_whole: "i \<in> whole ops metas ids \<Longrightarrow> whole_deps metas ids i \<subseteq> whole ops metas ids"
  by (auto simp: whole_def whole_deps_def intro: hole.dependent)

interpretation sg: dep_graph "whole ops metas ids" "whole_deps metas ids" for ops metas ids
proof unfold_locales
  show "finite (whole ops metas ids)"
    by (rule finite_subset[of _ "fset ids"]) (auto simp: whole_def)
qed (rule whole_deps_whole)

section \<open>Scanning\<close>

definition sound_here :: "(op_id, operation) btree_map \<Rightarrow> (op_id, op_meta) btree_map \<Rightarrow> op_id btree_set \<Rightarrow> op_id \<Rightarrow> bool" where
  "sound_here ops metas ids i \<longleftrightarrow>
    resolvable_in ops metas i \<and> (\<forall>d \<in> deps_of metas i. d |\<notin>| ids \<longrightarrow> resolvable_in ops metas d)"

definition scanned ::
  "(op_id, operation) btree_map \<Rightarrow> (op_id, op_meta) btree_map \<Rightarrow> op_id btree_set \<Rightarrow> op_id set
    \<Rightarrow> present_map \<times> graph_children \<times> op_id btree_set \<Rightarrow> bool" where
  "scanned ops metas ids seen = (\<lambda>(present, ch, blocked).
    (\<forall>d. child_set ch d = {j \<in> seen. resolvable_in ops metas j \<and> d \<in> whole_deps metas ids j}) \<and>
    (\<forall>j. fmlookup present j = (if j \<in> seen \<and> sound_here ops metas ids j
        then Some (the (fmlookup metas j), card (whole_deps metas ids j)) else None)) \<and>
    fset blocked = {j \<in> seen. \<not> sound_here ops metas ids j})"

context coherent_snapshot
begin

lemma scan_dep_in: "d |\<in>| ids \<Longrightarrow> scan_dep read ids i d (n, b, ch) = Ok (n + 1, b, add_child d i ch)"
  by (simp add: scan_dep_def)

lemma scan_dep_out: "d |\<notin>| ids \<Longrightarrow> scan_dep read ids i d (n, b, ch) = Ok (n, b \<or> \<not> resolvable_in ops metas d, ch)"
  by (simp add: scan_dep_def)

lemma scan_deps:
  assumes "distinct ds"
  shows "\<exists>ch'. fold_res (scan_dep read ids i) ds (n, b, ch) =
      Ok (n + card {d \<in> set ds. d |\<in>| ids}, b \<or> (\<exists>d \<in> set ds. d |\<notin>| ids \<and> \<not> resolvable_in ops metas d), ch') \<and>
    (\<forall>d. child_set ch' d = (if d \<in> set ds \<and> d |\<in>| ids then insert i (child_set ch d) else child_set ch d))"
  using assms
proof (induction ds arbitrary: n b ch)
  case (Cons x ds)
  show ?case
  proof (cases "x |\<in>| ids")
    case True
    have set: "{d \<in> set (x # ds). d |\<in>| ids} = insert x {d \<in> set ds. d |\<in>| ids}" using True by auto
    have card: "card {d \<in> set (x # ds). d |\<in>| ids} = Suc (card {d \<in> set ds. d |\<in>| ids})"
      unfolding set using Cons.prems by simp
    obtain ch' where ch': "fold_res (scan_dep read ids i) ds (n + 1, b, add_child x i ch) =
        Ok (n + 1 + card {d \<in> set ds. d |\<in>| ids}, b \<or> (\<exists>d \<in> set ds. d |\<notin>| ids \<and> \<not> resolvable_in ops metas d), ch')"
      "\<forall>d. child_set ch' d = (if d \<in> set ds \<and> d |\<in>| ids then insert i (child_set (add_child x i ch) d) else child_set (add_child x i ch) d)"
      using Cons.IH[of "n + 1" b "add_child x i ch"] Cons.prems by auto
    show ?thesis
      unfolding card using ch' True
      by (intro exI[of _ ch']) (auto simp: scan_dep_in[OF True] child_set_add_child)
  next
    case False
    have set: "{d \<in> set (x # ds). d |\<in>| ids} = {d \<in> set ds. d |\<in>| ids}" using False by auto
    show ?thesis
      unfolding set using Cons.IH[of n "b \<or> \<not> resolvable_in ops metas x" ch] Cons.prems False
      by (auto simp: scan_dep_out[OF False])
  qed
qed simp

lemma scan_step:
  assumes "scanned ops metas ids seen (present, ch, blocked)" and "i \<notin> seen"
  shows "\<exists>s. scan_id read ids i (present, ch, blocked) = Ok s \<and> scanned ops metas ids (insert i seen) s"
proof (cases "resolvable_in ops metas i")
  case False
  then have "\<not> sound_here ops metas ids i" by (simp add: sound_here_def)
  moreover have "scan_id read ids i (present, ch, blocked) = Ok (present, ch, finsert i blocked)"
    using False by (auto simp: scan_id_def split: option.split)
  ultimately show ?thesis using assms False by (auto simp: scanned_def)
next
  case True
  then obtain m where m: "fmlookup metas i = Some m" by (auto simp: resolvable_in_def contains_key_def)
  have D: "deps_of metas i = set (iter_set (m_deps m))" by (simp add: deps_of_def m)
  have W: "{d \<in> set (iter_set (m_deps m)). d |\<in>| ids} = whole_deps metas ids i"
    by (auto simp: whole_deps_def D)
  have dang: "(\<exists>d \<in> set (iter_set (m_deps m)). d |\<notin>| ids \<and> \<not> resolvable_in ops metas d) \<longleftrightarrow> \<not> sound_here ops metas ids i"
    using True by (auto simp: sound_here_def D)
  have in_W: "d \<in> set (iter_set (m_deps m)) \<and> d |\<in>| ids \<longleftrightarrow> d \<in> whole_deps metas ids i" for d
    using W by blast
  obtain ch' where ch': "fold_res (scan_dep read ids i) (iter_set (m_deps m)) (0, False, ch) =
      Ok (card (whole_deps metas ids i), \<not> sound_here ops metas ids i, ch')"
    "\<And>d. child_set ch' d = (if d \<in> whole_deps metas ids i then insert i (child_set ch d) else child_set ch d)"
    using scan_deps[OF distinct_iter_set, of ids i "m_deps m" 0 False ch] unfolding W dang in_W by auto
  have child: "child_set ch' d = {j \<in> insert i seen. resolvable_in ops metas j \<and> d \<in> whole_deps metas ids j}" for d
    using ch'(2)[of d] assms(1) True by (auto simp: scanned_def)
  show ?thesis
  proof (cases "sound_here ops metas ids i")
    case sound: True
    then have "scan_id read ids i (present, ch, blocked) =
        Ok (fmupd i (m, card (whole_deps metas ids i)) present, ch', blocked)"
      using True by (simp add: scan_id_def m ch'(1))
    moreover have "scanned ops metas ids (insert i seen) (fmupd i (m, card (whole_deps metas ids i)) present, ch', blocked)"
      using child assms sound m by (auto simp: scanned_def)
    ultimately show ?thesis by blast
  next
    case unsound: False
    then have "scan_id read ids i (present, ch, blocked) = Ok (present, ch', finsert i blocked)"
      using True by (simp add: scan_id_def m ch'(1))
    moreover have "scanned ops metas ids (insert i seen) (present, ch', finsert i blocked)"
      using child assms unsound by (auto simp: scanned_def)
    ultimately show ?thesis by blast
  qed
qed

lemma scan_ids:
  assumes "distinct xs" "set xs \<inter> seen = {}" "scanned ops metas ids seen s"
  shows "\<exists>s'. fold_res (scan_id read ids) xs s = Ok s' \<and> scanned ops metas ids (seen \<union> set xs) s'"
  using assms
proof (induction xs arbitrary: seen s)
  case (Cons i xs)
  obtain s1 where s1: "scan_id read ids i s = Ok s1" "scanned ops metas ids (insert i seen) s1"
    using scan_step[of ids seen "fst s" "fst (snd s)" "snd (snd s)" i] Cons.prems by auto
  have "insert i seen \<union> set xs = seen \<union> set (i # xs)" by auto
  moreover have "set xs \<inter> insert i seen = {}" using Cons.prems by auto
  ultimately show ?case
    using Cons.IH[OF _ _ s1(2)] Cons.prems(1) by (simp add: s1(1))
qed simp

lemma scan_all:
  "\<exists>s. fold_res (scan_id read ids) (iter_set ids) (fmempty, fmempty, {||}) = Ok s \<and> scanned ops metas ids (fset ids) s"
  using scan_ids[of "iter_set ids" "{}" ids "(fmempty, fmempty, {||})"] by (simp add: scanned_def)

end

section \<open>Blocking what depends on a hole\<close>

definition child_rel :: "op_id btree_set \<Rightarrow> graph_children \<Rightarrow> (op_id \<times> op_id) set" where
  "child_rel ids ch = {(d, c). c \<in> child_set ch d \<and> c |\<in>| ids}"

lemma block_child_new:
  "c |\<in>| ids \<Longrightarrow> c |\<notin>| blocked \<Longrightarrow> block_child ids c (present, blocked, frontier) = (fmdrop c present, finsert c blocked, c # frontier)"
  by (simp add: block_child_def)

lemma block_child_old:
  "\<not> (c |\<in>| ids \<and> c |\<notin>| blocked) \<Longrightarrow> block_child ids c (present, blocked, frontier) = (present, blocked, frontier)"
  by (auto simp: block_child_def)

lemma block_children:
  "fold (block_child ids) cs (present, blocked, frontier) = (present', blocked', frontier') \<Longrightarrow>
    fset blocked' = fset blocked \<union> (set cs \<inter> fset ids) \<and>
    set frontier' = set frontier \<union> (set cs \<inter> fset ids - fset blocked) \<and>
    (\<forall>x. fmlookup present' x = (if x \<in> set cs \<inter> fset ids - fset blocked then None else fmlookup present x))"
proof (induction cs arbitrary: present blocked frontier)
  case (Cons c cs)
  show ?case
  proof (cases "c |\<in>| ids \<and> c |\<notin>| blocked")
    case True
    then have "fold (block_child ids) cs (fmdrop c present, finsert c blocked, c # frontier) = (present', blocked', frontier')"
      using Cons.prems by (simp add: block_child_new)
    from Cons.IH[OF this] show ?thesis using True by auto
  next
    case False
    then have "fold (block_child ids) cs (present, blocked, frontier) = (present', blocked', frontier')"
      using Cons.prems by (simp add: block_child_old)
    from Cons.IH[OF this] show ?thesis using False by auto
  qed
qed simp

lemma closed_rtrancl: "r `` S \<subseteq> S \<Longrightarrow> r\<^sup>* `` S = S"
  by (rule Image_closed_trancl)

lemma block_loop_closure:
  assumes "set frontier \<subseteq> fset blocked" "child_rel ids ch `` (fset blocked - set frontier) \<subseteq> fset blocked"
    and "block_loop ids ch present blocked frontier = (present', blocked')"
  shows "fset blocked' = (child_rel ids ch)\<^sup>* `` fset blocked \<and>
    (\<forall>x. fmlookup present' x = (if x |\<in>| blocked' \<and> x |\<notin>| blocked then None else fmlookup present x))"
  using assms
proof (induction ids ch present blocked frontier rule: block_loop.induct)
  case (1 ids ch present blocked)
  then show ?case by (simp add: closed_rtrancl)
next
  case (2 ids ch present blocked i frontier)
  let ?r = "child_rel ids ch"
  obtain p b f where r: "fold (block_child ids) (children_of ch i) (present, blocked, frontier) = (p, b, f)"
    by (metis prod_cases3)
  have succ: "set (children_of ch i) \<inter> fset ids = ?r `` {i}" by (auto simp: child_rel_def child_set_def)
  note s = block_children[OF r, unfolded succ]
  have "set f \<subseteq> fset b" using s "2.prems"(1) by auto
  moreover have "?r `` (fset b - set f) \<subseteq> fset b" using s "2.prems"(2) by auto
  moreover have "block_loop ids ch p b f = (present', blocked')" using "2.prems"(3) r by simp
  ultimately have IH: "fset blocked' = ?r\<^sup>* `` fset b"
    "\<And>x. fmlookup present' x = (if x |\<in>| blocked' \<and> x |\<notin>| b then None else fmlookup p x)"
    using "2.IH"[OF r[symmetric]] by simp_all
  have "?r\<^sup>* `` fset b = ?r\<^sup>* `` fset blocked"
    using s "2.prems"(1) by (auto intro: converse_rtrancl_into_rtrancl)
  moreover have "fset b \<subseteq> ?r\<^sup>* `` fset b" by auto
  ultimately show ?case using IH s by auto
qed

lemma scanned_child_rel:
  assumes "scanned ops metas ids (fset ids) (present, ch, blocked)"
  shows "(d, c) \<in> child_rel ids ch \<longleftrightarrow> c |\<in>| ids \<and> resolvable_in ops metas c \<and> d \<in> whole_deps metas ids c"
  using assms by (auto simp: child_rel_def scanned_def)

lemma blocked_is_hole:
  assumes s: "scanned ops metas ids (fset ids) (present, ch, blocked)"
  shows "(child_rel ids ch)\<^sup>* `` fset blocked = {i. hole ops metas ids i}"
proof (intro equalityI subsetI)
  fix i assume "i \<in> (child_rel ids ch)\<^sup>* `` fset blocked"
  then obtain b where b: "b |\<in>| blocked" "(b, i) \<in> (child_rel ids ch)\<^sup>*" by blast
  have "hole ops metas ids b"
  proof -
    have "b |\<in>| ids" "\<not> sound_here ops metas ids b" using s b(1) by (auto simp: scanned_def)
    then show ?thesis unfolding sound_here_def using hole.unresolved hole.dangling by blast
  qed
  with b(2) have "hole ops metas ids i"
  proof (induction rule: rtrancl_induct)
    case (step c d)
    then show ?case by (auto simp: scanned_child_rel[OF s] whole_deps_def intro: hole.dependent)
  qed
  then show "i \<in> {i. hole ops metas ids i}" by simp
next
  fix i assume "i \<in> {i. hole ops metas ids i}"
  then have "hole ops metas ids i" by simp
  then show "i \<in> (child_rel ids ch)\<^sup>* `` fset blocked"
  proof (induction rule: hole.induct)
    case (unresolved i)
    then have "i |\<in>| blocked" using s by (auto simp: scanned_def sound_here_def)
    then show ?case by blast
  next
    case (dangling i d)
    then have "i |\<in>| blocked" using s by (auto simp: scanned_def sound_here_def)
    then show ?case by blast
  next
    case (dependent i d)
    show ?case
    proof (cases "resolvable_in ops metas i")
      case True
      then have "(d, i) \<in> child_rel ids ch"
        using dependent hole_in[OF dependent(3)] by (simp add: scanned_child_rel[OF s] whole_deps_def)
      then show ?thesis using dependent.IH by (blast intro: rtrancl_into_rtrancl)
    next
      case False
      then have "i |\<in>| blocked" using s dependent(1) by (auto simp: scanned_def sound_here_def)
      then show ?thesis by blast
    qed
  qed
qed

lemma whole_sound: "i \<in> whole ops metas ids \<Longrightarrow> sound_here ops metas ids i"
  unfolding whole_def sound_here_def by (blast intro: hole.unresolved hole.dangling)

lemma blocked_present:
  assumes s: "scanned ops metas ids (fset ids) (present, ch, blocked)"
    and b: "block_loop ids ch present blocked (rev (iter_set blocked)) = (present', blocked')"
  shows "fmlookup present' i = (if i \<in> whole ops metas ids
      then Some (the (fmlookup metas i), card (whole_deps metas ids i)) else None)"
proof -
  have c: "fset blocked' = {i. hole ops metas ids i}"
    "fmlookup present' i = (if i |\<in>| blocked' \<and> i |\<notin>| blocked then None else fmlookup present i)"
    using block_loop_closure[OF _ _ b] by (auto simp: blocked_is_hole[OF s])
  have unsound: "\<not> sound_here ops metas ids i" if "i |\<in>| blocked" using s that by (auto simp: scanned_def)
  have present: "fmlookup present i = (if i |\<in>| ids \<and> sound_here ops metas ids i
      then Some (the (fmlookup metas i), card (whole_deps metas ids i)) else None)"
    using s by (simp add: scanned_def)
  have hole: "i |\<in>| blocked' \<longleftrightarrow> hole ops metas ids i" using c(1) by blast
  have "hole ops metas ids i" if "i |\<in>| ids" "\<not> sound_here ops metas ids i"
    using that whole_sound[of i ops metas ids] by (auto simp: whole_def)
  then show ?thesis
    using present unsound by (cases "hole ops metas ids i") (auto simp: c(2) hole whole_def)
qed

section \<open>Emitting\<close>

lemma release_present_fold:
  assumes "distinct cs"
  shows "fold release_present cs (present, ready) = (present', ready') \<Longrightarrow>
    (\<forall>c. fmlookup present' c = (if c \<in> set cs then map_option (\<lambda>(m, n). (m, n - 1)) (fmlookup present c) else fmlookup present c)) \<and>
    ready' = ready @ filter (\<lambda>c. \<exists>m n. fmlookup present c = Some (m, n) \<and> n - 1 = 0) cs"
  using assms
proof (induction cs arbitrary: present ready)
  case (Cons c cs)
  show ?case
  proof (cases "fmlookup present c")
    case None
    then have "release_present c (present, ready) = (present, ready)" by (simp add: release_present_def)
    then have "fold release_present cs (present, ready) = (present', ready')" using Cons.prems by simp
    from Cons.IH[OF this] Cons.prems None show ?thesis by auto
  next
    case (Some mn)
    obtain m n where mn: "mn = (m, n)" by (cases mn)
    let ?p = "fmupd c (m, n - 1) present"
    let ?r = "if n - 1 = 0 then ready @ [c] else ready"
    have "release_present c (present, ready) = (?p, ?r)" using Some mn by (simp add: release_present_def Let_def)
    then have f: "fold release_present cs (?p, ?r) = (present', ready')" using Cons.prems by simp
    have "filter (\<lambda>c'. \<exists>m' n'. fmlookup ?p c' = Some (m', n') \<and> n' - 1 = 0) cs =
        filter (\<lambda>c'. \<exists>m' n'. fmlookup present c' = Some (m', n') \<and> n' - 1 = 0) cs"
      using Cons.prems(2) by (intro filter_cong) auto
    with Cons.IH[OF f] Cons.prems(2) Some mn show ?thesis by (auto simp del: diff_is_0_eq diff_is_0_eq')
  qed
qed simp

definition present_count :: "present_map \<Rightarrow> op_id \<Rightarrow> nat" where
  "present_count present i = (case fmlookup present i of None \<Rightarrow> 0 | Some mn \<Rightarrow> snd mn)"

definition fifo_inv ::
  "(op_id, operation) btree_map \<Rightarrow> (op_id, op_meta) btree_map \<Rightarrow> op_id btree_set \<Rightarrow> present_map \<Rightarrow> op_id list \<Rightarrow> op_meta list \<Rightarrow> bool" where
  "fifo_inv ops metas ids present ready out \<longleftrightarrow>
    fset (fmdom present) = whole ops metas ids - set (map m_id out) \<and>
    (\<forall>i m n. fmlookup present i = Some (m, n) \<longrightarrow> fmlookup metas i = Some m) \<and>
    (\<forall>m \<in> set out. fmlookup metas (m_id m) = Some m) \<and> distinct ready \<and>
    kahn_inv (whole ops metas ids) (whole_deps metas ids) (set ready) (map m_id out) (present_count present)"

lemma fifo_step:
  assumes inv: "fifo_inv ops metas ids present (i # ready) out"
    and ids: "\<And>i m. fmlookup metas i = Some m \<Longrightarrow> m_id m = i"
    and ch: "\<And>d. child_set ch d \<inter> whole ops metas ids = {c \<in> whole ops metas ids. d \<in> whole_deps metas ids c}"
    and f: "fold release_present (children_of ch i) (fmdrop i present, ready) = (present', ready')"
  obtains m n where "fmlookup present i = Some (m, n)" "fifo_inv ops metas ids present' ready' (out @ [m])"
proof -
  let ?V = "whole ops metas ids" and ?D = "whole_deps metas ids"
  let ?cnt = "present_count present" and ?cnt' = "present_count present'"
  note k = inv[unfolded fifo_inv_def]
  have K: "kahn_inv ?V ?D (set (i # ready)) (map m_id out) ?cnt" using k by blast
  have i: "i \<in> ?V - set (map m_id out)" "i \<notin> set ready" using K k by (auto simp: kahn_inv_def)
  then have "i |\<in>| fmdom present" using k by auto
  then obtain m n where m: "fmlookup present i = Some (m, n)" by (auto simp: fmlookup_dom_iff)
  then have mi: "fmlookup metas i = Some m" "m_id m = i" using k ids by auto
  note r = release_present_fold[OF distinct_children_of f]
  have cs: "c \<in> set (children_of ch i) \<longleftrightarrow> i \<in> ?D c" if "c \<in> ?V" for c
    using ch[of i] that by (auto simp: child_set_def)
  have present: "fmlookup present c = None \<longleftrightarrow> c \<notin> ?V - set (map m_id out)" for c
  proof -
    have "fmlookup present c = None \<longleftrightarrow> c \<notin> fset (fmdom present)"
      by (cases "fmlookup present c") (auto simp: fmlookup_dom_iff)
    then show ?thesis using k by simp
  qed
  have child: "c \<in> ?V - set (map m_id out)" "c \<noteq> i" "c \<notin> set (i # ready)" if "c \<in> ?V" "i \<in> ?D c" for c
    using sg.kahn_child(1)[OF K _ that] that by auto
  have cnt': "?cnt' c = (if i \<in> ?D c then ?cnt c - 1 else ?cnt c)" if c: "c \<in> ?V" for c
  proof (cases "c = i")
    case True
    then have "i \<notin> ?D i" using child(2)[of i] i(1) by blast
    then have "?cnt' c = 0" using r True by (auto simp: present_count_def split: option.split)
    moreover have "?cnt i = 0" using sg.kahn_zero_iff[OF K] i(1) by auto
    ultimately show ?thesis using True \<open>i \<notin> ?D i\<close> by simp
  next
    case False
    then show ?thesis using r cs[OF c] by (auto simp: present_count_def split: option.split)
  qed
  have new: "set (filter (\<lambda>c. \<exists>m n. fmlookup (fmdrop i present) c = Some (m, n) \<and> n - 1 = 0) (children_of ch i)) =
      {c \<in> ?V. i \<in> ?D c \<and> ?cnt' c = 0}"
  proof (intro equalityI subsetI)
    fix c assume "c \<in> set (filter (\<lambda>c. \<exists>m n. fmlookup (fmdrop i present) c = Some (m, n) \<and> n - 1 = 0) (children_of ch i))"
    then obtain m n where c: "c \<in> set (children_of ch i)" "fmlookup present c = Some (m, n)" "n - 1 = 0"
      by (auto split: if_splits)
    then have "c \<in> ?V" using present[of c] by auto
    then show "c \<in> {c \<in> ?V. i \<in> ?D c \<and> ?cnt' c = 0}" using c cs cnt' by (simp add: present_count_def)
  next
    fix c assume "c \<in> {c \<in> ?V. i \<in> ?D c \<and> ?cnt' c = 0}"
    then have c: "c \<in> ?V" "i \<in> ?D c" "?cnt c - 1 = 0" using cnt' by auto
    then obtain m n where "fmlookup present c = Some (m, n)"
      using present[of c] child(1)[OF c(1,2)] by (metis not_Some_eq surj_pair)
    then show "c \<in> set (filter (\<lambda>c. \<exists>m n. fmlookup (fmdrop i present) c = Some (m, n) \<and> n - 1 = 0) (children_of ch i))"
      using c cs child(2)[OF c(1,2)] by (simp add: present_count_def)
  qed
  have "kahn_inv ?V ?D (set ready') (map m_id out @ [i]) ?cnt'"
  proof (rule sg.kahn_step[OF K _ cnt'])
    have "set (i # ready) - {i} = set ready" using i(2) by auto
    then show "set ready' = set (i # ready) - {i} \<union> {c \<in> ?V. i \<in> ?D c \<and> ?cnt' c = 0}"
      using r new by auto
  qed simp_all
  moreover have "distinct ready'"
    using r new k child(3) distinct_children_of[of ch i] by (auto simp del: set_filter)
  moreover have "fset (fmdom present') = ?V - set (map m_id (out @ [m]))"
    using release_present_dom[OF f] k mi(2) by auto
  moreover have "fmlookup metas c = Some m'" if "fmlookup present' c = Some (m', n')" for c m' n'
    using that r k by (auto split: if_splits)
  ultimately have "fifo_inv ops metas ids present' ready' (out @ [m])"
    using k mi by (simp add: fifo_inv_def)
  then show thesis using that m by blast
qed

lemma fifo_loop_done:
  assumes "fifo_inv ops metas ids present ready out"
    and ids: "\<And>i m. fmlookup metas i = Some m \<Longrightarrow> m_id m = i"
    and ch: "\<And>d. child_set ch d \<inter> whole ops metas ids = {c \<in> whole ops metas ids. d \<in> whole_deps metas ids c}"
  shows "\<exists>present'. fifo_inv ops metas ids present' [] (fifo_loop ch present ready out)"
  using assms
proof (induction ch present ready out rule: fifo_loop.induct)
  case (1 ch present out)
  then show ?case by auto
next
  case (2 ch present i ready out)
  obtain p q where r: "fold release_present (children_of ch i) (fmdrop i present, ready) = (p, q)" by fastforce
  obtain m n where m: "fmlookup present i = Some (m, n)" "fifo_inv ops metas ids p q (out @ [m])"
    by (rule fifo_step[OF "2.prems" r])
  have "\<exists>present'. fifo_inv ops metas ids present' [] (fifo_loop ch p q (out @ [m]))"
    using "2.IH"(2)[OF m(1) refl r[symmetric]] m(2) "2.prems"(2,3) by simp
  then show ?case using m(1) r by simp
qed

section \<open>The order\<close>

definition whole_relation ::
  "(op_id, operation) btree_map \<Rightarrow> (op_id, op_meta) btree_map \<Rightarrow> op_id btree_set \<Rightarrow> (op_id \<times> op_id) set" where
  "whole_relation ops metas ids = dep_rel (whole ops metas ids) (whole_deps metas ids)"

lemma whole_present:
  assumes "\<And>i. fmlookup present i = (if i \<in> whole ops metas ids
      then Some (the (fmlookup metas i), card (whole_deps metas ids i)) else None)"
  shows "fifo_inv ops metas ids present (map fst (filter (\<lambda>(_, _, count). count = 0) (iter_map present))) []"
    and "fcard (fmdom present) = card (whole ops metas ids)"
proof -
  let ?V = "whole ops metas ids" and ?D = "whole_deps metas ids"
  let ?ready = "map fst (filter (\<lambda>(_, _, count). count = 0) (iter_map present))"
  have dom: "fset (fmdom present) = ?V" using assms by (auto simp: fmlookup_dom_iff split: if_splits)
  then show "fcard (fmdom present) = card ?V" by (simp add: fcard.rep_eq)
  have "i \<in> set ?ready \<longleftrightarrow> (\<exists>m. fmlookup present i = Some (m, 0))" for i
    by (force simp: image_iff)
  then have R: "set ?ready = {i \<in> ?V. ?D i = {}}"
    using sg.finite_deps[of _ ops metas ids] by (auto simp: assms split: if_splits)
  have "kahn_inv ?V ?D {i \<in> ?V. ?D i = {}} [] (\<lambda>i. card (?D i))" by (rule sg.kahn_start)
  then have "kahn_inv ?V ?D (set ?ready) [] (present_count present)"
    unfolding R using assms by (simp add: kahn_inv_def present_count_def)
  moreover have "distinct ?ready"
    by (rule distinct_map_filter) simp
  moreover have "fmlookup metas i = Some m" if "fmlookup present i = Some (m, n)" for i m n
  proof -
    have "i \<in> ?V" "m = the (fmlookup metas i)" using that assms[of i] by (auto split: if_splits)
    then show ?thesis using whole_sound[of i ops metas ids]
      by (auto simp: sound_here_def resolvable_in_def contains_key_def)
  qed
  ultimately show "fifo_inv ops metas ids present ?ready []" by (simp add: fifo_inv_def dom)
qed

lemma fifo_inv_done:
  assumes "fifo_inv ops metas ids present [] out"
  shows "length out = card (whole ops metas ids) \<longleftrightarrow> acyclic (whole_relation ops metas ids)"
    and "acyclic (whole_relation ops metas ids) \<Longrightarrow> set (map m_id out) = whole ops metas ids"
    and "distinct (map m_id out)" "deps_first (whole_deps metas ids) (map m_id out)"
    and "\<forall>m \<in> set out. fmlookup metas (m_id m) = Some m"
proof -
  have K: "kahn_inv (whole ops metas ids) (whole_deps metas ids) {} (map m_id out) (present_count present)"
    using assms by (simp add: fifo_inv_def)
  from sg.kahn_done_iff[OF K] show "length out = card (whole ops metas ids) \<longleftrightarrow> acyclic (whole_relation ops metas ids)"
    by (simp add: whole_relation_def)
  show "acyclic (whole_relation ops metas ids) \<Longrightarrow> set (map m_id out) = whole ops metas ids"
    unfolding whole_relation_def by (rule sg.kahn_done_complete[OF K])
  show "distinct (map m_id out)" "deps_first (whole_deps metas ids) (map m_id out)" using K by (auto simp: kahn_inv_def)
  show "\<forall>m \<in> set out. fmlookup metas (m_id m) = Some m" using assms by (simp add: fifo_inv_def)
qed

context coherent_snapshot
begin

lemma topological_meta_run:
  obtains present out where "fifo_inv ops metas ids present [] out"
    "topological_meta read ids = (if acyclic (whole_relation ops metas ids) then Ok out else Err (Storage ''cycle in op graph''))"
proof -
  obtain present ch blocked where s: "fold_res (scan_id read ids) (iter_set ids) (fmempty, fmempty, {||}) = Ok (present, ch, blocked)"
    "scanned ops metas ids (fset ids) (present, ch, blocked)"
    using scan_all[of ids] by auto
  obtain present' blocked' where b: "block_loop ids ch present blocked (rev (iter_set blocked)) = (present', blocked')"
    by fastforce
  note p = blocked_present[OF s(2) b]
  let ?ready = "map fst (filter (\<lambda>(_, _, count). count = 0) (iter_map present'))"
  have ch: "child_set ch d \<inter> whole ops metas ids = {c \<in> whole ops metas ids. d \<in> whole_deps metas ids c}" for d
    using s(2) whole_sound[of _ ops metas ids] by (auto simp: scanned_def whole_def sound_here_def)
  obtain present'' where o: "fifo_inv ops metas ids present'' [] (fifo_loop ch present' ?ready [])"
    using fifo_loop_done[OF whole_present(1)[OF p] meta_keyed ch] by blast
  show thesis
    by (rule that[OF o])
      (simp add: topological_meta_def s(1) b Let_def fifo_inv_done(1)[OF o] whole_present(2)[OF p])
qed

lemma subset_entries_of_metas:
  assumes "\<forall>m \<in> set out. fmlookup metas (m_id m) = Some m" "\<forall>m \<in> set out. contains_key ops (m_id m)"
  shows "map_res (\<lambda>meta. rbind (sr_get_op read (m_id meta)) (\<lambda>op.
      rbind (ok_or op (Storage ''missing op'')) (\<lambda>op. Ok (op, meta)))) out =
    Ok (map (\<lambda>m. (the (fmlookup ops (m_id m)), m)) out)"
  using assms by (induction out) (auto simp: contains_key_def ok_or_def)

end

lemma subset_entries_run:
  assumes "snapshot_of read ops metas"
  obtains out where "subset_entries_in read ids =
      (if acyclic (whole_relation ops metas ids) then Ok (map (\<lambda>m. (the (fmlookup ops (m_id m)), m)) out)
       else Err (Storage ''cycle in op graph''))"
    and "distinct (map m_id out)" "deps_first (whole_deps metas ids) (map m_id out)"
    and "\<forall>m \<in> set out. fmlookup metas (m_id m) = Some m"
    and "acyclic (whole_relation ops metas ids) \<longrightarrow> set (map m_id out) = whole ops metas ids"
proof -
  have c: "coherent_snapshot read ops metas" using assms by unfold_locales
  obtain present out where o: "fifo_inv ops metas ids present [] out"
    "topological_meta read ids = (if acyclic (whole_relation ops metas ids) then Ok out else Err (Storage ''cycle in op graph''))"
    by (rule coherent_snapshot.topological_meta_run[OF c])
  note d = fifo_inv_done[OF o(1)]
  have "subset_entries_in read ids =
      (if acyclic (whole_relation ops metas ids) then Ok (map (\<lambda>m. (the (fmlookup ops (m_id m)), m)) out)
       else Err (Storage ''cycle in op graph''))"
  proof (cases "acyclic (whole_relation ops metas ids)")
    case True
    have "\<forall>m \<in> set out. contains_key ops (m_id m)"
      using d(2)[OF True] whole_sound[of _ ops metas ids] by (force simp: sound_here_def resolvable_in_def)
    from coherent_snapshot.subset_entries_of_metas[OF c d(5) this] True o(2) show ?thesis
      by (simp add: subset_entries_in_def)
  qed (simp add: subset_entries_in_def o(2))
  then show thesis using that d by blast
qed

text \<open>
  C16. Over one coherent snapshot, \<open>subset_entries_in\<close> answers an error exactly when operations
  without a hole below them depend on each other in a circle. Otherwise it returns, for exactly the
  named operations that are no hole, both stored records, each once and after all its dependencies
  among the named ids; it never fails for a record that is missing.
\<close>

theorem subset_entries_correct:
  assumes "snapshot_of read ops metas"
  shows "case subset_entries_in read ids of
      Ok entries \<Rightarrow> acyclic (whole_relation ops metas ids) \<and>
        distinct (map (m_id \<circ> snd) entries) \<and>
        (\<lambda>(_, m). m_id m) ` set entries = {i. i |\<in>| ids \<and> \<not> hole ops metas ids i} \<and>
        (\<forall>(op, m) \<in> set entries. fmlookup ops (m_id m) = Some op \<and> fmlookup metas (m_id m) = Some m) \<and>
        (\<forall>ys op m zs. entries = ys @ (op, m) # zs \<longrightarrow> fset (m_deps m) \<inter> fset ids \<subseteq> (\<lambda>(_, m). m_id m) ` set ys)
    | Err e \<Rightarrow> \<not> acyclic (whole_relation ops metas ids) \<and> e = Storage ''cycle in op graph''"
proof -
  obtain out where o: "subset_entries_in read ids =
      (if acyclic (whole_relation ops metas ids) then Ok (map (\<lambda>m. (the (fmlookup ops (m_id m)), m)) out)
       else Err (Storage ''cycle in op graph''))"
    "distinct (map m_id out)" "deps_first (whole_deps metas ids) (map m_id out)"
    "\<forall>m \<in> set out. fmlookup metas (m_id m) = Some m"
    "acyclic (whole_relation ops metas ids) \<longrightarrow> set (map m_id out) = whole ops metas ids"
    by (rule subset_entries_run[OF assms, where ids = ids])
  show ?thesis
  proof (cases "acyclic (whole_relation ops metas ids)")
    case True
    let ?entries = "map (\<lambda>m. (the (fmlookup ops (m_id m)), m)) out"
    have ops: "\<forall>m \<in> set out. fmlookup ops (m_id m) = Some (the (fmlookup ops (m_id m)))"
      using o(5)[rule_format, OF True] whole_sound[of _ ops metas ids]
      by (force simp: sound_here_def resolvable_in_def contains_key_def)
    have "fset (m_deps m) \<inter> fset ids \<subseteq> (\<lambda>(_, m). m_id m) ` set ys" if e: "?entries = ys @ (op, m) # zs" for ys op m zs
    proof -
      have out: "out = map snd ys @ m # map snd zs"
        using arg_cong[OF e, of "map snd"] by (simp add: comp_def)
      then have "whole_deps metas ids (m_id m) \<subseteq> set (map m_id (map snd ys))"
        using o(3) unfolding deps_first_def by (metis list.simps(9) map_append)
      moreover have "whole_deps metas ids (m_id m) = fset (m_deps m) \<inter> fset ids"
        using o(4) out by (simp add: whole_deps_def deps_of_def)
      ultimately show ?thesis by (force simp: image_iff)
    qed
    moreover have "distinct (map (m_id \<circ> snd) ?entries)" using o(2) by (simp add: comp_def)
    moreover have "(\<lambda>(_, m). m_id m) ` set ?entries = {i. i |\<in>| ids \<and> \<not> hole ops metas ids i}"
      using o(5)[rule_format, OF True] by (simp add: whole_def image_image)
    moreover have "\<forall>(op, m) \<in> set ?entries. fmlookup ops (m_id m) = Some op \<and> fmlookup metas (m_id m) = Some m"
      using ops o(4) by auto
    ultimately show ?thesis using o(1) True by auto
  qed (simp add: o(1))
qed

text \<open>The third id has no record, so it is a hole; the second depends on the first.\<close>

theorem subset_entries_correct_witness:
  "let ops = sample_ops sample_batch; metas = sample_metas sample_batch; ids = {|ident 1, ident 2, ident 3|} in
    snapshot_of (sample_read sample_batch) ops metas \<and> hole ops metas ids (ident 3) \<and>
    (case subset_entries_in (sample_read sample_batch) ids of
      Ok entries \<Rightarrow> acyclic (whole_relation ops metas ids) \<and>
        distinct (map (m_id \<circ> snd) entries) \<and>
        (\<lambda>(_, m). m_id m) ` set entries = {i. i |\<in>| ids \<and> \<not> hole ops metas ids i} \<and>
        (\<forall>(op, m) \<in> set entries. fmlookup ops (m_id m) = Some op \<and> fmlookup metas (m_id m) = Some m) \<and>
        (\<forall>ys op m zs. entries = ys @ (op, m) # zs \<longrightarrow> fset (m_deps m) \<inter> fset ids \<subseteq> (\<lambda>(_, m). m_id m) ` set ys)
    | Err e \<Rightarrow> \<not> acyclic (whole_relation ops metas ids) \<and> e = Storage ''cycle in op graph'')"
proof -
  have "hole (sample_ops sample_batch) (sample_metas sample_batch) {|ident 1, ident 2, ident 3|} (ident 3)"
    by (rule hole.unresolved)
      (simp_all add: resolvable_in_def contains_key_def sample_ops_def sample_batch_def sample_op_def fmlookup_of_list)
  then show ?thesis
    unfolding Let_def
    using subset_entries_correct[OF sample_read_coherent, of sample_batch "{|ident 1, ident 2, ident 3|}"]
      sample_read_coherent[of sample_batch] by blast
qed

end
