(* ===== verification/Worklist.thy ===== *)
theory Worklist
  imports Prelude
begin

text \<open>
  The closure loop the code writes over adjacency maps: pop a key, visit its neighbours in order,
  push the ones not seen before. \<open>closure_loop\<close> is that loop with the stack's top first;
  \<open>closure_loop_reach\<close> says it collects what is reachable in one step or more.
\<close>

definition neighbours :: "('k::linorder, 'k btree_set) btree_map \<Rightarrow> 'k \<Rightarrow> 'k list" where
  "neighbours adj k = (case fmlookup adj k of None \<Rightarrow> [] | Some s \<Rightarrow> iter_set s)"

definition visit_new :: "'k \<Rightarrow> 'k btree_set \<times> 'k list \<Rightarrow> 'k btree_set \<times> 'k list" where
  "visit_new k = (\<lambda>(seen, frontier). if k |\<in>| seen then (seen, frontier) else (finsert k seen, k # frontier))"

definition all_neighbours :: "('k, 'k btree_set) btree_map \<Rightarrow> 'k btree_set" where
  "all_neighbours adj = ffUnion (fmran adj)"

lemma in_all_neighbours: "y \<in> set (neighbours adj x) \<Longrightarrow> y |\<in>| all_neighbours adj"
proof -
  assume "y \<in> set (neighbours adj x)"
  then obtain s where s: "fmlookup adj x = Some s" "y |\<in>| s"
    by (cases "fmlookup adj x") (simp_all add: neighbours_def)
  from s(1) have "s |\<in>| fmran adj" by (rule fmranI)
  with s(2) show "y |\<in>| all_neighbours adj" unfolding all_neighbours_def by (auto simp: ffUnion.rep_eq)
qed

lemma visit_new_fold:
  "fold visit_new ks (seen, frontier) = (seen', frontier') \<Longrightarrow>
    fset seen' = fset seen \<union> set ks \<and> set frontier' = set frontier \<union> (set ks - fset seen)"
proof (induction ks arbitrary: seen frontier)
  case (Cons k ks)
  show ?case
  proof (cases "k |\<in>| seen")
    case True
    then show ?thesis using Cons.IH[of seen frontier] Cons.prems by (auto simp: visit_new_def)
  next
    case False
    then have "visit_new k (seen, frontier) = (finsert k seen, k # frontier)" by (simp add: visit_new_def)
    then show ?thesis using Cons.IH[of "finsert k seen" "k # frontier"] Cons.prems False by auto
  qed
qed simp

lemma visit_new_measure:
  "fold visit_new ks (seen, frontier) = (seen', frontier') \<Longrightarrow> set ks \<subseteq> fset U \<Longrightarrow>
    2 * fcard (U |-| seen') + length frontier' \<le> 2 * fcard (U |-| seen) + length frontier"
proof (induction ks arbitrary: seen frontier)
  case (Cons k ks)
  show ?case
  proof (cases "k |\<in>| seen")
    case True
    then show ?thesis using Cons.IH[of seen frontier] Cons.prems by (simp add: visit_new_def)
  next
    case False
    have "fcard (U |-| finsert k seen) < fcard (U |-| seen)"
      by (rule pfsubset_fcard_mono) (use False Cons.prems(2) in auto)
    moreover have "visit_new k (seen, frontier) = (finsert k seen, k # frontier)" using False by (simp add: visit_new_def)
    ultimately show ?thesis using Cons.IH[of "finsert k seen" "k # frontier"] Cons.prems by simp
  qed
qed simp

function closure_loop :: "('k::linorder, 'k btree_set) btree_map \<Rightarrow> 'k list \<Rightarrow> 'k btree_set \<Rightarrow> 'k btree_set" where
  "closure_loop adj [] seen = seen"
| "closure_loop adj (k # frontier) seen =
    (let r = fold visit_new (neighbours adj k) (seen, frontier) in closure_loop adj (snd r) (fst r))"
  by pat_completeness auto
termination
proof (relation "measure (\<lambda>(adj, frontier, seen). 2 * fcard (all_neighbours adj |-| seen) + length frontier)")
  fix adj :: "('k::linorder, 'k btree_set) btree_map" and k frontier seen r
  assume r: "r = fold visit_new (neighbours adj k) (seen, frontier)"
  obtain s f where sf: "r = (s, f)" by (cases r)
  have "2 * fcard (all_neighbours adj |-| s) + length f \<le> 2 * fcard (all_neighbours adj |-| seen) + length frontier"
    by (rule visit_new_measure[of "neighbours adj k"]) (use r sf in_all_neighbours in auto)
  then show "((adj, snd r, fst r), adj, k # frontier, seen)
      \<in> measure (\<lambda>(adj, frontier, seen). 2 * fcard (all_neighbours adj |-| seen) + length frontier)"
    by (simp add: sf)
qed simp

definition adj_rel :: "('k::linorder, 'k btree_set) btree_map \<Rightarrow> ('k \<times> 'k) set" where
  "adj_rel adj = {(x, y). y \<in> set (neighbours adj x)}"

lemma adj_rel_iff: "(x, y) \<in> adj_rel adj \<longleftrightarrow> (\<exists>s. fmlookup adj x = Some s \<and> y |\<in>| s)"
  by (cases "fmlookup adj x") (simp_all add: adj_rel_def neighbours_def)

lemma closure_loop_reach:
  assumes "adj_rel adj `` (fset seen - set frontier) \<subseteq> fset seen"
  shows "fset (closure_loop adj frontier seen) = fset seen \<union> (adj_rel adj)\<^sup>+ `` set frontier"
  using assms
proof (induction adj frontier seen rule: closure_loop.induct)
  case (2 adj k frontier seen)
  let ?r = "adj_rel adj"
  obtain s f where sf: "fold visit_new (neighbours adj k) (seen, frontier) = (s, f)" by fastforce
  have n: "set (neighbours adj k) = ?r `` {k}" by (auto simp: adj_rel_def)
  note v = visit_new_fold[OF sf, unfolded n]
  have inv: "?r `` (fset s - set f) \<subseteq> fset s" using v "2.prems" by auto
  have IH: "fset (closure_loop adj f s) = fset s \<union> ?r\<^sup>+ `` set f"
    using "2.IH"[OF sf[symmetric]] inv by simp
  let ?T = "fset s \<union> ?r\<^sup>+ `` set f"
  have closed: "?r `` ?T \<subseteq> ?T"
  proof
    fix y assume "y \<in> ?r `` ?T"
    then obtain x where x: "x \<in> ?T" "(x, y) \<in> ?r" by blast
    show "y \<in> ?T"
    proof (cases "x \<in> fset s \<and> x \<notin> set f")
      case True
      then show ?thesis using x(2) inv by blast
    next
      case False
      then have "x \<in> set f \<or> x \<in> ?r\<^sup>+ `` set f" using x(1) by blast
      then show ?thesis using x(2) by (auto intro: trancl_into_trancl)
    qed
  qed
  have "?r\<^sup>+ `` set (k # frontier) \<subseteq> ?T"
  proof
    fix y assume "y \<in> ?r\<^sup>+ `` set (k # frontier)"
    then obtain x where x: "x \<in> set (k # frontier)" "(x, y) \<in> ?r\<^sup>+" by blast
    have first: "z \<in> ?T" if "(x, z) \<in> ?r" for z
    proof (cases "x = k")
      case True
      then show ?thesis using that v by auto
    next
      case False
      then have "x \<in> set f" using x(1) v by auto
      then show ?thesis using that by auto
    qed
    from x(2) show "y \<in> ?T"
    proof (induction rule: trancl_induct)
      case (step z w)
      then show ?case using closed by blast
    qed (rule first)
  qed
  moreover have "?T \<subseteq> fset seen \<union> ?r\<^sup>+ `` set (k # frontier)"
  proof -
    have "fset s \<subseteq> fset seen \<union> ?r\<^sup>+ `` set (k # frontier)" using v by auto
    moreover have "?r\<^sup>+ `` set f \<subseteq> ?r\<^sup>+ `` set (k # frontier)"
      using v by (auto intro: trancl_into_trancl2)
    ultimately show ?thesis by blast
  qed
  moreover have "fset seen \<subseteq> fset s" using v by auto
  ultimately show ?case using IH sf by (simp only: closure_loop.simps Let_def fst_conv snd_conv) blast
qed simp

lemma closure_loop_start: "fset (closure_loop adj [k] {||}) = (adj_rel adj)\<^sup>+ `` {k}"
  using closure_loop_reach[of adj "{||}" "[k]"] by simp

end
