(* ===== verification/Staging_Quota.thy ===== *)
theory Staging_Quota
  imports Records
begin

text \<open>
  Limits and quotas of provisional bootstraps (\<open>storage/staging.rs\<close>): how many namespaces may be
  open and how many bytes one of them may take beside the others.
\<close>

section \<open>Limits\<close>

definition MAX_STAGED_BYTES_TOTAL :: u64 where "MAX_STAGED_BYTES_TOTAL = 64 * 1024 * 1024"
definition MAX_STAGED_BYTES_PER_SESSION :: u64 where "MAX_STAGED_BYTES_PER_SESSION = 32 * 1024 * 1024"
definition MAX_STAGED_SESSIONS :: nat where "MAX_STAGED_SESSIONS = 64"
definition MAX_STAGED_SESSIONS_PER_SOURCE :: nat where "MAX_STAGED_SESSIONS_PER_SOURCE = 8"
definition MAX_STAGED_IDLE_MS :: u64 where "MAX_STAGED_IDLE_MS = 10 * 60 * 1000"

record staging_limits =
  l_total_bytes :: u64
  l_source_bytes :: u64
  l_namespace_bytes :: u64
  l_namespaces :: nat
  l_source_namespaces :: nat

definition limits_memory :: staging_limits where
  "limits_memory = \<lparr>l_total_bytes = MAX_STAGED_BYTES_TOTAL, l_source_bytes = MAX_STAGED_BYTES_PER_SESSION,
     l_namespace_bytes = MAX_STAGED_BYTES_PER_SESSION, l_namespaces = MAX_STAGED_SESSIONS,
     l_source_namespaces = MAX_STAGED_SESSIONS_PER_SOURCE\<rparr>"

definition limits_disk :: staging_limits where
  "limits_disk = \<lparr>l_total_bytes = 16 * 1024 * 1024 * 1024, l_source_bytes = 4 * 1024 * 1024 * 1024,
     l_namespace_bytes = 4 * 1024 * 1024 * 1024, l_namespaces = MAX_STAGED_SESSIONS,
     l_source_namespaces = MAX_STAGED_SESSIONS_PER_SOURCE\<rparr>"

section \<open>Namespaces\<close>

record provisional_topic =
  n_source :: peer_id
  n_topic_id :: topic_id
  n_genesis :: op_id
  n_session :: u64
  n_updated_ms :: u64
  n_activating :: bool
  n_revision :: u64
  n_bytes :: u64

definition check_namespaces :: "staging_limits \<Rightarrow> nat \<Rightarrow> nat \<Rightarrow> unit result" where
  "check_namespaces limits namespaces from_source =
    (if namespaces \<ge> l_namespaces limits then Err (StagingCapacity ''bootstrap namespaces are full'')
     else if from_source \<ge> l_source_namespaces limits
     then Err (StagingCapacity ''bootstrap namespace quota exceeded for source'')
     else Ok ())"

section \<open>Byte quotas\<close>

record staging_quota =
  q_namespace :: u64
  q_total :: u64
  q_source :: u64

definition staging_quota_new :: "staging_limits \<Rightarrow> u64 \<Rightarrow> u64 \<Rightarrow> staging_quota" where
  "staging_quota_new limits others source =
    \<lparr>q_namespace = l_namespace_bytes limits, q_total = saturating_sub (l_total_bytes limits) others,
     q_source = saturating_sub (l_source_bytes limits) source\<rparr>"

definition quota_check :: "staging_quota \<Rightarrow> u64 \<Rightarrow> u64 \<Rightarrow> unit result" where
  "quota_check q held charge =
    (if charge = 0 then Ok ()
     else case checked_add held charge of
       None \<Rightarrow> Err (StagingCapacity ''bootstrap staging byte count overflow'')
     | Some after \<Rightarrow>
         if after > q_namespace q then Err (StagingCapacity ''bootstrap namespace byte quota exceeded'')
         else if after > q_total q then Err (StagingCapacity ''bootstrap staging byte budget is full'')
         else if after > q_source q then Err (StagingCapacity ''bootstrap staging byte quota exceeded for source'')
         else Ok ())"

lemma quota_check_Ok:
  "quota_check q held charge = Ok () \<longleftrightarrow>
    charge = 0 \<or> unat held + unat charge < 2 ^ 64 \<and> unat held + unat charge \<le> unat (q_namespace q) \<and>
      unat held + unat charge \<le> unat (q_total q) \<and> unat held + unat charge \<le> unat (q_source q)"
  by (auto simp: quota_check_def checked_add_def unat_add_no_overflow word_less_nat_alt split: if_splits)

end
