(* ===== verification/Memory_Inner.thy ===== *)
theory Memory_Inner
  imports Snapshot Worklist Staging_Quota
begin

text \<open>
  The records of an in-memory store (\<open>MemoryInner\<close> of \<open>storage/memory/mod.rs\<close>) and its reads. The
  memory budget is a component of its own whose answers depend on live allocations: an operation of
  the store takes them as an argument, one answer per place where it reserves. Copies made only to
  own their bytes (\<open>own_payload\<close>) and the diagnostic counters do not show in the records.
\<close>

section \<open>State\<close>

datatype obligation_kind = KindClock | KindRepair

instantiation obligation_kind :: linorder
begin

definition less_eq_obligation_kind :: "obligation_kind \<Rightarrow> obligation_kind \<Rightarrow> bool" where
  "less_eq_obligation_kind a b = (a = KindClock \<or> b = KindRepair)"

definition less_obligation_kind :: "obligation_kind \<Rightarrow> obligation_kind \<Rightarrow> bool" where
  "less_obligation_kind a b = (a = KindClock \<and> b = KindRepair)"

instance
proof
  fix x y z :: obligation_kind
  show "x < y \<longleftrightarrow> x \<le> y \<and> \<not> y \<le> x"
    by (cases x; cases y) (simp_all add: less_eq_obligation_kind_def less_obligation_kind_def)
  show "x \<le> x" by (cases x) (simp_all add: less_eq_obligation_kind_def)
  show "x \<le> y \<Longrightarrow> y \<le> z \<Longrightarrow> x \<le> z" by (cases x; cases y; cases z) (simp_all add: less_eq_obligation_kind_def)
  show "x \<le> y \<Longrightarrow> y \<le> x \<Longrightarrow> x = y" by (cases x; cases y) (simp_all add: less_eq_obligation_kind_def)
  show "x \<le> y \<or> y \<le> x" by (cases x; cases y) (simp_all add: less_eq_obligation_kind_def)
qed

end

definition kind_of :: "sync_obligation \<Rightarrow> obligation_kind" where
  "kind_of ob = (case ob_target ob of ClockTarget _ \<Rightarrow> KindClock | RepairTarget _ \<Rightarrow> KindRepair)"

record rejected_ids =
  rj_order :: "op_id list"
  rj_ids :: "op_id btree_set"

record memory_inner =
  mi_ops :: "(op_id, operation) btree_map"
  mi_meta :: "(op_id, op_meta) btree_map"
  mi_topic_ops :: "(topic_id, op_id btree_set) btree_map"
  mi_heads :: "(topic_id, op_id btree_set) btree_map"
  mi_children :: "(op_id, op_id btree_set) btree_map"
  mi_actor_by_seq :: "(topic_id \<times> actor_id \<times> u64, op_id) btree_map"
  mi_actor_tip :: "(topic_id \<times> actor_id, u64 \<times> op_id) btree_map"
  mi_actor_clock :: "(topic_id, actor_clock) btree_map"
  mi_fingerprint :: "(topic_id, id32) btree_map"
  mi_max_generation :: "(topic_id, u64) btree_map"
  mi_topics :: "(topic_id, topic_state) btree_map"
  mi_pending_ops :: "(op_id, operation) btree_map"
  mi_pending_records :: "(op_id, pending_record) btree_map"
  mi_pending_by_topic :: "(topic_id, op_id btree_set) btree_map"
  mi_pending_waiters :: "(op_id, op_id btree_set) btree_map"
  mi_pending_ready :: "op_id btree_set"
  mi_pending_since :: "(op_id, u64) btree_map"
  mi_pending_usage :: pending_usage
  mi_source_usage :: "(peer_id, pending_usage) btree_map"
  mi_topic_usage :: "(topic_id, pending_usage) btree_map"
  mi_rejected :: "(topic_id, rejected_ids) btree_map"
  mi_peer_acks :: "(peer_id \<times> topic_id, peer_ack) btree_map"
  mi_obligations :: "(topic_id \<times> peer_id, (obligation_kind, sync_obligation) btree_map) btree_map"
  mi_sync_statuses :: "(topic_id \<times> peer_id, sync_peer_status) btree_map"
  mi_evictions :: "(eviction_key, topic_eviction) btree_map"
  mi_sealed :: "topic_id btree_set"
  mi_epochs :: "(topic_id, u64) btree_map"
  mi_attempt_epoch :: u64
  mi_admitted_bytes :: u64

definition inner_new :: memory_inner where
  "inner_new = \<lparr>mi_ops = fmempty, mi_meta = fmempty, mi_topic_ops = fmempty, mi_heads = fmempty,
     mi_children = fmempty, mi_actor_by_seq = fmempty, mi_actor_tip = fmempty, mi_actor_clock = fmempty,
     mi_fingerprint = fmempty, mi_max_generation = fmempty, mi_topics = fmempty, mi_pending_ops = fmempty,
     mi_pending_records = fmempty, mi_pending_by_topic = fmempty, mi_pending_waiters = fmempty,
     mi_pending_ready = {||}, mi_pending_since = fmempty, mi_pending_usage = no_usage,
     mi_source_usage = fmempty, mi_topic_usage = fmempty, mi_rejected = fmempty, mi_peer_acks = fmempty,
     mi_obligations = fmempty, mi_sync_statuses = fmempty, mi_evictions = fmempty, mi_sealed = {||},
     mi_epochs = fmempty, mi_attempt_epoch = 0, mi_admitted_bytes = 0\<rparr>"

text \<open>The places where an operation reserves memory; a budget answers each.\<close>

datatype reservation =
    RecordCharge op_id
  | EffectsWorkspace
  | ClockWorkspace
  | EntryNodes op_id
  | ProjectedNodes
  | TopicMetadata topic_id
  | RejectedMetadata topic_id
  | ObligationMetadata peer_id obligation_kind
  | AckWorkspace
  | AckMetadata
  | StatusWorkspace
  | StatusMetadata
  | RecoveryCopy
  | EvictionMetadata eviction_key
  | NamespaceCharge
  | ActivationCopy

type_synonym budget = "reservation \<Rightarrow> unit result"

section \<open>Reads\<close>

definition dep_resolvable_locked :: "memory_inner \<Rightarrow> op_id \<Rightarrow> bool" where
  "dep_resolvable_locked inner dep \<longleftrightarrow> contains_key (mi_ops inner) dep \<and> contains_key (mi_meta inner) dep"

definition topic_state_locked :: "memory_inner \<Rightarrow> topic_id \<Rightarrow> topic_state option" where
  "topic_state_locked inner topic =
    map_option (\<lambda>state. state\<lparr>t_heads := get_or {||} (mi_heads inner) topic\<rparr>) (fmlookup (mi_topics inner) topic)"

definition topic_ids_locked :: "memory_inner \<Rightarrow> topic_id \<Rightarrow> op_id btree_set" where
  "topic_ids_locked inner topic = get_or {||} (mi_topic_ops inner) topic"

definition actor_range_locked :: "memory_inner \<Rightarrow> topic_id \<Rightarrow> actor_id \<Rightarrow> u64 \<Rightarrow> nat \<Rightarrow> (u64 \<times> op_id) list" where
  "actor_range_locked inner topic actor after limit =
    (case checked_add after 1 of
       None \<Rightarrow> []
     | Some start \<Rightarrow>
         map (\<lambda>((_, _, seq), i). (seq, i))
           (take limit (filter (\<lambda>((t, a, seq), _). t = topic \<and> a = actor \<and> start \<le> seq)
             (iter_map (mi_actor_by_seq inner)))))"

definition pending_missing_locked :: "memory_inner \<Rightarrow> topic_id \<Rightarrow> op_id btree_set" where
  "pending_missing_locked inner topic =
    ffUnion ((\<lambda>i. case fmlookup (mi_pending_records inner) i of None \<Rightarrow> {||} | Some record \<Rightarrow> pr_missing record)
      |`| get_or {||} (mi_pending_by_topic inner) topic)"

definition stored_op_branch :: "memory_inner \<Rightarrow> op_id \<Rightarrow> (op_meta \<times> op_id) option" where
  "stored_op_branch inner i =
    Option.bind (fmlookup (mi_meta inner) i) (\<lambda>m.
    Option.bind (fmlookup (mi_topics inner) (m_topic_id m)) (\<lambda>state. Some (m, t_genesis state)))"

definition pending_entry_locked :: "memory_inner \<Rightarrow> op_id \<Rightarrow> (peer_id \<times> operation) option" where
  "pending_entry_locked inner i =
    Option.bind (fmlookup (mi_pending_records inner) i) (\<lambda>record.
    Option.bind (fmlookup (mi_pending_ops inner) i) (\<lambda>op. Some (pr_source record, op)))"

text \<open>\<open>topic_fingerprint_for\<close> hashes the encoded heads and clock; it is an argument.\<close>

definition topic_view_locked ::
  "(op_id btree_set \<Rightarrow> actor_clock \<Rightarrow> id32 result) \<Rightarrow> memory_inner \<Rightarrow> topic_id \<Rightarrow> peer_id option \<Rightarrow> topic_view option result" where
  "topic_view_locked fingerprint inner topic peer =
    (case topic_state_locked inner topic of
       None \<Rightarrow> Ok None
     | Some state \<Rightarrow>
         let clock = get_or clock_new (mi_actor_clock inner) topic;
             tips = fmap_of_list (map (\<lambda>((_, actor), tip). (actor, tip))
               (filter (\<lambda>((t, _), _). t = topic) (iter_map (mi_actor_tip inner))))
         in rbind (case fmlookup (mi_fingerprint inner) topic of
              Some f \<Rightarrow> Ok f | None \<Rightarrow> fingerprint (t_heads state) clock) (\<lambda>f.
            Ok (Some \<lparr>tv_state = state, tv_clock = clock, tv_tips = tips, tv_fingerprint = f,
              tv_epoch = get_or 0 (mi_epochs inner) topic,
              tv_pending_missing = pending_missing_locked inner topic,
              tv_ack = Option.bind peer (\<lambda>p. fmlookup (mi_peer_acks inner) (p, topic)),
              tv_owed = (case peer of None \<Rightarrow> False
                | Some p \<Rightarrow> (case fmlookup (mi_obligations inner) (topic, p) of
                    None \<Rightarrow> False | Some records \<Rightarrow> records \<noteq> fmempty))\<rparr>)))"

definition memory_snapshot ::
  "(op_id btree_set \<Rightarrow> actor_clock \<Rightarrow> id32 result) \<Rightarrow> memory_inner \<Rightarrow> snapshot_read" where
  "memory_snapshot fingerprint inner =
    \<lparr>sr_topic_view = topic_view_locked fingerprint inner,
     sr_get_op = (\<lambda>i. Ok (fmlookup (mi_ops inner) i)),
     sr_get_meta = (\<lambda>i. Ok (fmlookup (mi_meta inner) i)),
     sr_dep_resolvable = (\<lambda>i. Ok (dep_resolvable_locked inner i)),
     sr_actor_range = (\<lambda>topic actor after limit. Ok (actor_range_locked inner topic actor after limit)),
     sr_list_op_ids = (\<lambda>topic. Ok (topic_ids_locked inner topic))\<rparr>"

definition peer_reached_op :: "memory_inner \<Rightarrow> peer_id \<Rightarrow> op_id \<Rightarrow> bool" where
  "peer_reached_op inner peer i =
    (case stored_op_branch inner i of
       None \<Rightarrow> False
     | Some (m, genesis) \<Rightarrow>
         (case fmlookup (mi_peer_acks inner) (peer, m_topic_id m) of
            None \<Rightarrow> False | Some ack \<Rightarrow> ack_reached_op ack genesis i (position_of_meta m)))"

definition peers_reached_op :: "memory_inner \<Rightarrow> op_id \<Rightarrow> peer_id list" where
  "peers_reached_op inner i =
    (case stored_op_branch inner i of
       None \<Rightarrow> []
     | Some (m, genesis) \<Rightarrow>
         sort (map ack_peer_id (filter (\<lambda>ack. ack_topic_id ack = m_topic_id m \<and>
             ack_reached_op ack genesis i (position_of_meta m)) (map snd (iter_map (mi_peer_acks inner))))))"

end
