(* ===== verification/Memory_Pending.thy ===== *)
theory Memory_Pending
  imports Memory_Inner
begin

text \<open>
  The pending pool of the in-memory store: operations buffered until their dependencies arrive, with
  the waiter, ready and topic indexes and the usage counters (\<open>put_pending_bound\<close>,
  \<open>remove_pending_locked\<close>, \<open>settle_waiters_locked\<close>, \<open>expire_pending\<close>, \<open>purge_pending_waiters\<close> and
  \<open>reject_pending_subtree\<close> of \<open>storage/memory/mod.rs\<close>).
\<close>

section \<open>Operations\<close>

definition pending_op_bytes :: "externals \<Rightarrow> operation \<Rightarrow> u64 result" where
  "pending_op_bytes x op = rbind (ok_or (x_op_size x op) Encode) (\<lambda>n. Ok (of_nat n))"

definition drop_member :: "'k \<Rightarrow> 'v \<Rightarrow> ('k, 'v btree_set) btree_map \<Rightarrow> ('k, 'v btree_set) btree_map" where
  "drop_member k v m =
    (case fmlookup m k of
       None \<Rightarrow> m
     | Some s \<Rightarrow> if s |-| {|v|} = {||} then fmdrop k m else fmupd k (s |-| {|v|}) m)"

definition add_member :: "'k \<Rightarrow> 'v \<Rightarrow> ('k, 'v btree_set) btree_map \<Rightarrow> ('k, 'v btree_set) btree_map" where
  "add_member k v m = modify_or {||} (finsert v) k m"

definition unwait_locked :: "op_id \<Rightarrow> op_id \<Rightarrow> memory_inner \<Rightarrow> memory_inner" where
  "unwait_locked dep i inner = inner\<lparr>mi_pending_waiters := drop_member dep i (mi_pending_waiters inner)\<rparr>"

definition settle_waiter :: "op_id \<Rightarrow> op_id \<Rightarrow> memory_inner \<Rightarrow> memory_inner" where
  "settle_waiter admitted waiter inner =
    (case fmlookup (mi_pending_records inner) waiter of
       None \<Rightarrow> inner
     | Some record \<Rightarrow>
         let missing = pr_missing record |-| {|admitted|}
         in inner\<lparr>mi_pending_records := fmupd waiter (record\<lparr>pr_missing := missing\<rparr>) (mi_pending_records inner),
                  mi_pending_ready := if missing = {||} then finsert waiter (mi_pending_ready inner)
                    else mi_pending_ready inner\<rparr>)"

definition settle_waiters_locked :: "op_id \<Rightarrow> memory_inner \<Rightarrow> memory_inner" where
  "settle_waiters_locked admitted inner =
    fold (settle_waiter admitted) (iter_set (get_or {||} (mi_pending_waiters inner) admitted))
      (inner\<lparr>mi_pending_waiters := fmdrop admitted (mi_pending_waiters inner)\<rparr>)"

definition put_usage :: "'k \<Rightarrow> pending_usage \<Rightarrow> ('k, pending_usage) btree_map \<Rightarrow> ('k, pending_usage) btree_map" where
  "put_usage k u m = (if u = no_usage then fmdrop k m else fmupd k u m)"

definition remove_pending_locked :: "op_id \<Rightarrow> memory_inner \<Rightarrow> memory_inner result" where
  "remove_pending_locked i inner =
    (case fmlookup (mi_pending_records inner) i of
       None \<Rightarrow> Ok inner
     | Some record \<Rightarrow>
         rbind (refunded (mi_pending_usage inner) (pr_charge record)) (\<lambda>all.
         rbind (refunded (get_or no_usage (mi_source_usage inner) (pr_source record)) (pr_charge record)) (\<lambda>source.
         rbind (refunded (get_or no_usage (mi_topic_usage inner) (pr_topic_id record)) (pr_charge record)) (\<lambda>topic.
           let inner = inner\<lparr>mi_pending_records := fmdrop i (mi_pending_records inner),
                 mi_pending_usage := all,
                 mi_source_usage := put_usage (pr_source record) source (mi_source_usage inner),
                 mi_topic_usage := put_usage (pr_topic_id record) topic (mi_topic_usage inner)\<rparr>;
               inner = fold (\<lambda>dep. unwait_locked dep i) (iter_set (pr_missing record)) inner
           in Ok (inner\<lparr>mi_pending_by_topic := drop_member (pr_topic_id record) i (mi_pending_by_topic inner),
                 mi_pending_ready := mi_pending_ready inner |-| {|i|},
                 mi_pending_ops := fmdrop i (mi_pending_ops inner)\<rparr>)))))"

definition rejected_hit :: "memory_inner \<Rightarrow> topic_id \<Rightarrow> op_id \<Rightarrow> op_id btree_set \<Rightarrow> op_id option" where
  "rejected_hit inner topic i missing =
    Option.bind (fmlookup (mi_rejected inner) topic) (\<lambda>rejected.
      find (\<lambda>j. j |\<in>| rj_ids rejected) (i # iter_set missing))"

definition check_waiters :: "memory_inner \<Rightarrow> op_id btree_set option \<Rightarrow> op_id btree_set \<Rightarrow> unit result" where
  "check_waiters inner previous missing =
    fold_res (\<lambda>dep _.
      if \<not> (case previous of None \<Rightarrow> False | Some old \<Rightarrow> dep |\<in>| old) \<and>
         fcard (get_or {||} (mi_pending_waiters inner) dep) \<ge> MAX_PENDING_WAITERS_PER_DEP
      then Err (Storage ''pending waiter quota exceeded'') else Ok ()) (iter_set missing) ()"

text \<open>The writes of \<open>put_pending_bound\<close>, once every check passed.\<close>

definition move_waits :: "op_id \<Rightarrow> op_id btree_set \<Rightarrow> op_id btree_set \<Rightarrow> memory_inner \<Rightarrow> memory_inner" where
  "move_waits i previous missing inner =
    (let inner = fold (\<lambda>dep. unwait_locked dep i) (iter_set (previous |-| missing)) inner
     in inner\<lparr>mi_pending_waiters := fold (\<lambda>dep. add_member dep i) (iter_set missing) (mi_pending_waiters inner),
          mi_pending_ready := if missing = {||} then finsert i (mi_pending_ready inner)
            else mi_pending_ready inner |-| {|i|}\<rparr>)"

definition insert_pending :: "peer_id \<Rightarrow> operation \<Rightarrow> op_id btree_set \<Rightarrow> u64 \<Rightarrow> memory_inner \<Rightarrow> memory_inner" where
  "insert_pending source op missing charge inner =
    (let topic = b_topic_id (body op)
     in inner\<lparr>mi_pending_usage := charged (mi_pending_usage inner) charge,
          mi_source_usage := modify_or no_usage (\<lambda>u. charged u charge) source (mi_source_usage inner),
          mi_topic_usage := modify_or no_usage (\<lambda>u. charged u charge) topic (mi_topic_usage inner),
          mi_pending_by_topic := add_member topic (o_id op) (mi_pending_by_topic inner),
          mi_pending_records := fmupd (o_id op) \<lparr>pr_source = source, pr_topic_id = topic,
            pr_missing = missing, pr_charge = charge\<rparr> (mi_pending_records inner),
          mi_pending_ops := fmupd (o_id op) op (mi_pending_ops inner)\<rparr>)"

definition buffer_pending ::
  "budget \<Rightarrow> staging_quota option \<Rightarrow> peer_id \<Rightarrow> operation \<Rightarrow> op_id btree_set \<Rightarrow> u64 \<Rightarrow> op_id btree_set option
    \<Rightarrow> memory_inner \<Rightarrow> memory_inner result" where
  "buffer_pending budget quota source op missing charge previous inner =
    rbind (check_waiters inner previous missing) (\<lambda>_.
    rbind (case (previous, quota) of
        (None, Some q) \<Rightarrow> quota_check q (mi_admitted_bytes inner + u_bytes (mi_pending_usage inner)) charge
      | _ \<Rightarrow> Ok ()) (\<lambda>_.
    rbind (if previous = None
      then check_pending_quota (mi_pending_usage inner) (get_or no_usage (mi_source_usage inner) source)
        (get_or no_usage (mi_topic_usage inner) (b_topic_id (body op))) charge else Ok ()) (\<lambda>_.
    rbind (budget (RecordCharge (o_id op))) (\<lambda>_.
      let inner = move_waits (o_id op) (case previous of None \<Rightarrow> {||} | Some old \<Rightarrow> old) missing inner
      in case fmlookup (mi_pending_records inner) (o_id op) of
           Some record \<Rightarrow> Ok (inner\<lparr>mi_pending_records :=
             fmupd (o_id op) (record\<lparr>pr_missing := missing\<rparr>) (mi_pending_records inner)\<rparr>)
         | None \<Rightarrow> Ok (insert_pending source op missing charge inner)))))"

definition put_pending_bound ::
  "externals \<Rightarrow> budget \<Rightarrow> staging_quota option \<Rightarrow> peer_id \<Rightarrow> operation \<Rightarrow> op_meta \<Rightarrow> op_id option
    \<Rightarrow> memory_inner \<Rightarrow> memory_inner result" where
  "put_pending_bound x budget quota source op m genesis inner =
    rbind (pending_op_bytes x op) (\<lambda>charge.
    let topic = b_topic_id (body op); missing = m_missing_deps m in
    if m_topic_id m \<noteq> topic \<or> m_id m \<noteq> o_id op then Err TopicMismatch
    else if fcard missing > MAX_PENDING_MISSING_DEPS then Err (Storage ''pending op has too many missing deps'')
    else rbind (case genesis of None \<Rightarrow> Ok ()
      | Some g \<Rightarrow> branch_matches (fmlookup (mi_topics inner) topic) (Some g)) (\<lambda>_.
    if dep_resolvable_locked inner (o_id op) then Ok inner
    else if fBex missing (dep_resolvable_locked inner) then Err AdmissionConflict
    else case rejected_hit inner topic (o_id op) missing of
      Some j \<Rightarrow> Err (RejectedOp j)
    | None \<Rightarrow>
        (case fmlookup (mi_pending_records inner) (o_id op) of
           Some record \<Rightarrow>
             if fmlookup (mi_pending_ops inner) (o_id op) \<noteq> Some op
             then Err (Storage ''pending op id collision with different op'')
             else if pr_missing record = missing then Ok inner
             else buffer_pending budget quota source op missing charge (Some (pr_missing record)) inner
         | None \<Rightarrow> buffer_pending budget quota source op missing charge None inner)))"

definition waiter_closure_locked :: "memory_inner \<Rightarrow> op_id \<Rightarrow> op_id btree_set" where
  "waiter_closure_locked inner dep = closure_loop (mi_pending_waiters inner) [dep] {||} |-| {|dep|}"

definition purge_pending_waiters :: "op_id \<Rightarrow> memory_inner \<Rightarrow> (nat \<times> memory_inner) result" where
  "purge_pending_waiters dep inner =
    (let closure = waiter_closure_locked inner dep
     in rbind (fold_res remove_pending_locked (iter_set closure) inner) (\<lambda>inner. Ok (fcard closure, inner)))"

definition trim_rejected :: "rejected_ids \<Rightarrow> rejected_ids" where
  "trim_rejected r =
    (let n = length (rj_order r) - MAX_REJECTED_PER_TOPIC
     in \<lparr>rj_order = drop n (rj_order r), rj_ids = rj_ids r |-| fset_of_list (take n (rj_order r))\<rparr>)"

definition mark_rejected :: "op_id \<Rightarrow> rejected_ids \<Rightarrow> rejected_ids" where
  "mark_rejected i r =
    (if i |\<in>| rj_ids r then r else \<lparr>rj_order = rj_order r @ [i], rj_ids = finsert i (rj_ids r)\<rparr>)"

definition no_rejected :: rejected_ids where
  "no_rejected = \<lparr>rj_order = [], rj_ids = {||}\<rparr>"

definition reject_pending_subtree :: "budget \<Rightarrow> op_id \<Rightarrow> memory_inner \<Rightarrow> (nat \<times> memory_inner) result" where
  "reject_pending_subtree budget i inner =
    (case fmlookup (mi_pending_records inner) i of
       None \<Rightarrow> Ok (0, inner)
     | Some record \<Rightarrow>
         let topic = pr_topic_id record; subtree = finsert i (waiter_closure_locked inner i) in
         rbind (budget (RejectedMetadata topic)) (\<lambda>_.
         rbind (fold_res remove_pending_locked (iter_set subtree) inner) (\<lambda>inner.
           Ok (fcard subtree, inner\<lparr>mi_rejected := fmupd topic
             (trim_rejected (fold mark_rejected (iter_set subtree) (get_or no_rejected (mi_rejected inner) topic)))
             (mi_rejected inner)\<rparr>))))"

definition expire_subtree :: "op_id \<Rightarrow> memory_inner \<times> op_id btree_set \<Rightarrow> (memory_inner \<times> op_id btree_set) result" where
  "expire_subtree i = (\<lambda>(inner, removed).
    fold_res (\<lambda>j (inner, removed).
      if contains_key (mi_pending_records inner) j
      then rbind (remove_pending_locked j inner) (\<lambda>inner.
        Ok (inner\<lparr>mi_pending_since := fmdrop j (mi_pending_since inner)\<rparr>, finsert j removed))
      else Ok (inner, removed))
    (iter_set (finsert i (waiter_closure_locked inner i))) (inner, removed))"

definition expire_pending :: "u64 \<Rightarrow> u64 \<Rightarrow> memory_inner \<Rightarrow> (nat \<times> memory_inner) result" where
  "expire_pending now_ms max_idle_ms inner =
    (let since = fold (\<lambda>i m. if contains_key m i then m else fmupd i now_ms m)
           (iter_set (fmdom (mi_pending_records inner)))
           (fmfilter (contains_key (mi_pending_records inner)) (mi_pending_since inner));
         inner = inner\<lparr>mi_pending_since := since\<rparr>;
         expired = filter (\<lambda>i. saturating_add (get_or 0 since i) max_idle_ms < now_ms)
           (iter_set (fmdom (mi_pending_records inner)))
     in rbind (fold_res expire_subtree expired (inner, {||})) (\<lambda>(inner, removed). Ok (fcard removed, inner)))"

definition ready_pending_after :: "memory_inner \<Rightarrow> op_id option \<Rightarrow> nat \<Rightarrow> (peer_id \<times> operation) list" where
  "ready_pending_after inner after limit =
    List.map_filter (pending_entry_locked inner) (range_after after limit (mi_pending_ready inner))"

definition pending_waiters :: "memory_inner \<Rightarrow> op_id \<Rightarrow> (peer_id \<times> operation) list" where
  "pending_waiters inner dep =
    List.map_filter (pending_entry_locked inner) (iter_set (get_or {||} (mi_pending_waiters inner) dep))"

section \<open>Indexes\<close>

text \<open>A map of sets that indexes \<open>f\<close> and keeps no empty set.\<close>

definition index_ok :: "('k, 'v btree_set) btree_map \<Rightarrow> ('k \<Rightarrow> 'v set) \<Rightarrow> bool" where
  "index_ok m f \<longleftrightarrow> (\<forall>k. (fmlookup m k = None \<longrightarrow> f k = {}) \<and> (\<forall>s. fmlookup m k = Some s \<longrightarrow> fset s = f k \<and> f k \<noteq> {}))"

lemma index_okD:
  assumes "index_ok m f"
  shows "fmlookup m k = None \<Longrightarrow> f k = {}" "fmlookup m k = Some s \<Longrightarrow> fset s = f k" "fmlookup m k = Some s \<Longrightarrow> f k \<noteq> {}"
  using assms by (auto simp: index_ok_def)

lemma index_ok_empty [simp]: "index_ok fmempty (\<lambda>_. {})"
  by (simp add: index_ok_def)

lemma index_get: "index_ok m f \<Longrightarrow> fset (get_or {||} m k) = f k"
  by (cases "fmlookup m k") (auto simp: get_or_def dest: index_okD)

lemma index_cong: "index_ok m f \<Longrightarrow> (\<And>k. f k = g k) \<Longrightarrow> index_ok m g"
  by (simp add: index_ok_def)

lemma index_add: "index_ok m f \<Longrightarrow> index_ok (add_member k v m) (f(k := insert v (f k)))"
  by (auto simp: index_ok_def add_member_def modify_or_def get_or_def split: option.splits)

lemma index_drop: "index_ok m f \<Longrightarrow> index_ok (drop_member k v m) (f(k := f k - {v}))"
  unfolding drop_member_def index_ok_def
  by (cases "fmlookup m k") (auto simp: fset_eq_iff)

lemma index_fold_add:
  "index_ok m f \<Longrightarrow> index_ok (fold (\<lambda>k. add_member k v) ks m) (\<lambda>k. if k \<in> set ks then insert v (f k) else f k)"
proof (induction ks arbitrary: m f)
  case (Cons k ks)
  from index_cong[OF Cons.IH[OF index_add[OF Cons.prems, of k v]], of "\<lambda>j. if j \<in> set (k # ks) then insert v (f j) else f j"]
  show ?case by auto
qed simp

lemma index_fold_drop:
  "index_ok m f \<Longrightarrow> index_ok (fold (\<lambda>k. drop_member k v) ks m) (\<lambda>k. if k \<in> set ks then f k - {v} else f k)"
proof (induction ks arbitrary: m f)
  case (Cons k ks)
  from index_cong[OF Cons.IH[OF index_drop[OF Cons.prems, of k v]], of "\<lambda>j. if j \<in> set (k # ks) then f j - {v} else f j"]
  show ?case by auto
qed simp

lemma index_drop_key: "index_ok m f \<Longrightarrow> index_ok (fmdrop k m) (f(k := {}))"
  by (simp add: index_ok_def)

section \<open>Accounting\<close>

type_synonym pending_records = "(op_id, pending_record) btree_map"

definition held :: "pending_records \<Rightarrow> (pending_record \<Rightarrow> bool) \<Rightarrow> op_id set" where
  "held recs P = {i. \<exists>r. fmlookup recs i = Some r \<and> P r}"

definition bytes_in :: "pending_records \<Rightarrow> op_id set \<Rightarrow> nat" where
  "bytes_in recs S = (\<Sum>i \<in> S. unat (pr_charge (the (fmlookup recs i))))"

definition usage_is :: "pending_usage \<Rightarrow> pending_records \<Rightarrow> op_id set \<Rightarrow> bool" where
  "usage_is u recs S \<longleftrightarrow> unat (u_ops u) = card S \<and> unat (u_bytes u) = bytes_in recs S"

definition usages_are :: "('k, pending_usage) btree_map \<Rightarrow> pending_records \<Rightarrow> (pending_record \<Rightarrow> 'k) \<Rightarrow> bool" where
  "usages_are m recs key \<longleftrightarrow> (\<forall>k.
    (fmlookup m k = None \<longrightarrow> held recs (\<lambda>r. key r = k) = {}) \<and>
    (\<forall>u. fmlookup m k = Some u \<longrightarrow> held recs (\<lambda>r. key r = k) \<noteq> {} \<and> usage_is u recs (held recs (\<lambda>r. key r = k))))"

lemma finite_held [simp]: "finite (held recs P)"
  by (rule finite_subset[of _ "fset (fmdom recs)"]) (auto simp: held_def fmlookup_dom_iff)

lemma held_fmdrop: "held (fmdrop i recs) P = held recs P - {i}"
  by (auto simp: held_def)

lemma held_fmupd: "held (fmupd i r recs) P = (if P r then insert i (held recs P) else held recs P - {i})"
  by (auto simp: held_def)

lemma bytes_in_fmdrop: "finite S \<Longrightarrow> bytes_in (fmdrop i recs) (S - {i}) = bytes_in recs (S - {i})"
  unfolding bytes_in_def by (rule sum.cong) auto

lemma bytes_in_remove:
  "finite S \<Longrightarrow> i \<in> S \<Longrightarrow> fmlookup recs i = Some r \<Longrightarrow> bytes_in recs S = unat (pr_charge r) + bytes_in recs (S - {i})"
  unfolding bytes_in_def by (simp add: sum.remove)

lemma bytes_in_insert:
  assumes "finite S" "i \<notin> S"
  shows "bytes_in (fmupd i r recs) (insert i S) = unat (pr_charge r) + bytes_in recs S"
proof -
  have "(\<Sum>j \<in> S. unat (pr_charge (the (fmlookup (fmupd i r recs) j)))) = (\<Sum>j \<in> S. unat (pr_charge (the (fmlookup recs j))))"
    using assms by (intro sum.cong) auto
  then show ?thesis using assms by (simp add: bytes_in_def)
qed

lemma usage_is_no_usage: "finite S \<Longrightarrow> usage_is no_usage recs S \<longleftrightarrow> S = {}"
  by (auto simp: usage_is_def no_usage_def bytes_in_def)

lemma usage_refund:
  assumes u: "usage_is u recs S" and "finite S" "i \<in> S" "fmlookup recs i = Some r"
  obtains v where "refunded u (pr_charge r) = Ok v" "usage_is v (fmdrop i recs) (S - {i})"
proof -
  have b: "unat (u_bytes u) = unat (pr_charge r) + bytes_in recs (S - {i})"
    using u bytes_in_remove[OF assms(2-4)] by (simp add: usage_is_def)
  have n: "unat (u_ops u) = Suc (card (S - {i}))"
    using u card_Suc_Diff1[OF assms(2,3)] by (simp add: usage_is_def)
  have "checked_sub (u_ops u) 1 = Some (u_ops u - 1)" "checked_sub (u_bytes u) (pr_charge r) = Some (u_bytes u - pr_charge r)"
    using b n by (simp_all add: checked_sub_def word_le_nat_alt)
  then have "refunded u (pr_charge r) = Ok \<lparr>u_ops = u_ops u - 1, u_bytes = u_bytes u - pr_charge r\<rparr>"
    by (simp add: refunded_def)
  moreover have "unat (u_ops u - 1) = card (S - {i})" "unat (u_bytes u - pr_charge r) = bytes_in recs (S - {i})"
    using b n by (simp_all add: unat_sub word_le_nat_alt)
  ultimately show thesis
    using that assms(2) by (simp add: usage_is_def bytes_in_fmdrop)
qed

lemma usage_is_same:
  assumes "usage_is u recs S" "\<And>i. i \<in> S \<Longrightarrow> fmlookup recs' i = fmlookup recs i"
  shows "usage_is u recs' S"
proof -
  have "bytes_in recs' S = bytes_in recs S" unfolding bytes_in_def using assms(2) by (intro sum.cong) auto
  then show ?thesis using assms(1) by (simp add: usage_is_def)
qed

lemma usages_refund:
  assumes m: "usages_are m recs key" and r: "fmlookup recs i = Some r"
  obtains v where "refunded (get_or no_usage m (key r)) (pr_charge r) = Ok v"
    "usages_are (put_usage (key r) v m) (fmdrop i recs) key"
proof -
  let ?S = "held recs (\<lambda>q. key q = key r)"
  have i: "i \<in> ?S" using r by (auto simp: held_def)
  then obtain u where u: "fmlookup m (key r) = Some u" "usage_is u recs ?S"
    using m by (cases "fmlookup m (key r)") (auto simp: usages_are_def)
  obtain v where v: "refunded u (pr_charge r) = Ok v" "usage_is v (fmdrop i recs) (?S - {i})"
    by (rule usage_refund[OF u(2) finite_held i r])
  have none: "v = no_usage \<Longrightarrow> ?S - {i} = {}"
    using v(2) usage_is_no_usage[of "?S - {i}" "fmdrop i recs"] by simp
  have some: "v = no_usage" if e: "?S - {i} = {}"
  proof -
    have "unat (u_ops v) = 0" "unat (u_bytes v) = 0" using v(2) unfolding e by (simp_all add: usage_is_def bytes_in_def)
    then show ?thesis by (cases v) (simp add: no_usage_def unat_eq_zero)
  qed
  have other: "held (fmdrop i recs) (\<lambda>q. key q = k) = held recs (\<lambda>q. key q = k)" if "k \<noteq> key r" for k
    using r that by (auto simp: held_def)
  have "usages_are (put_usage (key r) v m) (fmdrop i recs) key"
    unfolding usages_are_def
  proof (intro allI)
    fix k
    show "(fmlookup (put_usage (key r) v m) k = None \<longrightarrow> held (fmdrop i recs) (\<lambda>q. key q = k) = {}) \<and>
      (\<forall>u. fmlookup (put_usage (key r) v m) k = Some u \<longrightarrow>
        held (fmdrop i recs) (\<lambda>q. key q = k) \<noteq> {} \<and> usage_is u (fmdrop i recs) (held (fmdrop i recs) (\<lambda>q. key q = k)))"
    proof (cases "k = key r")
      case True
      have S: "held (fmdrop i recs) (\<lambda>q. key q = k) = ?S - {i}" by (simp add: True held_fmdrop)
      show ?thesis
      proof (cases "v = no_usage")
        case none': True
        then show ?thesis unfolding S none[OF none'] by (simp add: put_usage_def True)
      next
        case False
        then have "?S - {i} \<noteq> {}" using some by blast
        then show ?thesis unfolding S using v(2) False by (simp add: put_usage_def True)
      qed
    next
      case False
      have "usage_is u' (fmdrop i recs) (held recs (\<lambda>q. key q = k))" if "fmlookup m k = Some u'" for u'
        by (rule usage_is_same[of _ recs]) (use m that r False in \<open>auto simp: usages_are_def held_def\<close>)
      then show ?thesis unfolding other[OF False] using m False by (simp add: put_usage_def usages_are_def)
    qed
  qed
  then show thesis using that u(1) v(1) by (simp add: get_or_def)
qed

lemma usage_charge:
  assumes "usage_is u recs S" "finite S" "i \<notin> S" "Suc (card S) < 2 ^ 64" "bytes_in recs S + unat (pr_charge r) < 2 ^ 64"
  shows "usage_is (charged u (pr_charge r)) (fmupd i r recs) (insert i S)"
proof -
  have "unat (u_ops u + 1) = Suc (card S)"
    using assms(1,4) by (subst unat_add_no_overflow) (simp_all add: usage_is_def)
  moreover have "unat (u_bytes u + pr_charge r) = bytes_in recs S + unat (pr_charge r)"
    using assms(1,5) by (subst unat_add_no_overflow) (simp_all add: usage_is_def)
  ultimately show ?thesis using assms(2,3) by (simp add: usage_is_def charged_def bytes_in_insert)
qed

lemma usages_charge:
  assumes m: "usages_are m recs key" and i: "fmlookup recs i = None"
    and "card (held recs (\<lambda>q. key q = key r)) < 2 ^ 63" "bytes_in recs (held recs (\<lambda>q. key q = key r)) + unat (pr_charge r) < 2 ^ 64"
  shows "usages_are (modify_or no_usage (\<lambda>u. charged u (pr_charge r)) (key r) m) (fmupd i r recs) key"
  unfolding usages_are_def
proof (intro allI)
  fix k
  let ?S = "held recs (\<lambda>q. key q = k)" and ?m = "modify_or no_usage (\<lambda>u. charged u (pr_charge r)) (key r) m"
  have notin: "i \<notin> ?S" using i by (auto simp: held_def)
  show "(fmlookup ?m k = None \<longrightarrow> held (fmupd i r recs) (\<lambda>q. key q = k) = {}) \<and>
    (\<forall>u. fmlookup ?m k = Some u \<longrightarrow> held (fmupd i r recs) (\<lambda>q. key q = k) \<noteq> {} \<and>
      usage_is u (fmupd i r recs) (held (fmupd i r recs) (\<lambda>q. key q = k)))"
  proof (cases "k = key r")
    case True
    have "usage_is (get_or no_usage m k) recs ?S"
      using m by (cases "fmlookup m k") (auto simp: usages_are_def get_or_def usage_is_no_usage)
    then have "usage_is (charged (get_or no_usage m k) (pr_charge r)) (fmupd i r recs) (insert i ?S)"
      by (rule usage_charge) (use True assms(3,4) notin in auto)
    then show ?thesis using True by (simp add: modify_or_def get_or_def held_fmupd)
  next
    case False
    have "usage_is u (fmupd i r recs) ?S" if "fmlookup m k = Some u" for u
      by (rule usage_is_same[of _ recs]) (use m that notin in \<open>auto simp: usages_are_def\<close>)
    then show ?thesis using m False notin by (auto simp: modify_or_def usages_are_def held_fmupd)
  qed
qed

section \<open>The pool invariant\<close>

definition pool_ok :: "memory_inner \<Rightarrow> bool" where
  "pool_ok inner \<longleftrightarrow> (let recs = mi_pending_records inner in
    fmdom (mi_pending_ops inner) = fmdom recs \<and>
    (\<forall>i op. fmlookup (mi_pending_ops inner) i = Some op \<longrightarrow> o_id op = i \<and>
      (\<forall>r. fmlookup recs i = Some r \<longrightarrow> pr_topic_id r = b_topic_id (body op))) \<and>
    index_ok (mi_pending_by_topic inner) (\<lambda>t. held recs (\<lambda>r. pr_topic_id r = t)) \<and>
    index_ok (mi_pending_waiters inner) (\<lambda>d. held recs (\<lambda>r. d |\<in>| pr_missing r)) \<and>
    fset (mi_pending_ready inner) = held recs (\<lambda>r. pr_missing r = {||}) \<and>
    usage_is (mi_pending_usage inner) recs (held recs (\<lambda>_. True)) \<and>
    usages_are (mi_source_usage inner) recs pr_source \<and>
    usages_are (mi_topic_usage inner) recs pr_topic_id)"

definition recs_within :: "pending_records \<Rightarrow> bool" where
  "recs_within recs \<longleftrightarrow>
    card (held recs (\<lambda>_. True)) \<le> MAX_PENDING_OPS_TOTAL \<and> bytes_in recs (held recs (\<lambda>_. True)) \<le> MAX_PENDING_BYTES_TOTAL \<and>
    (\<forall>s. card (held recs (\<lambda>r. pr_source r = s)) \<le> MAX_PENDING_OPS_PER_SOURCE \<and>
      bytes_in recs (held recs (\<lambda>r. pr_source r = s)) \<le> MAX_PENDING_BYTES_PER_SOURCE) \<and>
    (\<forall>t. card (held recs (\<lambda>r. pr_topic_id r = t)) \<le> MAX_PENDING_OPS_PER_TOPIC \<and>
      bytes_in recs (held recs (\<lambda>r. pr_topic_id r = t)) \<le> MAX_PENDING_BYTES_PER_TOPIC) \<and>
    (\<forall>d. card (held recs (\<lambda>r. d |\<in>| pr_missing r)) \<le> MAX_PENDING_WAITERS_PER_DEP) \<and>
    (\<forall>i r. fmlookup recs i = Some r \<longrightarrow> fcard (pr_missing r) \<le> MAX_PENDING_MISSING_DEPS)"

text \<open>Everything of a store but its pool.\<close>

definition outside_pool :: "memory_inner \<Rightarrow> memory_inner" where
  "outside_pool inner = inner\<lparr>mi_pending_ops := fmempty, mi_pending_records := fmempty, mi_pending_by_topic := fmempty,
     mi_pending_waiters := fmempty, mi_pending_ready := {||}, mi_pending_since := fmempty, mi_pending_usage := no_usage,
     mi_source_usage := fmempty, mi_topic_usage := fmempty\<rparr>"

lemma pool_okD:
  assumes "pool_ok inner"
  shows "fmdom (mi_pending_ops inner) = fmdom (mi_pending_records inner)"
    and "fmlookup (mi_pending_ops inner) i = Some op \<Longrightarrow> o_id op = i"
    and "fmlookup (mi_pending_ops inner) i = Some op \<Longrightarrow> fmlookup (mi_pending_records inner) i = Some r \<Longrightarrow>
      pr_topic_id r = b_topic_id (body op)"
    and "index_ok (mi_pending_by_topic inner) (\<lambda>t. held (mi_pending_records inner) (\<lambda>r. pr_topic_id r = t))"
    and "index_ok (mi_pending_waiters inner) (\<lambda>d. held (mi_pending_records inner) (\<lambda>r. d |\<in>| pr_missing r))"
    and "fset (mi_pending_ready inner) = held (mi_pending_records inner) (\<lambda>r. pr_missing r = {||})"
    and "usage_is (mi_pending_usage inner) (mi_pending_records inner) (held (mi_pending_records inner) (\<lambda>_. True))"
    and "usages_are (mi_source_usage inner) (mi_pending_records inner) pr_source"
    and "usages_are (mi_topic_usage inner) (mi_pending_records inner) pr_topic_id"
  using assms by (simp_all add: pool_ok_def Let_def)

lemma pool_ok_new [simp]: "pool_ok inner_new"
  by (simp add: pool_ok_def inner_new_def held_def usages_are_def usage_is_no_usage)

lemma recs_withinD:
  assumes "recs_within recs"
  shows "card (held recs (\<lambda>_. True)) \<le> MAX_PENDING_OPS_TOTAL" "bytes_in recs (held recs (\<lambda>_. True)) \<le> MAX_PENDING_BYTES_TOTAL"
    "card (held recs (\<lambda>r. pr_source r = s)) \<le> MAX_PENDING_OPS_PER_SOURCE"
    "bytes_in recs (held recs (\<lambda>r. pr_source r = s)) \<le> MAX_PENDING_BYTES_PER_SOURCE"
    "card (held recs (\<lambda>r. pr_topic_id r = t)) \<le> MAX_PENDING_OPS_PER_TOPIC"
    "bytes_in recs (held recs (\<lambda>r. pr_topic_id r = t)) \<le> MAX_PENDING_BYTES_PER_TOPIC"
    "card (held recs (\<lambda>r. d |\<in>| pr_missing r)) \<le> MAX_PENDING_WAITERS_PER_DEP"
    "fmlookup recs i = Some r \<Longrightarrow> fcard (pr_missing r) \<le> MAX_PENDING_MISSING_DEPS"
  using assms by (auto simp: recs_within_def)

lemma recs_within_empty [simp]: "recs_within fmempty"
  by (simp add: recs_within_def held_def bytes_in_def)

lemma unwait_fold:
  "fold (\<lambda>dep. unwait_locked dep i) ds inner =
    inner\<lparr>mi_pending_waiters := fold (\<lambda>dep. drop_member dep i) ds (mi_pending_waiters inner)\<rparr>"
  by (induction ds arbitrary: inner) (simp_all add: unwait_locked_def)

lemma bytes_in_mono: "finite T \<Longrightarrow> S \<subseteq> T \<Longrightarrow> (\<And>i. i \<in> S \<Longrightarrow> pr_charge (the (fmlookup recs' i)) = pr_charge (the (fmlookup recs i)))
    \<Longrightarrow> bytes_in recs' S \<le> bytes_in recs T"
proof -
  assume a: "finite T" "S \<subseteq> T" "\<And>i. i \<in> S \<Longrightarrow> pr_charge (the (fmlookup recs' i)) = pr_charge (the (fmlookup recs i))"
  have "bytes_in recs' S = bytes_in recs S" unfolding bytes_in_def using a(3) by (intro sum.cong) auto
  also have "\<dots> \<le> bytes_in recs T" unfolding bytes_in_def using a(1,2) by (intro sum_mono2) auto
  finally show ?thesis .
qed

lemma recs_within_shrink:
  assumes w: "recs_within recs"
    and s: "\<And>i r'. fmlookup recs' i = Some r' \<Longrightarrow> \<exists>r. fmlookup recs i = Some r \<and> pr_source r' = pr_source r \<and>
      pr_topic_id r' = pr_topic_id r \<and> pr_charge r' = pr_charge r \<and> pr_missing r' |\<subseteq>| pr_missing r"
  shows "recs_within recs'"
proof -
  have sub: "held recs' P \<subseteq> held recs Q" if "\<And>r r'. pr_source r' = pr_source r \<Longrightarrow> pr_topic_id r' = pr_topic_id r
      \<Longrightarrow> pr_missing r' |\<subseteq>| pr_missing r \<Longrightarrow> P r' \<Longrightarrow> Q r" for P Q
  proof
    fix i assume "i \<in> held recs' P"
    then obtain r' where r': "fmlookup recs' i = Some r'" "P r'" by (auto simp: held_def)
    from s[OF r'(1)] obtain r where r: "fmlookup recs i = Some r" "pr_source r' = pr_source r"
      "pr_topic_id r' = pr_topic_id r" "pr_missing r' |\<subseteq>| pr_missing r" by blast
    have "Q r" by (rule that[OF r(2-4) r'(2)])
    with r(1) show "i \<in> held recs Q" by (auto simp: held_def)
  qed
  have charge: "pr_charge (the (fmlookup recs' i)) = pr_charge (the (fmlookup recs i))" if c: "i \<in> held recs' P" for i P
  proof -
    obtain r' where r': "fmlookup recs' i = Some r'" using c by (auto simp: held_def)
    from s[OF this] show ?thesis by (auto simp: r')
  qed
  have le: "card (held recs' P) \<le> card (held recs P) \<and> bytes_in recs' (held recs' P) \<le> bytes_in recs (held recs P)"
    if "held recs' P \<subseteq> held recs P" for P
    using that by (auto intro: card_mono bytes_in_mono charge)
  have "card (held recs' (\<lambda>r. d |\<in>| pr_missing r)) \<le> MAX_PENDING_WAITERS_PER_DEP" for d
  proof (rule order_trans[OF _ recs_withinD(7)[OF w]])
    show "card (held recs' (\<lambda>r. d |\<in>| pr_missing r)) \<le> card (held recs (\<lambda>r. d |\<in>| pr_missing r))"
      by (rule card_mono[OF finite_held], rule sub) auto
  qed
  moreover have "fcard (pr_missing r') \<le> MAX_PENDING_MISSING_DEPS" if r': "fmlookup recs' i = Some r'" for i r'
  proof -
    obtain r where r: "fmlookup recs i = Some r" "pr_missing r' |\<subseteq>| pr_missing r" using s[OF r'] by blast
    show ?thesis using fcard_mono[OF r(2)] recs_withinD(8)[OF w r(1)] by simp
  qed
  moreover have "card (held recs' (\<lambda>_. True)) \<le> MAX_PENDING_OPS_TOTAL \<and> bytes_in recs' (held recs' (\<lambda>_. True)) \<le> MAX_PENDING_BYTES_TOTAL"
    using le[OF sub, of "\<lambda>_. True"] recs_withinD(1,2)[OF w] by force
  moreover have "card (held recs' (\<lambda>r. pr_source r = k)) \<le> MAX_PENDING_OPS_PER_SOURCE \<and>
      bytes_in recs' (held recs' (\<lambda>r. pr_source r = k)) \<le> MAX_PENDING_BYTES_PER_SOURCE" for k
    using le[OF sub, of "\<lambda>r. pr_source r = k"] recs_withinD(3,4)[OF w, of k] by force
  moreover have "card (held recs' (\<lambda>r. pr_topic_id r = k)) \<le> MAX_PENDING_OPS_PER_TOPIC \<and>
      bytes_in recs' (held recs' (\<lambda>r. pr_topic_id r = k)) \<le> MAX_PENDING_BYTES_PER_TOPIC" for k
    using le[OF sub, of "\<lambda>r. pr_topic_id r = k"] recs_withinD(5,6)[OF w, of k] by force
  ultimately show ?thesis by (simp add: recs_within_def)
qed

lemma recs_within_fmdrop: "recs_within recs \<Longrightarrow> recs_within (fmdrop i recs)"
  by (erule recs_within_shrink) (auto split: if_splits)

section \<open>Removing\<close>

lemma remove_pending_ok:
  assumes ok: "pool_ok inner"
  obtains inner' where "remove_pending_locked i inner = Ok inner'" "pool_ok inner'"
    "mi_pending_records inner' = fmdrop i (mi_pending_records inner)"
    "outside_pool inner' = outside_pool inner" "mi_pending_since inner' = mi_pending_since inner"
proof (cases "fmlookup (mi_pending_records inner) i")
  case None
  then have "fmdrop i (mi_pending_records inner) = mi_pending_records inner"
    by (intro fmap_ext) simp
  then show thesis using that[of inner] None ok by (simp add: remove_pending_locked_def)
next
  case (Some r)
  let ?recs = "mi_pending_records inner"
  have all: "i \<in> held ?recs (\<lambda>_. True)" using Some by (auto simp: held_def)
  obtain u where u: "refunded (mi_pending_usage inner) (pr_charge r) = Ok u"
    "usage_is u (fmdrop i ?recs) (held ?recs (\<lambda>_. True) - {i})"
    by (rule usage_refund[OF pool_okD(7)[OF ok] finite_held all Some])
  obtain s where s: "refunded (get_or no_usage (mi_source_usage inner) (pr_source r)) (pr_charge r) = Ok s"
    "usages_are (put_usage (pr_source r) s (mi_source_usage inner)) (fmdrop i ?recs) pr_source"
    by (rule usages_refund[OF pool_okD(8)[OF ok] Some])
  obtain t where t: "refunded (get_or no_usage (mi_topic_usage inner) (pr_topic_id r)) (pr_charge r) = Ok t"
    "usages_are (put_usage (pr_topic_id r) t (mi_topic_usage inner)) (fmdrop i ?recs) pr_topic_id"
    by (rule usages_refund[OF pool_okD(9)[OF ok] Some])
  define inner' where "inner' = inner\<lparr>mi_pending_records := fmdrop i ?recs, mi_pending_usage := u,
      mi_source_usage := put_usage (pr_source r) s (mi_source_usage inner),
      mi_topic_usage := put_usage (pr_topic_id r) t (mi_topic_usage inner),
      mi_pending_waiters := fold (\<lambda>dep. drop_member dep i) (iter_set (pr_missing r)) (mi_pending_waiters inner),
      mi_pending_by_topic := drop_member (pr_topic_id r) i (mi_pending_by_topic inner),
      mi_pending_ready := mi_pending_ready inner |-| {|i|}, mi_pending_ops := fmdrop i (mi_pending_ops inner)\<rparr>"
  have run: "remove_pending_locked i inner = Ok inner'"
    using Some u(1) s(1) t(1) by (simp add: remove_pending_locked_def unwait_fold inner'_def)
  have wait: "index_ok (mi_pending_waiters inner') (\<lambda>d. held (fmdrop i ?recs) (\<lambda>r. d |\<in>| pr_missing r))"
  proof -
    have "index_ok (mi_pending_waiters inner') (\<lambda>d. if d \<in> set (iter_set (pr_missing r))
        then held ?recs (\<lambda>r. d |\<in>| pr_missing r) - {i} else held ?recs (\<lambda>r. d |\<in>| pr_missing r))"
      unfolding inner'_def using index_fold_drop[OF pool_okD(5)[OF ok], of i "iter_set (pr_missing r)"] by simp
    then show ?thesis by (rule index_cong) (use Some in \<open>auto simp: held_def\<close>)
  qed
  have topic: "index_ok (mi_pending_by_topic inner') (\<lambda>t. held (fmdrop i ?recs) (\<lambda>r. pr_topic_id r = t))"
  proof -
    have "index_ok (mi_pending_by_topic inner') ((\<lambda>t. held ?recs (\<lambda>r. pr_topic_id r = t))
        (pr_topic_id r := held ?recs (\<lambda>q. pr_topic_id q = pr_topic_id r) - {i}))"
      unfolding inner'_def using index_drop[OF pool_okD(4)[OF ok]] by simp
    then show ?thesis by (rule index_cong) (use Some in \<open>auto simp: held_def\<close>)
  qed
  have ready: "fset (mi_pending_ready inner') = held (fmdrop i ?recs) (\<lambda>r. pr_missing r = {||})"
    using pool_okD(6)[OF ok] by (simp add: inner'_def held_fmdrop)
  have "pool_ok inner'"
    unfolding pool_ok_def Let_def
    using pool_okD(1-3)[OF ok] wait topic ready u(2) s(2) t(2) by (auto simp: inner'_def held_fmdrop)
  then show thesis using that run by (simp add: inner'_def outside_pool_def)
qed

lemma remove_fold_ok:
  assumes "pool_ok inner"
  shows "\<exists>inner'. fold_res remove_pending_locked is inner = Ok inner' \<and> pool_ok inner' \<and>
    mi_pending_records inner' = fmfilter (\<lambda>i. i \<notin> set is) (mi_pending_records inner) \<and>
    outside_pool inner' = outside_pool inner \<and> mi_pending_since inner' = mi_pending_since inner"
  using assms
proof (induction "is" arbitrary: inner)
  case Nil
  then show ?case by (simp add: fmfilter_true)
next
  case (Cons i "is")
  obtain inner1 where i: "remove_pending_locked i inner = Ok inner1" "pool_ok inner1"
    "mi_pending_records inner1 = fmdrop i (mi_pending_records inner)"
    "outside_pool inner1 = outside_pool inner" "mi_pending_since inner1 = mi_pending_since inner"
    by (rule remove_pending_ok[OF Cons.prems, of i])
  have drop: "fmfilter (\<lambda>j. j \<notin> set is) (fmdrop i (mi_pending_records inner)) = fmfilter (\<lambda>j. j \<notin> set (i # is)) (mi_pending_records inner)"
    by (intro fmap_ext) auto
  from Cons.IH[OF i(2)] show ?case unfolding i(3) drop by (simp add: i(1,4,5))
qed

lemma recs_within_fmfilter: "recs_within recs \<Longrightarrow> recs_within (fmfilter P recs)"
  by (erule recs_within_shrink) (auto split: if_splits)

section \<open>Settling\<close>

definition without_dep :: "op_id \<Rightarrow> pending_record \<Rightarrow> pending_record" where
  "without_dep d r = r\<lparr>pr_missing := pr_missing r |-| {|d|}\<rparr>"

lemma settle_waiters_fold:
  assumes "distinct ws" "\<And>w. w \<in> set ws \<Longrightarrow> contains_key (mi_pending_records inner) w"
  shows "mi_pending_records (fold (settle_waiter d) ws inner) =
      fmmap_keys (\<lambda>w r. if w \<in> set ws then without_dep d r else r) (mi_pending_records inner) \<and>
    fset (mi_pending_ready (fold (settle_waiter d) ws inner)) = fset (mi_pending_ready inner) \<union>
      {w \<in> set ws. \<exists>r. fmlookup (mi_pending_records inner) w = Some r \<and> pr_missing r |-| {|d|} = {||}} \<and>
    outside_pool (fold (settle_waiter d) ws inner) = outside_pool inner \<and>
    (fold (settle_waiter d) ws inner)\<lparr>mi_pending_records := mi_pending_records inner, mi_pending_ready := mi_pending_ready inner\<rparr> = inner"
  using assms
proof (induction ws arbitrary: inner)
  case Nil
  have "fmmap_keys (\<lambda>w r. r) (mi_pending_records inner) = mi_pending_records inner"
    by (intro fmap_ext) (simp add: option.map_ident)
  then show ?case by simp
next
  case (Cons w ws)
  obtain r where r: "fmlookup (mi_pending_records inner) w = Some r"
    using Cons.prems(2)[of w] by (auto simp: contains_key_def)
  let ?inner = "settle_waiter d w inner"
  have recs: "mi_pending_records ?inner = fmupd w (without_dep d r) (mi_pending_records inner)"
    and ready: "mi_pending_ready ?inner = (if pr_missing r |-| {|d|} = {||} then finsert w (mi_pending_ready inner) else mi_pending_ready inner)"
    and frame: "outside_pool ?inner = outside_pool inner"
      "?inner\<lparr>mi_pending_records := mi_pending_records inner, mi_pending_ready := mi_pending_ready inner\<rparr> = inner"
    using r by (simp_all add: settle_waiter_def without_dep_def outside_pool_def Let_def)
  have w: "w \<notin> set ws" using Cons.prems(1) by simp
  have IH: "mi_pending_records (fold (settle_waiter d) ws ?inner) =
      fmmap_keys (\<lambda>w r. if w \<in> set ws then without_dep d r else r) (mi_pending_records ?inner)"
    "fset (mi_pending_ready (fold (settle_waiter d) ws ?inner)) = fset (mi_pending_ready ?inner) \<union>
      {w \<in> set ws. \<exists>r. fmlookup (mi_pending_records ?inner) w = Some r \<and> pr_missing r |-| {|d|} = {||}}"
    "outside_pool (fold (settle_waiter d) ws ?inner) = outside_pool ?inner"
    "(fold (settle_waiter d) ws ?inner)\<lparr>mi_pending_records := mi_pending_records ?inner, mi_pending_ready := mi_pending_ready ?inner\<rparr> = ?inner"
    using Cons.IH[of ?inner] Cons.prems recs by auto
  have "fmmap_keys (\<lambda>w r. if w \<in> set ws then without_dep d r else r) (mi_pending_records ?inner) =
      fmmap_keys (\<lambda>v r. if v \<in> set (w # ws) then without_dep d r else r) (mi_pending_records inner)"
    unfolding recs by (intro fmap_ext) (use w r in auto)
  moreover have "{v \<in> set ws. \<exists>q. fmlookup (mi_pending_records ?inner) v = Some q \<and> pr_missing q |-| {|d|} = {||}} =
      {v \<in> set ws. \<exists>q. fmlookup (mi_pending_records inner) v = Some q \<and> pr_missing q |-| {|d|} = {||}}"
    unfolding recs using w by auto
  moreover have "(fold (settle_waiter d) ws ?inner)\<lparr>mi_pending_records := mi_pending_records inner, mi_pending_ready := mi_pending_ready inner\<rparr>
      = inner"
    using arg_cong[OF IH(4), of "\<lambda>s. s\<lparr>mi_pending_records := mi_pending_records inner, mi_pending_ready := mi_pending_ready inner\<rparr>"]
    by (simp add: frame(2))
  ultimately show ?case
    using IH(1-3) ready frame(1) r by auto
qed

lemma settle_waiters_ok:
  assumes ok: "pool_ok inner"
  shows "pool_ok (settle_waiters_locked d inner)"
    and "mi_pending_records (settle_waiters_locked d inner) = fmmap (without_dep d) (mi_pending_records inner)"
    and "outside_pool (settle_waiters_locked d inner) = outside_pool inner"
proof -
  let ?recs = "mi_pending_records inner" and ?in = "inner\<lparr>mi_pending_waiters := fmdrop d (mi_pending_waiters inner)\<rparr>"
  let ?ws = "iter_set (get_or {||} (mi_pending_waiters inner) d)" and ?out = "settle_waiters_locked d inner"
  have ws: "set ?ws = held ?recs (\<lambda>r. d |\<in>| pr_missing r)" using index_get[OF pool_okD(5)[OF ok]] by simp
  have fold: "?out = fold (settle_waiter d) ?ws ?in" by (simp add: settle_waiters_locked_def)
  have keys: "contains_key (mi_pending_records ?in) w" if "w \<in> set ?ws" for w
    using that unfolding ws by (auto simp: held_def contains_key_def)
  note f = settle_waiters_fold[where ws = ?ws and inner = ?in and d = d, OF distinct_iter_set keys, folded fold]
  have frame: "?out\<lparr>mi_pending_records := mi_pending_records ?in, mi_pending_ready := mi_pending_ready ?in\<rparr> = ?in"
    using f by blast
  have recs: "mi_pending_records ?out = fmmap (without_dep d) ?recs"
  proof (rule fmap_ext)
    fix w
    have "without_dep d r = r" if "fmlookup ?recs w = Some r" "w \<notin> set ?ws" for r
      using that unfolding ws by (cases r) (auto simp: held_def without_dep_def)
    then show "fmlookup (mi_pending_records ?out) w = fmlookup (fmmap (without_dep d) ?recs) w"
      using f by (cases "fmlookup ?recs w") auto
  qed
  then show "mi_pending_records ?out = fmmap (without_dep d) ?recs" .
  show "outside_pool ?out = outside_pool inner" using f by (simp add: outside_pool_def)
  have same: "held (fmmap (without_dep d) ?recs) P = held ?recs Q" if "\<And>r. P (without_dep d r) = Q r" for P Q
    using that by (auto simp: held_def)
  have bytes: "bytes_in (fmmap (without_dep d) ?recs) (held ?recs P) = bytes_in ?recs (held ?recs P)" for P
    unfolding bytes_in_def by (rule sum.cong) (auto simp: held_def without_dep_def)
  have usage: "usage_is u (fmmap (without_dep d) ?recs) (held ?recs P) \<longleftrightarrow> usage_is u ?recs (held ?recs P)" for u P
    by (simp add: usage_is_def bytes)
  have rest: "mi_pending_ops ?out = mi_pending_ops inner" "mi_pending_by_topic ?out = mi_pending_by_topic inner"
    "mi_pending_waiters ?out = fmdrop d (mi_pending_waiters inner)" "mi_pending_usage ?out = mi_pending_usage inner"
    "mi_source_usage ?out = mi_source_usage inner" "mi_topic_usage ?out = mi_topic_usage inner"
    using arg_cong[OF frame, of mi_pending_ops] arg_cong[OF frame, of mi_pending_by_topic]
      arg_cong[OF frame, of mi_pending_waiters] arg_cong[OF frame, of mi_pending_usage]
      arg_cong[OF frame, of mi_source_usage] arg_cong[OF frame, of mi_topic_usage] by simp_all
  have ready: "fset (mi_pending_ready ?out) = held (fmmap (without_dep d) ?recs) (\<lambda>r. pr_missing r = {||})"
  proof -
    have "fset (mi_pending_ready ?out) = held ?recs (\<lambda>r. pr_missing r = {||}) \<union>
        {w \<in> held ?recs (\<lambda>r. d |\<in>| pr_missing r). \<exists>r. fmlookup ?recs w = Some r \<and> pr_missing r |-| {|d|} = {||}}"
      using f pool_okD(6)[OF ok] unfolding ws by simp
    also have "\<dots> = held (fmmap (without_dep d) ?recs) (\<lambda>r. pr_missing r = {||})"
      by (auto simp: held_def without_dep_def)
    finally show ?thesis .
  qed
  have wait: "index_ok (mi_pending_waiters ?out) (\<lambda>e. held (fmmap (without_dep d) ?recs) (\<lambda>r. e |\<in>| pr_missing r))"
    unfolding rest
    by (rule index_cong[OF index_drop_key[OF pool_okD(5)[OF ok], of d]]) (auto simp: held_def without_dep_def)
  have "usages_are (mi_source_usage ?out) (fmmap (without_dep d) ?recs) pr_source"
    using pool_okD(8)[OF ok] unfolding usages_are_def rest
    by (simp add: same[of "\<lambda>r. pr_source r = k" "\<lambda>r. pr_source r = k" for k] usage without_dep_def)
  moreover have "usages_are (mi_topic_usage ?out) (fmmap (without_dep d) ?recs) pr_topic_id"
    using pool_okD(9)[OF ok] unfolding usages_are_def rest
    by (simp add: same[of "\<lambda>r. pr_topic_id r = k" "\<lambda>r. pr_topic_id r = k" for k] usage without_dep_def)
  moreover have "index_ok (mi_pending_by_topic ?out) (\<lambda>t. held (fmmap (without_dep d) ?recs) (\<lambda>r. pr_topic_id r = t))"
    using pool_okD(4)[OF ok] unfolding rest
    by (simp add: same[of "\<lambda>r. pr_topic_id r = k" "\<lambda>r. pr_topic_id r = k" for k] without_dep_def)
  moreover have "usage_is (mi_pending_usage ?out) (fmmap (without_dep d) ?recs) (held (fmmap (without_dep d) ?recs) (\<lambda>_. True))"
    using pool_okD(7)[OF ok] unfolding rest by (simp add: same[of "\<lambda>_. True" "\<lambda>_. True"] usage)
  ultimately show "pool_ok ?out"
    using pool_okD(1-3)[OF ok] wait ready by (auto simp: pool_ok_def recs rest without_dep_def)
qed

end
