(* ===== verification/Memory_Writes.thy ===== *)
theory Memory_Writes
  imports Memory_Pending
begin

text \<open>
  The writes of the in-memory store outside its pending pool (\<open>storage/memory/mod.rs\<close>): admission
  of a batch, reset of a topic, acknowledgements, obligations, statuses and the eviction journal. Each
  takes the store and returns it updated; on an error the caller keeps the store it had.
\<close>

section \<open>Obligations\<close>

definition merged_obligation_locked :: "memory_inner \<Rightarrow> sync_obligation \<Rightarrow> sync_obligation result" where
  "merged_obligation_locked inner ob =
    merged_obligation (Option.bind (fmlookup (mi_obligations inner) (ob_topic_id ob, ob_peer_id ob))
      (\<lambda>records. fmlookup records (kind_of ob))) ob"

definition put_obligation_locked :: "sync_obligation \<Rightarrow> memory_inner \<Rightarrow> memory_inner" where
  "put_obligation_locked ob inner =
    (if obligation_is_empty ob then inner
     else inner\<lparr>mi_obligations := modify_or fmempty (fmupd (kind_of ob) ob) (ob_topic_id ob, ob_peer_id ob)
       (mi_obligations inner)\<rparr>)"

definition reserve_obligation :: "budget \<Rightarrow> sync_obligation \<Rightarrow> unit result" where
  "reserve_obligation budget ob =
    (if obligation_is_empty ob then Ok () else budget (ObligationMetadata (ob_peer_id ob) (kind_of ob)))"

definition put_sync_obligation :: "budget \<Rightarrow> sync_obligation \<Rightarrow> op_id option \<Rightarrow> memory_inner \<Rightarrow> memory_inner result" where
  "put_sync_obligation budget ob expected_genesis inner =
    rbind (branch_matches (fmlookup (mi_topics inner) (ob_topic_id ob)) expected_genesis) (\<lambda>_.
    rbind (budget EffectsWorkspace) (\<lambda>_.
    rbind (merged_obligation_locked inner ob) (\<lambda>merged.
    rbind (reserve_obligation budget merged) (\<lambda>_.
      Ok (put_obligation_locked merged inner)))))"

section \<open>Admission\<close>

type_synonym effects = "(peer_id \<times> obligation_kind, sync_obligation) btree_map"

definition merge_effect :: "memory_inner \<Rightarrow> topic_id \<Rightarrow> op_id option \<Rightarrow> sync_obligation \<Rightarrow> effects \<Rightarrow> effects result" where
  "merge_effect inner topic genesis ob effects =
    (let ack = fmlookup (mi_peer_acks inner) (ob_peer_id ob, topic); key = (ob_peer_id ob, kind_of ob) in
     if ob_topic_id ob \<noteq> topic then Err TopicMismatch
     else if obligation_is_empty ob \<or> ack_covers ack genesis ob then Ok effects
     else rbind (case fmlookup effects key of
         Some pending \<Rightarrow> merged_obligation (Some pending) ob
       | None \<Rightarrow> merged_obligation_locked inner ob) (\<lambda>merged.
       Ok (fmupd key merged effects)))"

definition accounted_locked :: "memory_inner \<Rightarrow> op_meta \<Rightarrow> bool" where
  "accounted_locked inner m \<longleftrightarrow>
    contains_key (mi_ops inner) (m_id m) \<or> contains_key (mi_meta inner) (m_id m) \<or>
    fmlookup (mi_actor_by_seq inner) (m_topic_id m, m_actor_id m, m_actor_seq m) = Some (m_id m) \<or>
    contains_key (mi_children inner) (m_id m)"

type_synonym tips = "(topic_id \<times> actor_id, u64 \<times> op_id) btree_map"

definition check_append :: "(u64 \<times> op_id) option \<Rightarrow> op_meta \<Rightarrow> unit result" where
  "check_append tip m =
    (case tip of
       Some (seq, i) \<Rightarrow>
         rbind (ok_or (checked_add seq 1) InvalidOpId) (\<lambda>expected.
           if m_actor_seq m \<noteq> expected then Err (ActorSeqGap expected (m_actor_seq m))
           else if m_actor_prev m \<noteq> Some i then Err ActorPrevMismatch else Ok ())
     | None \<Rightarrow>
         if m_actor_seq m \<noteq> 1 then Err (ActorSeqGap 1 (m_actor_seq m))
         else if m_actor_prev m \<noteq> None then Err ActorPrevMismatch else Ok ())"

definition check_entry ::
  "memory_inner \<Rightarrow> topic_id \<Rightarrow> operation \<times> op_meta \<Rightarrow> tips \<times> (operation \<times> op_meta) list
    \<Rightarrow> (tips \<times> (operation \<times> op_meta) list) result" where
  "check_entry inner topic = (\<lambda>(op, m) (actor_tips, new_entries).
    if m_topic_id m \<noteq> topic then Err TopicMismatch
    else if (case fmlookup (mi_ops inner) (o_id op) of Some existing \<Rightarrow> existing \<noteq> op | None \<Rightarrow> False)
    then Err (Storage ''op id collision with different op'')
    else
      let has_op = contains_key (mi_ops inner) (o_id op);
          has_meta = contains_key (mi_meta inner) (o_id op);
          indexed = fmlookup (mi_actor_by_seq inner) (m_topic_id m, m_actor_id m, m_actor_seq m);
          actor = (m_topic_id m, m_actor_id m) in
      if has_op \<and> has_meta then Ok (actor_tips, new_entries)
      else if indexed \<noteq> None \<and> indexed \<noteq> Some (o_id op) then Err ActorFork
      else if has_op \<or> has_meta \<or> indexed = Some (o_id op) \<or> contains_key (mi_children inner) (o_id op)
      then Ok (actor_tips, new_entries @ [(op, m)])
      else rbind (check_append (case fmlookup actor_tips actor of
            Some tip \<Rightarrow> Some tip | None \<Rightarrow> fmlookup (mi_actor_tip inner) actor) m) (\<lambda>_.
        Ok (fmupd actor (m_actor_seq m, o_id op) actor_tips, new_entries @ [(op, m)])))"

record admit_plan =
  pl_effects :: effects
  pl_removed_peers :: "peer_id list"
  pl_new_entries :: "(operation \<times> op_meta) list"
  pl_projected :: actor_clock
  pl_fingerprint :: id32
  pl_admitted_bytes :: u64

type_synonym fingerprint = "op_id btree_set \<Rightarrow> actor_clock \<Rightarrow> id32 result"

definition project_entry ::
  "externals \<Rightarrow> budget \<Rightarrow> operation \<times> op_meta \<Rightarrow> actor_clock \<Rightarrow> actor_clock result" where
  "project_entry x budget = (\<lambda>(op, m) projected.
    rbind (budget (EntryNodes (o_id op))) (\<lambda>_.
    rbind (pending_op_bytes x op) (\<lambda>_.
    rbind (budget (RecordCharge (o_id op))) (\<lambda>_.
      Ok (clock_observe projected (m_actor_id m) (m_actor_seq m))))))"

definition batch_charge :: "externals \<Rightarrow> memory_inner \<Rightarrow> (operation \<times> op_meta) list \<Rightarrow> u64 result" where
  "batch_charge x inner entries =
    fold_res (\<lambda>(op, _) charge.
      if contains_key (mi_ops inner) (o_id op) then Ok charge
      else rbind (pending_op_bytes x op) (\<lambda>n. Ok (charge + n))) entries 0"

definition removed_peers :: "admitted_batch \<Rightarrow> peer_id list" where
  "removed_peers batch =
    (case (ab_expected_topic_state batch, ab_topic_state batch) of
       (Some expected, Some state) \<Rightarrow> iter_set (t_members expected |-| t_members state)
     | _ \<Rightarrow> [])"

text \<open>Everything \<open>admit_batch_locked\<close> checks and computes before its first write.\<close>

definition plan_admission ::
  "externals \<Rightarrow> fingerprint \<Rightarrow> budget \<Rightarrow> admitted_batch \<Rightarrow> staging_quota option \<Rightarrow> memory_inner \<Rightarrow> admit_plan result" where
  "plan_admission x fingerprint budget batch quota inner =
    (let topic = ab_topic_id batch in
     rbind (validate_batch batch) (\<lambda>_.
     if get_or {||} (mi_heads inner) topic \<noteq> ab_expected_heads batch then Err AdmissionConflict
     else if topic_state_locked inner topic \<noteq> ab_expected_topic_state batch then Err AdmissionConflict
     else rbind (validate_heads batch (\<lambda>m. Ok (accounted_locked inner m))) (\<lambda>_.
     let genesis = map_option t_genesis
       (case ab_topic_state batch of Some state \<Rightarrow> Some state | None \<Rightarrow> ab_expected_topic_state batch) in
     rbind (budget EffectsWorkspace) (\<lambda>_.
     rbind (fold_res (merge_effect inner topic genesis) (ef_sync_obligations (ab_effects batch)) fmempty) (\<lambda>effects.
     rbind (fold_res (check_entry inner topic) (ab_entries batch) (fmempty, [])) (\<lambda>(_, new_entries).
     rbind (ensure_deps_resolvable new_entries (\<lambda>dep. Ok (dep_resolvable_locked inner dep))) (\<lambda>_.
     rbind (budget ClockWorkspace) (\<lambda>_.
     rbind (fold_res (project_entry x budget) new_entries (get_or clock_new (mi_actor_clock inner) topic)) (\<lambda>projected.
     rbind (budget ProjectedNodes) (\<lambda>_.
     rbind (budget (TopicMetadata topic)) (\<lambda>_.
     rbind (fold_res (\<lambda>(_, ob) _. reserve_obligation budget ob) (iter_map effects) ()) (\<lambda>_.
     rbind (fingerprint (ab_heads batch) projected) (\<lambda>f.
     rbind (case quota of
         None \<Rightarrow> Ok (mi_admitted_bytes inner)
       | Some q \<Rightarrow>
           rbind (batch_charge x inner new_entries) (\<lambda>charge.
           rbind (quota_check q (mi_admitted_bytes inner + u_bytes (mi_pending_usage inner)) charge) (\<lambda>_.
             Ok (mi_admitted_bytes inner + charge)))) (\<lambda>admitted_bytes.
       Ok \<lparr>pl_effects = effects, pl_removed_peers = removed_peers batch, pl_new_entries = new_entries,
         pl_projected = projected, pl_fingerprint = f, pl_admitted_bytes = admitted_bytes\<rparr>))))))))))))))"

definition raise_tip :: "topic_id \<times> actor_id \<Rightarrow> u64 \<times> op_id \<Rightarrow> tips \<Rightarrow> tips" where
  "raise_tip actor tip tips =
    (case fmlookup tips actor of
       Some old \<Rightarrow> if fst old < fst tip then fmupd actor tip tips else tips
     | None \<Rightarrow> fmupd actor tip tips)"

definition raise_generation :: "topic_id \<Rightarrow> u64 \<Rightarrow> (topic_id, u64) btree_map \<Rightarrow> (topic_id, u64) btree_map" where
  "raise_generation topic g m = modify_or g (\<lambda>old. max old g) topic m"

definition index_entry :: "operation \<Rightarrow> op_meta \<Rightarrow> memory_inner \<Rightarrow> memory_inner" where
  "index_entry op m inner = inner\<lparr>
    mi_topic_ops := add_member (m_topic_id m) (o_id op) (mi_topic_ops inner),
    mi_children := fold (\<lambda>dep. add_member dep (o_id op)) (iter_set (m_deps m)) (mi_children inner),
    mi_actor_by_seq := fmupd (m_topic_id m, m_actor_id m, m_actor_seq m) (o_id op) (mi_actor_by_seq inner),
    mi_actor_tip := raise_tip (m_topic_id m, m_actor_id m) (m_actor_seq m, o_id op) (mi_actor_tip inner),
    mi_max_generation := raise_generation (m_topic_id m) (m_generation m) (mi_max_generation inner)\<rparr>"

definition admit_entry :: "operation \<times> op_meta \<Rightarrow> memory_inner \<Rightarrow> memory_inner result" where
  "admit_entry = (\<lambda>(op, m) inner.
    rbind (remove_pending_locked (o_id op) (index_entry op m inner)) (\<lambda>inner.
      let inner = settle_waiters_locked (o_id op) inner
      in Ok (inner\<lparr>mi_meta := fmupd (o_id op) m (mi_meta inner), mi_ops := fmupd (o_id op) op (mi_ops inner)\<rparr>)))"

definition forget_peer :: "topic_id \<Rightarrow> peer_id \<Rightarrow> memory_inner \<Rightarrow> memory_inner" where
  "forget_peer topic peer inner = inner\<lparr>mi_obligations := fmdrop (topic, peer) (mi_obligations inner),
    mi_sync_statuses := fmdrop (topic, peer) (mi_sync_statuses inner),
    mi_peer_acks := fmdrop (peer, topic) (mi_peer_acks inner)\<rparr>"

definition apply_admission :: "admitted_batch \<Rightarrow> admit_plan \<Rightarrow> memory_inner \<Rightarrow> memory_inner result" where
  "apply_admission batch plan inner =
    (let topic = ab_topic_id batch in
     rbind (fold_res admit_entry (pl_new_entries plan) (inner\<lparr>mi_admitted_bytes := pl_admitted_bytes plan\<rparr>)) (\<lambda>inner.
     let inner = inner\<lparr>mi_actor_clock := fmupd topic (pl_projected plan) (mi_actor_clock inner),
           mi_heads := fmupd topic (ab_heads batch) (mi_heads inner),
           mi_fingerprint := fmupd topic (pl_fingerprint plan) (mi_fingerprint inner),
           mi_topics := (case ab_topic_state batch of None \<Rightarrow> mi_topics inner
             | Some state \<Rightarrow> fmupd (t_topic_id state) state (mi_topics inner))\<rparr>;
         inner = fold (\<lambda>(_, ob). put_obligation_locked ob) (iter_map (pl_effects plan)) inner
     in Ok (fold (forget_peer topic) (pl_removed_peers plan) inner)))"

definition admit_batch_locked ::
  "externals \<Rightarrow> fingerprint \<Rightarrow> budget \<Rightarrow> admitted_batch \<Rightarrow> staging_quota option \<Rightarrow> memory_inner \<Rightarrow> memory_inner result" where
  "admit_batch_locked x fingerprint budget batch quota inner =
    rbind (plan_admission x fingerprint budget batch quota inner) (\<lambda>plan. apply_admission batch plan inner)"

section \<open>Reset\<close>

definition drop_op :: "externals \<Rightarrow> op_id \<Rightarrow> memory_inner \<Rightarrow> memory_inner result" where
  "drop_op x i inner =
    (let deps = (case fmlookup (mi_meta inner) i of None \<Rightarrow> {||} | Some m \<Rightarrow> m_deps m);
         children = fold (\<lambda>dep. drop_member dep i) (iter_set deps) (mi_children inner) in
     rbind (if mi_admitted_bytes inner > 0
       then (case fmlookup (mi_ops inner) i of
           None \<Rightarrow> Ok (mi_admitted_bytes inner)
         | Some op \<Rightarrow> rbind (pending_op_bytes x op) (\<lambda>refund. Ok (saturating_sub (mi_admitted_bytes inner) refund)))
       else Ok (mi_admitted_bytes inner)) (\<lambda>bytes.
     Ok (inner\<lparr>mi_admitted_bytes := bytes, mi_ops := fmdrop i (mi_ops inner), mi_meta := fmdrop i (mi_meta inner),
       mi_children := fmdrop i children\<rparr>)))"

definition reset_topic_locked :: "externals \<Rightarrow> budget \<Rightarrow> topic_id \<Rightarrow> memory_inner \<Rightarrow> (nat \<times> memory_inner) result" where
  "reset_topic_locked x budget topic inner =
    rbind (budget (TopicMetadata topic)) (\<lambda>_.
    let op_ids = get_or {||} (mi_topic_ops inner) topic;
        inner = inner\<lparr>mi_epochs := modify_or 0 (\<lambda>e. e + 1) topic (mi_epochs inner),
          mi_topic_ops := fmdrop topic (mi_topic_ops inner)\<rparr> in
    rbind (fold_res (drop_op x) (iter_set op_ids) inner) (\<lambda>inner.
    let inner = inner\<lparr>mi_heads := fmdrop topic (mi_heads inner),
          mi_actor_clock := fmdrop topic (mi_actor_clock inner),
          mi_fingerprint := fmdrop topic (mi_fingerprint inner),
          mi_max_generation := fmdrop topic (mi_max_generation inner),
          mi_topics := fmdrop topic (mi_topics inner),
          mi_actor_by_seq := fmfilter (\<lambda>(t, _, _). t \<noteq> topic) (mi_actor_by_seq inner),
          mi_actor_tip := fmfilter (\<lambda>(t, _). t \<noteq> topic) (mi_actor_tip inner),
          mi_peer_acks := fmfilter (\<lambda>(_, t). t \<noteq> topic) (mi_peer_acks inner),
          mi_obligations := fmfilter (\<lambda>(t, _). t \<noteq> topic) (mi_obligations inner),
          mi_sync_statuses := fmfilter (\<lambda>(t, _). t \<noteq> topic) (mi_sync_statuses inner),
          mi_rejected := fmdrop topic (mi_rejected inner)\<rparr> in
    rbind (fold_res remove_pending_locked (iter_set (get_or {||} (mi_pending_by_topic inner) topic)) inner) (\<lambda>inner.
      Ok (fcard op_ids, inner))))"

definition journal_eviction :: "budget \<Rightarrow> (eviction_key \<times> topic_eviction) option \<Rightarrow> memory_inner \<Rightarrow> memory_inner result" where
  "journal_eviction budget entry inner =
    (case entry of
       None \<Rightarrow> Ok inner
     | Some (key, eviction) \<Rightarrow>
         if \<not> contains_key (mi_evictions inner) key \<and> fcard (fmdom (mi_evictions inner)) \<ge> MAX_PENDING_EVICTIONS
         then Err EvictionJournalFull
         else rbind (budget (EvictionMetadata key)) (\<lambda>_.
           Ok (inner\<lparr>mi_evictions := fmupd key eviction (mi_evictions inner)\<rparr>)))"

definition reset_topic_and_admit ::
  "externals \<Rightarrow> fingerprint \<Rightarrow> budget \<Rightarrow> bool \<Rightarrow> topic_id \<Rightarrow> topic_state \<Rightarrow> admitted_batch \<Rightarrow> topic_eviction option
    \<Rightarrow> memory_inner \<Rightarrow> (nat \<times> memory_inner) result" where
  "reset_topic_and_admit x fingerprint budget in_namespace topic expected batch eviction inner =
    (if in_namespace then Err StaleIncarnation
     else if topic |\<in>| mi_sealed inner then Err TopicSealed
     else if topic_state_locked inner topic \<noteq> Some expected then Err AdmissionConflict
     else rbind (budget RecoveryCopy) (\<lambda>_.
       rbind (reset_topic_locked x budget topic inner) (\<lambda>(removed, staged).
       rbind (admit_batch_locked x fingerprint budget batch None staged) (\<lambda>staged.
       rbind (journal_eviction budget (journalled_eviction (x_blake3 x) eviction) staged) (\<lambda>staged.
         Ok (removed, staged))))))"

section \<open>Acknowledgements\<close>

definition settle_records ::
  "budget \<Rightarrow> memory_inner \<Rightarrow> peer_ack \<Rightarrow> (obligation_kind, sync_obligation) btree_map
    \<Rightarrow> (obligation_kind, sync_obligation option) btree_map result" where
  "settle_records budget inner ack records =
    fold_res (\<lambda>(kind, ob) settled.
      rbind (settled_obligation ob ack (\<lambda>i. Ok (map_option position_of_meta (fmlookup (mi_meta inner) i)))) (\<lambda>rest.
      rbind (case rest of None \<Rightarrow> Ok () | Some ob \<Rightarrow> reserve_obligation budget ob) (\<lambda>_.
        Ok (fmupd kind rest settled)))) (iter_map records) fmempty"

definition store_settled ::
  "topic_id \<times> peer_id \<Rightarrow> obligation_kind \<times> sync_obligation option \<Rightarrow> nat \<times> memory_inner \<Rightarrow> nat \<times> memory_inner" where
  "store_settled key = (\<lambda>(kind, rest) (cleared, inner).
    case rest of
      Some ob \<Rightarrow> (cleared, put_obligation_locked ob inner)
    | None \<Rightarrow> (cleared + 1,
        (case fmlookup (mi_obligations inner) key of
           None \<Rightarrow> inner
         | Some records \<Rightarrow> inner\<lparr>mi_obligations := fmupd key (fmdrop kind records) (mi_obligations inner)\<rparr>)))"

definition drop_empty_records :: "topic_id \<times> peer_id \<Rightarrow> memory_inner \<Rightarrow> memory_inner" where
  "drop_empty_records key inner =
    (if fmlookup (mi_obligations inner) key = Some fmempty
     then inner\<lparr>mi_obligations := fmdrop key (mi_obligations inner)\<rparr> else inner)"

definition effective_ack :: "memory_inner \<Rightarrow> peer_ack \<Rightarrow> peer_ack" where
  "effective_ack inner ack =
    (case fmlookup (mi_peer_acks inner) (ack_peer_id ack, ack_topic_id ack) of
       Some existing \<Rightarrow> if stored_ack_dominates existing ack then existing else merged_peer_ack existing ack
     | None \<Rightarrow> ack)"

definition apply_ack_locked :: "budget \<Rightarrow> peer_ack \<Rightarrow> memory_inner \<Rightarrow> (nat \<times> memory_inner) result" where
  "apply_ack_locked budget ack inner =
    rbind (ack_commit (fmlookup (mi_topics inner) (ack_topic_id ack)) ack) (\<lambda>commit.
    rbind (budget AckWorkspace) (\<lambda>_.
    let effective = effective_ack inner ack; key = (ack_topic_id effective, ack_peer_id effective) in
    rbind (budget AckMetadata) (\<lambda>_.
    rbind (case fmlookup (mi_obligations inner) key of
        Some records \<Rightarrow> if commit \<noteq> Retain then settle_records budget inner effective records else Ok fmempty
      | None \<Rightarrow> Ok fmempty) (\<lambda>settled.
    let (cleared, inner) = fold (store_settled key) (iter_map settled)
          (0, inner\<lparr>mi_peer_acks := fmupd (ack_peer_id ack, ack_topic_id ack) effective (mi_peer_acks inner)\<rparr>)
    in Ok (cleared, drop_empty_records key inner)))))"

text \<open>Each acknowledgement of a group succeeds or fails alone.\<close>

definition apply_peer_acks :: "budget \<Rightarrow> peer_ack list \<Rightarrow> memory_inner \<Rightarrow> nat result list \<times> memory_inner" where
  "apply_peer_acks budget acks inner =
    fold (\<lambda>ack (answers, inner).
      case apply_ack_locked budget ack inner of
        Inl e \<Rightarrow> (answers @ [Err e], inner)
      | Inr (cleared, inner) \<Rightarrow> (answers @ [Ok cleared], inner)) acks ([], inner)"

section \<open>Statuses, seals and the journal\<close>

definition next_attempt_epoch :: "memory_inner \<Rightarrow> (u64 \<times> memory_inner) result" where
  "next_attempt_epoch inner =
    rbind (ok_or (checked_add (mi_attempt_epoch inner) 1) (Storage ''attempt epoch overflow'')) (\<lambda>e.
      Ok (e, inner\<lparr>mi_attempt_epoch := e\<rparr>))"

definition put_sync_status :: "budget \<Rightarrow> sync_peer_status \<Rightarrow> memory_inner \<Rightarrow> memory_inner result" where
  "put_sync_status budget status inner =
    rbind (budget StatusMetadata) (\<lambda>_.
      Ok (inner\<lparr>mi_sync_statuses := fmupd (st_topic_id status, st_peer_id status) status (mi_sync_statuses inner)\<rparr>))"

definition update_sync_status ::
  "budget \<Rightarrow> peer_id \<Rightarrow> topic_id \<Rightarrow> sync_status_update \<Rightarrow> memory_inner \<Rightarrow> (sync_peer_status \<times> memory_inner) result" where
  "update_sync_status budget peer topic update inner =
    rbind (budget StatusWorkspace) (\<lambda>_.
    let (accepted, status) = apply_status_update
      (get_or (new_peer_status peer topic) (mi_sync_statuses inner) (topic, peer)) update in
    if accepted
    then rbind (budget StatusMetadata) (\<lambda>_.
      Ok (status, inner\<lparr>mi_sync_statuses := fmupd (topic, peer) status (mi_sync_statuses inner)\<rparr>))
    else Ok (status, inner))"

definition clear_peer_sync_state :: "peer_id \<Rightarrow> topic_id \<Rightarrow> op_id option \<Rightarrow> memory_inner \<Rightarrow> nat \<times> memory_inner" where
  "clear_peer_sync_state peer topic expected_genesis inner =
    (if \<not> peer_departed (fmlookup (mi_topics inner) topic) peer expected_genesis then (0, inner)
     else (case fmlookup (mi_obligations inner) (topic, peer) of None \<Rightarrow> 0 | Some records \<Rightarrow> fcard (fmdom records),
       forget_peer topic peer inner))"

definition seal_topic :: "budget \<Rightarrow> topic_id \<Rightarrow> memory_inner \<Rightarrow> (bool \<times> memory_inner) result" where
  "seal_topic budget topic inner =
    rbind (budget (TopicMetadata topic)) (\<lambda>_.
      Ok (topic |\<notin>| mi_sealed inner, inner\<lparr>mi_sealed := finsert topic (mi_sealed inner)\<rparr>))"

definition unseal_topic :: "topic_id \<Rightarrow> memory_inner \<Rightarrow> bool \<times> memory_inner" where
  "unseal_topic topic inner = (topic |\<in>| mi_sealed inner, inner\<lparr>mi_sealed := mi_sealed inner |-| {|topic|}\<rparr>)"

definition pending_evictions :: "memory_inner \<Rightarrow> topic_eviction list" where
  "pending_evictions inner = map snd (iter_map (mi_evictions inner))"

definition clear_eviction :: "eviction_key \<Rightarrow> memory_inner \<Rightarrow> memory_inner" where
  "clear_eviction key inner = inner\<lparr>mi_evictions := fmdrop key (mi_evictions inner)\<rparr>"

section \<open>Reads\<close>

definition list_ops :: "memory_inner \<Rightarrow> topic_id \<Rightarrow> operation list" where
  "list_ops inner topic =
    List.map_filter (\<lambda>i. fmlookup (mi_ops inner) i) (iter_set (get_or {||} (mi_topic_ops inner) topic))"

definition sync_obligations :: "memory_inner \<Rightarrow> peer_id \<Rightarrow> topic_id \<Rightarrow> sync_obligation list" where
  "sync_obligations inner peer topic =
    (case fmlookup (mi_obligations inner) (topic, peer) of
       None \<Rightarrow> [] | Some records \<Rightarrow> map snd (iter_map records))"

definition sync_obligation_count :: "memory_inner \<Rightarrow> peer_id \<Rightarrow> topic_id \<Rightarrow> nat" where
  "sync_obligation_count inner peer topic =
    (case fmlookup (mi_obligations inner) (topic, peer) of None \<Rightarrow> 0 | Some records \<Rightarrow> fcard (fmdom records))"

definition has_sync_obligations :: "memory_inner \<Rightarrow> peer_id \<Rightarrow> topic_id \<Rightarrow> bool" where
  "has_sync_obligations inner peer topic =
    (case fmlookup (mi_obligations inner) (topic, peer) of None \<Rightarrow> False | Some records \<Rightarrow> records \<noteq> fmempty)"

definition all_sync_obligations :: "memory_inner \<Rightarrow> sync_obligation list" where
  "all_sync_obligations inner =
    concat (map (\<lambda>(_, records). map snd (iter_map records)) (iter_map (mi_obligations inner)))"

definition topic_obligation_counts :: "memory_inner \<Rightarrow> topic_id \<Rightarrow> (peer_id, nat) btree_map" where
  "topic_obligation_counts inner topic =
    fold (\<lambda>((_, peer), records) counts.
        if records \<noteq> fmempty then fmupd peer (fcard (fmdom records)) counts else counts)
      (filter (\<lambda>((t, _), _). t = topic) (iter_map (mi_obligations inner))) fmempty"

definition peer_acks :: "memory_inner \<Rightarrow> topic_id \<Rightarrow> peer_ack list" where
  "peer_acks inner topic = filter (\<lambda>ack. ack_topic_id ack = topic) (map snd (iter_map (mi_peer_acks inner)))"

definition sync_statuses :: "memory_inner \<Rightarrow> topic_id \<Rightarrow> sync_peer_status list" where
  "sync_statuses inner topic =
    filter (\<lambda>status. st_topic_id status = topic) (map snd (iter_map (mi_sync_statuses inner)))"

definition stored_bytes :: "memory_inner \<Rightarrow> u64" where
  "stored_bytes inner = mi_admitted_bytes inner + u_bytes (mi_pending_usage inner)"

end
