(* ===== verification/Memory_Index.thy ===== *)
theory Memory_Index
  imports Memory_Writes
begin

text \<open>
  What the indexes of the in-memory store say of its metadata records, as predicates on the maps
  alone, and how appending one operation or dropping one topic keeps each of them.
\<close>

section \<open>Invariants of the indexes\<close>

type_synonym metas = "(op_id, op_meta) btree_map"

definition seq_slot :: "op_meta \<Rightarrow> topic_id \<times> actor_id \<times> u64" where
  "seq_slot m = (m_topic_id m, m_actor_id m, m_actor_seq m)"

definition actor_of :: "op_meta \<Rightarrow> topic_id \<times> actor_id" where
  "actor_of m = (m_topic_id m, m_actor_id m)"

definition with_meta :: "metas \<Rightarrow> (op_meta \<Rightarrow> bool) \<Rightarrow> op_id set" where
  "with_meta metas P = {i. \<exists>m. fmlookup metas i = Some m \<and> P m}"

text \<open>Operation and metadata records come in pairs and agree.\<close>

definition paired :: "(op_id, operation) btree_map \<Rightarrow> metas \<Rightarrow> bool" where
  "paired ops metas \<longleftrightarrow> fmdom ops = fmdom metas \<and>
    (\<forall>i op m. fmlookup ops i = Some op \<longrightarrow> fmlookup metas i = Some m \<longrightarrow>
      o_id op = i \<and> b_topic_id (body op) = m_topic_id m \<and> meta_matches op m)"

definition topics_indexed :: "metas \<Rightarrow> (topic_id, op_id btree_set) btree_map \<Rightarrow> bool" where
  "topics_indexed metas topic_ops \<longleftrightarrow> index_ok topic_ops (\<lambda>t. with_meta metas (\<lambda>m. m_topic_id m = t))"

definition children_indexed :: "metas \<Rightarrow> (op_id, op_id btree_set) btree_map \<Rightarrow> bool" where
  "children_indexed metas children \<longleftrightarrow> index_ok children (\<lambda>d. with_meta metas (\<lambda>m. d |\<in>| m_deps m))"

definition slots_indexed :: "metas \<Rightarrow> (topic_id \<times> actor_id \<times> u64, op_id) btree_map \<Rightarrow> bool" where
  "slots_indexed metas by_seq \<longleftrightarrow>
    (\<forall>k i. fmlookup by_seq k = Some i \<longleftrightarrow> (\<exists>m. fmlookup metas i = Some m \<and> seq_slot m = k))"

text \<open>An actor's operations fill the sequence numbers from one to its tip.\<close>

definition chain_at :: "(topic_id \<times> actor_id \<times> u64, op_id) btree_map \<Rightarrow> tips \<Rightarrow> topic_id \<Rightarrow> actor_id \<Rightarrow> bool" where
  "chain_at by_seq tips t a \<longleftrightarrow>
    (case fmlookup tips (t, a) of
       None \<Rightarrow> \<forall>s. fmlookup by_seq (t, a, s) = None
     | Some (n, i) \<Rightarrow> fmlookup by_seq (t, a, n) = Some i \<and>
         (\<forall>s. fmlookup by_seq (t, a, s) \<noteq> None \<longleftrightarrow> 1 \<le> s \<and> s \<le> n))"

definition linked :: "(topic_id \<times> actor_id \<times> u64, op_id) btree_map \<Rightarrow> op_meta \<Rightarrow> bool" where
  "linked by_seq m \<longleftrightarrow>
    (if m_actor_seq m = 1 then m_actor_prev m = None
     else m_actor_prev m \<noteq> None \<and> m_actor_prev m = fmlookup by_seq (m_topic_id m, m_actor_id m, m_actor_seq m - 1))"

definition chained :: "metas \<Rightarrow> (topic_id \<times> actor_id \<times> u64, op_id) btree_map \<Rightarrow> tips \<Rightarrow> bool" where
  "chained metas by_seq tips \<longleftrightarrow>
    (\<forall>t a. chain_at by_seq tips t a) \<and> (\<forall>i m. fmlookup metas i = Some m \<longrightarrow> linked by_seq m)"

definition generations_ok :: "metas \<Rightarrow> (topic_id, u64) btree_map \<Rightarrow> bool" where
  "generations_ok metas gens \<longleftrightarrow>
    (\<forall>i m. fmlookup metas i = Some m \<longrightarrow> (\<exists>g. fmlookup gens (m_topic_id m) = Some g \<and> m_generation m \<le> g)) \<and>
    (\<forall>t g. fmlookup gens t = Some g \<longrightarrow> (\<exists>i m. fmlookup metas i = Some m \<and> m_topic_id m = t \<and> m_generation m = g))"

definition tip_seq :: "tips \<Rightarrow> topic_id \<times> actor_id \<Rightarrow> u64" where
  "tip_seq tips k = (case fmlookup tips k of None \<Rightarrow> 0 | Some (n, _) \<Rightarrow> n)"

definition clock_at :: "tips \<Rightarrow> topic_id \<Rightarrow> actor_clock \<Rightarrow> bool" where
  "clock_at tips t c \<longleftrightarrow> (\<forall>a. clock_get c a = tip_seq tips (t, a))"

text \<open>Dependencies are stored, in the topic of what depends on them.\<close>

definition deps_closed :: "metas \<Rightarrow> bool" where
  "deps_closed metas \<longleftrightarrow> (\<forall>i m d. fmlookup metas i = Some m \<longrightarrow> d |\<in>| m_deps m \<longrightarrow>
    (\<exists>n. fmlookup metas d = Some n \<and> m_topic_id n = m_topic_id m))"

lemma deps_closedD:
  assumes "deps_closed metas" "fmlookup metas i = Some m" "d |\<in>| m_deps m"
  obtains n where "fmlookup metas d = Some n" "m_topic_id n = m_topic_id m"
  using assms unfolding deps_closed_def by blast

text \<open>The frontier of a topic: its operations that nothing stored depends on.\<close>

definition frontier_of :: "metas \<Rightarrow> topic_id \<Rightarrow> op_id set" where
  "frontier_of metas t =
    {i \<in> with_meta metas (\<lambda>m. m_topic_id m = t). \<forall>j m. fmlookup metas j = Some m \<longrightarrow> i |\<notin>| m_deps m}"

section \<open>Appending one operation\<close>

lemma with_meta_fmupd:
  "fmlookup metas i = None \<Longrightarrow> with_meta (fmupd i m metas) P = (if P m then insert i (with_meta metas P) else with_meta metas P)"
  by (auto simp: with_meta_def)

lemma with_meta_fmfilter: "with_meta (fmfilter Q metas) P = {i \<in> with_meta metas P. Q i}"
  by (auto simp: with_meta_def split: if_splits)

lemma paired_None: "paired ops metas \<Longrightarrow> fmlookup ops i = None \<longleftrightarrow> fmlookup metas i = None"
  unfolding paired_def by (metis fmdom_notD fmdom_notI)

lemma paired_add:
  assumes "paired ops metas" "o_id op = i" "b_topic_id (body op) = m_topic_id m" "meta_matches op m"
  shows "paired (fmupd i op ops) (fmupd i m metas)"
  using assms by (auto simp: paired_def)

lemma topics_indexed_add:
  assumes "topics_indexed metas topic_ops" "fmlookup metas i = None"
  shows "topics_indexed (fmupd i m metas) (add_member (m_topic_id m) i topic_ops)"
  unfolding topics_indexed_def
  by (rule index_cong[OF index_add[OF assms(1)[unfolded topics_indexed_def]]]) (simp add: with_meta_fmupd[OF assms(2)])

lemma children_indexed_add:
  assumes "children_indexed metas children" "fmlookup metas i = None"
  shows "children_indexed (fmupd i m metas) (fold (\<lambda>d. add_member d i) (iter_set (m_deps m)) children)"
  unfolding children_indexed_def
  by (rule index_cong[OF index_fold_add[OF assms(1)[unfolded children_indexed_def]]]) (simp add: with_meta_fmupd[OF assms(2)])

lemma slots_indexed_add:
  assumes s: "slots_indexed metas by_seq" and i: "fmlookup metas i = None" and free: "fmlookup by_seq (seq_slot m) = None"
  shows "slots_indexed (fmupd i m metas) (fmupd (seq_slot m) i by_seq)"
  unfolding slots_indexed_def
proof (intro allI)
  fix k j
  have "fmlookup by_seq k = Some j \<longleftrightarrow> (\<exists>n. fmlookup metas j = Some n \<and> seq_slot n = k)" for k j
    using s unfolding slots_indexed_def by blast
  moreover have "seq_slot n \<noteq> seq_slot m" if "fmlookup metas j = Some n" for j n
    using s that free unfolding slots_indexed_def by (metis option.distinct(1))
  ultimately show "fmlookup (fmupd (seq_slot m) i by_seq) k = Some j \<longleftrightarrow> (\<exists>n. fmlookup (fmupd i m metas) j = Some n \<and> seq_slot n = k)"
    using i by auto
qed

lemma check_append_Ok:
  "check_append tip m = Ok () \<longleftrightarrow>
    (case tip of
       None \<Rightarrow> m_actor_seq m = 1 \<and> m_actor_prev m = None
     | Some (n, i) \<Rightarrow> unat n + 1 < 2 ^ 64 \<and> m_actor_seq m = n + 1 \<and> m_actor_prev m = Some i)"
  by (cases tip) (auto simp: check_append_def checked_add_def ok_or_def split: option.splits if_splits)

lemma unat_Suc: "unat n + 1 < 2 ^ 64 \<Longrightarrow> unat (n + 1 :: u64) = unat n + 1"
  by (subst unat_add_no_overflow) simp_all

lemma append_free:
  assumes "chained metas by_seq tips" "check_append (fmlookup tips (actor_of m)) m = Ok ()"
  shows "fmlookup by_seq (seq_slot m) = None"
proof -
  have c: "chain_at by_seq tips (m_topic_id m) (m_actor_id m)" using assms(1) by (simp add: chained_def)
  show ?thesis
  proof (cases "fmlookup tips (actor_of m)")
    case None
    then show ?thesis using c by (simp add: chain_at_def seq_slot_def actor_of_def)
  next
    case (Some tip)
    obtain n j where tip: "tip = (n, j)" by (cases tip)
    then have b: "unat n + 1 < 2 ^ 64" "m_actor_seq m = n + 1" using assms(2) Some by (simp_all add: check_append_Ok)
    have "\<not> n + 1 \<le> n" using unat_Suc[OF b(1)] by (simp add: word_le_nat_alt)
    then show ?thesis using c Some tip b(2) by (auto simp: chain_at_def seq_slot_def actor_of_def)
  qed
qed

lemma raise_tip_append:
  assumes "check_append (fmlookup tips (actor_of m)) m = Ok ()"
  shows "raise_tip (actor_of m) (m_actor_seq m, i) tips = fmupd (actor_of m) (m_actor_seq m, i) tips"
proof (cases "fmlookup tips (actor_of m)")
  case (Some tip)
  obtain n j where tip: "tip = (n, j)" by (cases tip)
  have b: "unat n + 1 < 2 ^ 64" "m_actor_seq m = n + 1" using assms Some tip by (simp_all add: check_append_Ok)
  then have "n < m_actor_seq m" using unat_Suc[OF b(1)] by (simp add: word_less_nat_alt)
  then show ?thesis using Some tip by (simp add: raise_tip_def)
qed (simp add: raise_tip_def)

lemma u64_le_Suc: "unat n + 1 < 2 ^ 64 \<Longrightarrow> s \<le> n + 1 \<longleftrightarrow> s \<le> n \<or> s = n + 1" for n s :: u64
  using unat_Suc[of n] by (auto simp: word_le_nat_alt word_unat_eq_iff)

lemma chain_at_append:
  assumes c: "chain_at by_seq tips (m_topic_id m) (m_actor_id m)" and a: "check_append (fmlookup tips (actor_of m)) m = Ok ()"
  shows "chain_at (fmupd (seq_slot m) i by_seq) (fmupd (actor_of m) (m_actor_seq m, i) tips) (m_topic_id m) (m_actor_id m)"
proof (cases "fmlookup tips (actor_of m)")
  case None
  then have "m_actor_seq m = 1" "\<And>s. fmlookup by_seq (m_topic_id m, m_actor_id m, s) = None"
    using a c by (simp_all add: check_append_Ok chain_at_def actor_of_def)
  moreover have "s \<noteq> 1 \<Longrightarrow> \<not> (1 \<le> s \<and> s \<le> 1)" for s :: u64 by (simp add: antisym_conv)
  ultimately show ?thesis by (auto simp: chain_at_def seq_slot_def actor_of_def)
next
  case (Some tip)
  obtain n j where tip: "tip = (n, j)" by (cases tip)
  have b: "unat n + 1 < 2 ^ 64" "m_actor_seq m = n + 1" using a Some tip by (simp_all add: check_append_Ok)
  have old: "fmlookup by_seq (m_topic_id m, m_actor_id m, s) \<noteq> None \<longleftrightarrow> 1 \<le> s \<and> s \<le> n" for s
    using c Some tip by (simp add: chain_at_def actor_of_def)
  have one: "1 \<le> n + 1" using unat_Suc[OF b(1)] by (simp add: word_le_nat_alt)
  have "fmlookup (fmupd (seq_slot m) i by_seq) (m_topic_id m, m_actor_id m, s) \<noteq> None \<longleftrightarrow> 1 \<le> s \<and> s \<le> n + 1" for s
  proof (cases "s = n + 1")
    case True
    then show ?thesis using one b(2) by (simp only: seq_slot_def fmupd_lookup) simp
  next
    case False
    then show ?thesis using old[of s] b(2) unfolding u64_le_Suc[OF b(1)] by (simp add: seq_slot_def)
  qed
  then show ?thesis using b(2) by (simp add: chain_at_def seq_slot_def actor_of_def)
qed

lemma linked_append:
  assumes c: "chain_at by_seq tips (m_topic_id m) (m_actor_id m)" and a: "check_append (fmlookup tips (actor_of m)) m = Ok ()"
  shows "linked (fmupd (seq_slot m) i by_seq) m"
proof (cases "fmlookup tips (actor_of m)")
  case (Some tip)
  obtain n j where tip: "tip = (n, j)" by (cases tip)
  have b: "unat n + 1 < 2 ^ 64" "m_actor_seq m = n + 1" "m_actor_prev m = Some j" using a Some tip by (simp_all add: check_append_Ok)
  have n: "fmlookup by_seq (m_topic_id m, m_actor_id m, n) = Some j" "1 \<le> n"
    using c Some tip by (auto simp: chain_at_def actor_of_def)
  have "n + 1 \<noteq> 1" using n(2) by auto
  moreover have "n \<noteq> n + 1" by simp
  ultimately show ?thesis using b n by (simp add: linked_def seq_slot_def)
qed (use a in \<open>simp add: check_append_Ok linked_def\<close>)

lemma chained_append:
  assumes c: "chained metas by_seq tips" and a: "check_append (fmlookup tips (actor_of m)) m = Ok ()"
  shows "chained (fmupd i m metas) (fmupd (seq_slot m) i by_seq) (fmupd (actor_of m) (m_actor_seq m, i) tips)"
proof -
  note free = append_free[OF c a]
  have at: "chain_at by_seq tips t x" for t x using c by (simp add: chained_def)
  have "chain_at (fmupd (seq_slot m) i by_seq) (fmupd (actor_of m) (m_actor_seq m, i) tips) t x" for t x
  proof (cases "(t, x) = actor_of m")
    case True
    then show ?thesis using chain_at_append[OF at a] by (simp add: actor_of_def)
  next
    case False
    then show ?thesis using at[of t x] by (auto simp: chain_at_def actor_of_def seq_slot_def split: option.splits)
  qed
  moreover have "linked (fmupd (seq_slot m) i by_seq) n" if "fmlookup metas j = Some n" for j n
  proof -
    have l: "linked by_seq n" using c that by (auto simp: chained_def)
    show ?thesis
    proof (cases "m_actor_seq n = 1")
      case False
      then have "(m_topic_id n, m_actor_id n, m_actor_seq n - 1) \<noteq> seq_slot m" using l free by (auto simp: linked_def)
      then show ?thesis using l False unfolding linked_def by (metis fmupd_lookup)
    qed (use l in \<open>simp add: linked_def\<close>)
  qed
  ultimately show ?thesis using linked_append[OF at a] by (auto simp: chained_def)
qed

lemma generations_add:
  assumes g: "generations_ok metas gens" and i: "fmlookup metas i = None"
  shows "generations_ok (fmupd i m metas) (raise_generation (m_topic_id m) (m_generation m) gens)"
  unfolding generations_ok_def
proof (intro conjI allI impI)
  fix j n assume n: "fmlookup (fmupd i m metas) j = Some n"
  show "\<exists>g. fmlookup (raise_generation (m_topic_id m) (m_generation m) gens) (m_topic_id n) = Some g \<and> m_generation n \<le> g"
  proof (cases "j = i")
    case True
    then show ?thesis using n by (simp add: raise_generation_def)
  next
    case False
    then obtain h where "fmlookup gens (m_topic_id n) = Some h" "m_generation n \<le> h"
      using g n unfolding generations_ok_def by (metis fmupd_lookup)
    then show ?thesis by (auto simp: raise_generation_def get_or_def max_def)
  qed
next
  fix t h assume h: "fmlookup (raise_generation (m_topic_id m) (m_generation m) gens) t = Some h"
  show "\<exists>j n. fmlookup (fmupd i m metas) j = Some n \<and> m_topic_id n = t \<and> m_generation n = h"
  proof (cases "t = m_topic_id m \<and> h = m_generation m")
    case True
    then show ?thesis by (intro exI[of _ i] exI[of _ m]) simp
  next
    case False
    then have "fmlookup gens t = Some h"
      using h by (cases "fmlookup gens t") (auto simp: raise_generation_def get_or_def max_def split: if_splits)
    then obtain j n where "fmlookup metas j = Some n" "m_topic_id n = t" "m_generation n = h"
      using g unfolding generations_ok_def by blast
    then show ?thesis using i by (intro exI[of _ j] exI[of _ n]) auto
  qed
qed

lemma clock_at_append:
  assumes "clock_at tips t c" "check_append (fmlookup tips (actor_of m)) m = Ok ()" "m_topic_id m = t"
  shows "clock_at (fmupd (actor_of m) (m_actor_seq m, i) tips) t (clock_observe c (m_actor_id m) (m_actor_seq m))"
proof -
  have "tip_seq tips (actor_of m) \<le> m_actor_seq m"
  proof (cases "fmlookup tips (actor_of m)")
    case (Some tip)
    obtain n j where tip: "tip = (n, j)" by (cases tip)
    then have b: "unat n + 1 < 2 ^ 64" "m_actor_seq m = n + 1" using assms(2) Some by (simp_all add: check_append_Ok)
    then show ?thesis using unat_Suc[OF b(1)] Some tip by (simp add: tip_seq_def word_le_nat_alt)
  qed (simp add: tip_seq_def)
  then show ?thesis using assms(1,3) by (auto simp: clock_at_def tip_seq_def actor_of_def max_def)
qed

section \<open>Dropping a topic\<close>

text \<open>What is left when every operation of a topic goes.\<close>

definition other_topics :: "topic_id \<Rightarrow> metas \<Rightarrow> metas" where
  "other_topics t metas = fmfilter (\<lambda>i. i \<notin> with_meta metas (\<lambda>m. m_topic_id m = t)) metas"

lemma other_topics_iff: "fmlookup (other_topics t metas) i = Some m \<longleftrightarrow> fmlookup metas i = Some m \<and> m_topic_id m \<noteq> t"
  by (auto simp: other_topics_def with_meta_def)

lemma topics_indexed_reset:
  assumes "topics_indexed metas topic_ops"
  shows "topics_indexed (other_topics t metas) (fmdrop t topic_ops)"
  unfolding topics_indexed_def
  by (rule index_cong[OF index_drop_key[OF assms[unfolded topics_indexed_def]]]) (auto simp: with_meta_def other_topics_iff)

lemma slots_indexed_reset:
  assumes "slots_indexed metas by_seq"
  shows "slots_indexed (other_topics t metas) (fmfilter (\<lambda>(u, _, _). u \<noteq> t) by_seq)"
  unfolding slots_indexed_def other_topics_iff
  using assms unfolding slots_indexed_def by (fastforce simp: seq_slot_def split: if_splits)

lemma chained_reset:
  assumes "chained metas by_seq tips"
  shows "chained (other_topics t metas) (fmfilter (\<lambda>(u, _, _). u \<noteq> t) by_seq) (fmfilter (\<lambda>(u, _). u \<noteq> t) tips)"
proof -
  have "chain_at (fmfilter (\<lambda>(u, _, _). u \<noteq> t) by_seq) (fmfilter (\<lambda>(u, _). u \<noteq> t) tips) u a" for u a
  proof (cases "u = t")
    case False
    have "chain_at by_seq tips u a" using assms by (simp add: chained_def)
    then show ?thesis using False by (auto simp: chain_at_def split: option.splits)
  qed (simp add: chain_at_def)
  moreover have "linked (fmfilter (\<lambda>(u, _, _). u \<noteq> t) by_seq) m" if "fmlookup (other_topics t metas) i = Some m" for i m
    using assms that by (auto simp: chained_def linked_def other_topics_iff split: if_splits)
  ultimately show ?thesis by (simp add: chained_def)
qed

lemma generations_reset:
  assumes "generations_ok metas gens"
  shows "generations_ok (other_topics t metas) (fmdrop t gens)"
  unfolding generations_ok_def other_topics_iff
  using assms unfolding generations_ok_def by (auto simp: fmlookup_drop) metis+

lemma deps_closed_reset: "deps_closed metas \<Longrightarrow> deps_closed (other_topics t metas)"
  unfolding deps_closed_def other_topics_iff by metis

lemma frontier_reset:
  assumes "deps_closed metas"
  shows "frontier_of (other_topics t metas) u = (if u = t then {} else frontier_of metas u)"
proof (cases "u = t")
  case True
  then show ?thesis by (auto simp: frontier_of_def with_meta_def other_topics_iff)
next
  case False
  have "m_topic_id n = m_topic_id m" if "fmlookup metas j = Some m" "i |\<in>| m_deps m" "fmlookup metas i = Some n" for i j m n
    using assms that unfolding deps_closed_def by force
  then show ?thesis using False unfolding frontier_of_def with_meta_def other_topics_iff by fastforce
qed

end
