(* ===== verification/Pending_Buffering.thy ===== *)
theory Pending_Buffering
  imports Memory_Pending
begin

text \<open>
  Buffering an operation keeps the pool: \<open>put_pending_bound\<close> leaves the indexes and counters exact and
  every limit respected, and changes nothing but the pool.
\<close>

section \<open>Buffering\<close>

lemma check_waiters_Ok:
  "check_waiters inner previous missing = Ok () \<longleftrightarrow>
    (\<forall>d. d |\<in>| missing \<longrightarrow> (\<exists>old. previous = Some old \<and> d |\<in>| old) \<or>
      fcard (get_or {||} (mi_pending_waiters inner) d) < MAX_PENDING_WAITERS_PER_DEP)"
  unfolding check_waiters_def fold_res_check_Ok
  by (auto simp: not_le split: if_splits option.splits)

lemma move_waits_waiters:
  "mi_pending_waiters (move_waits i old missing inner) =
    fold (\<lambda>dep. add_member dep i) (iter_set missing)
      (fold (\<lambda>dep. drop_member dep i) (iter_set (old |-| missing)) (mi_pending_waiters inner))"
  by (simp add: move_waits_def unwait_fold Let_def)

lemma move_waits_pool:
  assumes ok: "pool_ok inner" and old: "\<And>r. fmlookup (mi_pending_records inner) i = Some r \<Longrightarrow> pr_missing r = old"
    and new: "fmlookup (mi_pending_records inner) i = None \<Longrightarrow> old = {||}"
  shows "index_ok (mi_pending_waiters (move_waits i old missing inner))
      (\<lambda>d. if d |\<in>| missing then insert i (held (mi_pending_records inner) (\<lambda>r. d |\<in>| pr_missing r))
        else held (mi_pending_records inner) (\<lambda>r. d |\<in>| pr_missing r) - {i})"
    and "fset (mi_pending_ready (move_waits i old missing inner)) =
      (if missing = {||} then insert i (held (mi_pending_records inner) (\<lambda>r. pr_missing r = {||}))
       else held (mi_pending_records inner) (\<lambda>r. pr_missing r = {||}) - {i})"
    and "(move_waits i old missing inner)\<lparr>mi_pending_waiters := mi_pending_waiters inner, mi_pending_ready := mi_pending_ready inner\<rparr> = inner"
proof -
  let ?recs = "mi_pending_records inner"
  have "index_ok (fold (\<lambda>dep. drop_member dep i) (iter_set (old |-| missing)) (mi_pending_waiters inner))
      (\<lambda>d. if d |\<in>| old |-| missing then held ?recs (\<lambda>r. d |\<in>| pr_missing r) - {i}
        else held ?recs (\<lambda>r. d |\<in>| pr_missing r))"
    using index_fold_drop[OF pool_okD(5)[OF ok], of i "iter_set (old |-| missing)"] by (simp only: set_iter_set)
  from index_fold_add[OF this, of i "iter_set missing"]
  have "index_ok (mi_pending_waiters (move_waits i old missing inner))
      (\<lambda>d. if d |\<in>| missing then insert i (if d |\<in>| old |-| missing then held ?recs (\<lambda>r. d |\<in>| pr_missing r) - {i}
          else held ?recs (\<lambda>r. d |\<in>| pr_missing r))
        else if d |\<in>| old |-| missing then held ?recs (\<lambda>r. d |\<in>| pr_missing r) - {i}
          else held ?recs (\<lambda>r. d |\<in>| pr_missing r))"
    by (simp only: move_waits_waiters set_iter_set)
  then show "index_ok (mi_pending_waiters (move_waits i old missing inner))
      (\<lambda>d. if d |\<in>| missing then insert i (held ?recs (\<lambda>r. d |\<in>| pr_missing r))
        else held ?recs (\<lambda>r. d |\<in>| pr_missing r) - {i})"
  proof (rule index_cong)
    fix d
    have "i \<notin> held ?recs (\<lambda>r. d |\<in>| pr_missing r)" if "d |\<notin>| old"
      using that old new by (auto simp: held_def)
    then show "(if d |\<in>| missing then insert i (if d |\<in>| old |-| missing then held ?recs (\<lambda>r. d |\<in>| pr_missing r) - {i}
          else held ?recs (\<lambda>r. d |\<in>| pr_missing r))
        else if d |\<in>| old |-| missing then held ?recs (\<lambda>r. d |\<in>| pr_missing r) - {i}
          else held ?recs (\<lambda>r. d |\<in>| pr_missing r)) =
      (if d |\<in>| missing then insert i (held ?recs (\<lambda>r. d |\<in>| pr_missing r))
        else held ?recs (\<lambda>r. d |\<in>| pr_missing r) - {i})"
      by auto
  qed
  show "fset (mi_pending_ready (move_waits i old missing inner)) =
      (if missing = {||} then insert i (held ?recs (\<lambda>r. pr_missing r = {||}))
       else held ?recs (\<lambda>r. pr_missing r = {||}) - {i})"
    using pool_okD(6)[OF ok] by (simp add: move_waits_def unwait_fold Let_def)
  show "(move_waits i old missing inner)\<lparr>mi_pending_waiters := mi_pending_waiters inner, mi_pending_ready := mi_pending_ready inner\<rparr> = inner"
    by (simp add: move_waits_def unwait_fold Let_def)
qed

lemma waits_after:
  "(\<lambda>d. if d |\<in>| missing then insert i (held recs (\<lambda>r. d |\<in>| pr_missing r)) else held recs (\<lambda>r. d |\<in>| pr_missing r) - {i}) =
    (\<lambda>d. held (fmupd i (r\<lparr>pr_missing := missing\<rparr>) recs) (\<lambda>r. d |\<in>| pr_missing r))"
  by (auto simp: held_fmupd)

lemma waiter_limit:
  assumes ok: "pool_ok inner" and w: "recs_within (mi_pending_records inner)"
    and c: "check_waiters inner previous missing = Ok ()"
    and prev: "\<And>old. previous = Some old \<Longrightarrow> \<exists>r. fmlookup (mi_pending_records inner) i = Some r \<and> pr_missing r = old"
  shows "card (held (fmupd i (r\<lparr>pr_missing := missing\<rparr>) (mi_pending_records inner)) (\<lambda>r. d |\<in>| pr_missing r)) \<le> MAX_PENDING_WAITERS_PER_DEP"
proof -
  let ?S = "held (mi_pending_records inner) (\<lambda>r. d |\<in>| pr_missing r)"
  have S: "fcard (get_or {||} (mi_pending_waiters inner) d) = card ?S"
    using index_get[OF pool_okD(5)[OF ok], of d] by (simp add: fcard.rep_eq)
  show ?thesis
  proof (cases "d |\<in>| missing \<and> i \<notin> ?S")
    case True
    then have "card ?S < MAX_PENDING_WAITERS_PER_DEP"
      using c prev S unfolding check_waiters_Ok by (fastforce simp: held_def)
    then show ?thesis using True by (simp add: held_fmupd card_insert_if)
  next
    case False
    have "held (fmupd i (r\<lparr>pr_missing := missing\<rparr>) (mi_pending_records inner)) (\<lambda>r. d |\<in>| pr_missing r) \<subseteq> ?S"
      using False by (auto simp: held_fmupd)
    then have "card (held (fmupd i (r\<lparr>pr_missing := missing\<rparr>) (mi_pending_records inner)) (\<lambda>r. d |\<in>| pr_missing r)) \<le> card ?S"
      by (rule card_mono[OF finite_held])
    then show ?thesis using recs_withinD(7)[OF w, of d] by simp
  qed
qed

lemma rewait_pool:
  assumes ok: "pool_ok inner" and r: "fmlookup (mi_pending_records inner) i = Some r"
    and inner': "inner' = move_waits i (pr_missing r) missing inner"
  shows "pool_ok (inner'\<lparr>mi_pending_records := fmupd i (r\<lparr>pr_missing := missing\<rparr>) (mi_pending_records inner')\<rparr>)"
    and "mi_pending_records inner' = mi_pending_records inner" "outside_pool inner' = outside_pool inner"
proof -
  let ?recs = "mi_pending_records inner" and ?recs' = "fmupd i (r\<lparr>pr_missing := missing\<rparr>) (mi_pending_records inner)"
  note m = move_waits_pool[of inner i "pr_missing r" missing, OF ok, folded inner']
  have frame: "inner'\<lparr>mi_pending_waiters := mi_pending_waiters inner, mi_pending_ready := mi_pending_ready inner\<rparr> = inner"
    using m(3) r by simp
  have rest: "mi_pending_records inner' = ?recs" "mi_pending_ops inner' = mi_pending_ops inner"
    "mi_pending_by_topic inner' = mi_pending_by_topic inner" "mi_pending_usage inner' = mi_pending_usage inner"
    "mi_source_usage inner' = mi_source_usage inner" "mi_topic_usage inner' = mi_topic_usage inner"
    using arg_cong[OF frame, of mi_pending_records] arg_cong[OF frame, of mi_pending_ops]
      arg_cong[OF frame, of mi_pending_by_topic] arg_cong[OF frame, of mi_pending_usage]
      arg_cong[OF frame, of mi_source_usage] arg_cong[OF frame, of mi_topic_usage] by simp_all
  then show "mi_pending_records inner' = ?recs" by simp
  show "outside_pool inner' = outside_pool inner" using arg_cong[OF frame, of outside_pool] by (simp add: outside_pool_def)
  have same: "held ?recs' P = held ?recs P" if "P (r\<lparr>pr_missing := missing\<rparr>) = P r" for P
    using r that by (auto simp: held_def)
  have usage: "usage_is u ?recs' S \<longleftrightarrow> usage_is u ?recs S" for u S
  proof -
    have "bytes_in ?recs' S = bytes_in ?recs S" unfolding bytes_in_def by (rule sum.cong) (auto simp: r)
    then show ?thesis by (simp add: usage_is_def)
  qed
  have wait: "index_ok (mi_pending_waiters inner') (\<lambda>d. held ?recs' (\<lambda>r. d |\<in>| pr_missing r))"
    using m(1) r waits_after[of missing i ?recs r] by simp
  have ready: "fset (mi_pending_ready inner') = held ?recs' (\<lambda>r. pr_missing r = {||})"
    using m(2) r by (auto simp: held_fmupd)
  show "pool_ok (inner'\<lparr>mi_pending_records := fmupd i (r\<lparr>pr_missing := missing\<rparr>) (mi_pending_records inner')\<rparr>)"
    unfolding pool_ok_def Let_def
    using pool_okD[OF ok] wait ready r
    by (auto simp: rest same usage usages_are_def fmdom_fmupd fmdomI finsert_absorb)
qed

lemma quota_room:
  assumes u: "usage_is u recs S" and b: "bytes_in recs S \<le> B" and c: "unat c < 2 ^ 63"
    and "\<not> of_nat N \<le> u_ops u" "\<not> of_nat B < u_bytes u + c" "N < 2 ^ 62" "B < 2 ^ 62"
  shows "card S < N" "bytes_in recs S + unat c \<le> B"
proof -
  have n: "unat (of_nat N :: u64) = N" and b': "unat (of_nat B :: u64) = B"
    using assms(6,7) by (simp_all add: unat_of_nat take_bit_nat_eq_self)
  show "card S < N" using u assms(4) n by (simp add: usage_is_def word_le_nat_alt)
  have "unat (u_bytes u + c) = bytes_in recs S + unat c"
    using u b c assms(7) by (subst unat_add_no_overflow) (simp_all add: usage_is_def)
  then show "bytes_in recs S + unat c \<le> B" using assms(5) b' by (simp add: word_less_nat_alt)
qed

lemmas pending_limits = MAX_PENDING_OPS_TOTAL_def MAX_PENDING_BYTES_TOTAL_def MAX_PENDING_OPS_PER_SOURCE_def
  MAX_PENDING_BYTES_PER_SOURCE_def MAX_PENDING_OPS_PER_TOPIC_def MAX_PENDING_BYTES_PER_TOPIC_def

lemma usages_get:
  assumes "usages_are m recs key"
  shows "usage_is (get_or no_usage m k) recs (held recs (\<lambda>r. key r = k))"
  using assms by (cases "fmlookup m k") (auto simp: usages_are_def get_or_def usage_is_no_usage)

lemma quota_rooms:
  assumes ok: "pool_ok inner" and w: "recs_within (mi_pending_records inner)" and c: "unat c < 2 ^ 63"
    and q: "check_pending_quota (mi_pending_usage inner) (get_or no_usage (mi_source_usage inner) s)
      (get_or no_usage (mi_topic_usage inner) t) c = Ok ()"
  defines "recs \<equiv> mi_pending_records inner"
  shows "card (held recs (\<lambda>_. True)) < MAX_PENDING_OPS_TOTAL"
    "bytes_in recs (held recs (\<lambda>_. True)) + unat c \<le> MAX_PENDING_BYTES_TOTAL"
    "card (held recs (\<lambda>r. pr_source r = s)) < MAX_PENDING_OPS_PER_SOURCE"
    "bytes_in recs (held recs (\<lambda>r. pr_source r = s)) + unat c \<le> MAX_PENDING_BYTES_PER_SOURCE"
    "card (held recs (\<lambda>r. pr_topic_id r = t)) < MAX_PENDING_OPS_PER_TOPIC"
    "bytes_in recs (held recs (\<lambda>r. pr_topic_id r = t)) + unat c \<le> MAX_PENDING_BYTES_PER_TOPIC"
proof -
  have n: "\<not> of_nat MAX_PENDING_OPS_TOTAL \<le> u_ops (mi_pending_usage inner)"
    "\<not> of_nat MAX_PENDING_BYTES_TOTAL < u_bytes (mi_pending_usage inner) + c"
    "\<not> of_nat MAX_PENDING_OPS_PER_SOURCE \<le> u_ops (get_or no_usage (mi_source_usage inner) s)"
    "\<not> of_nat MAX_PENDING_BYTES_PER_SOURCE < u_bytes (get_or no_usage (mi_source_usage inner) s) + c"
    "\<not> of_nat MAX_PENDING_OPS_PER_TOPIC \<le> u_ops (get_or no_usage (mi_topic_usage inner) t)"
    "\<not> of_nat MAX_PENDING_BYTES_PER_TOPIC < u_bytes (get_or no_usage (mi_topic_usage inner) t) + c"
    using q by (auto simp: check_pending_quota_def split: if_splits)
  note l = recs_withinD[OF w, folded recs_def]
  note all = quota_room[OF pool_okD(7)[OF ok, folded recs_def] l(2) c n(1,2)]
  note src = quota_room[OF usages_get[OF pool_okD(8)[OF ok, folded recs_def], of s] l(4) c n(3,4)]
  note top = quota_room[OF usages_get[OF pool_okD(9)[OF ok, folded recs_def], of t] l(6) c n(5,6)]
  show "card (held recs (\<lambda>_. True)) < MAX_PENDING_OPS_TOTAL"
    "bytes_in recs (held recs (\<lambda>_. True)) + unat c \<le> MAX_PENDING_BYTES_TOTAL"
    using all by (simp_all add: pending_limits)
  show "card (held recs (\<lambda>r. pr_source r = s)) < MAX_PENDING_OPS_PER_SOURCE"
    "bytes_in recs (held recs (\<lambda>r. pr_source r = s)) + unat c \<le> MAX_PENDING_BYTES_PER_SOURCE"
    using src by (simp_all add: pending_limits)
  show "card (held recs (\<lambda>r. pr_topic_id r = t)) < MAX_PENDING_OPS_PER_TOPIC"
    "bytes_in recs (held recs (\<lambda>r. pr_topic_id r = t)) + unat c \<le> MAX_PENDING_BYTES_PER_TOPIC"
    using top by (simp_all add: pending_limits)
qed

lemma insert_pool:
  assumes ok: "pool_ok inner" and w: "recs_within (mi_pending_records inner)" and c: "unat c < 2 ^ 63"
    and q: "check_pending_quota (mi_pending_usage inner) (get_or no_usage (mi_source_usage inner) source)
      (get_or no_usage (mi_topic_usage inner) (b_topic_id (body op))) c = Ok ()"
    and fresh: "fmlookup (mi_pending_records inner) (o_id op) = None"
    and inner': "inner' = insert_pending source op missing c (move_waits (o_id op) {||} missing inner)"
    and r: "r = \<lparr>pr_source = source, pr_topic_id = b_topic_id (body op), pr_missing = missing, pr_charge = c\<rparr>"
  shows "pool_ok inner'" "mi_pending_records inner' = fmupd (o_id op) r (mi_pending_records inner)"
    "outside_pool inner' = outside_pool inner"
proof -
  let ?i = "o_id op" and ?recs = "mi_pending_records inner" and ?mid = "move_waits (o_id op) {||} missing inner"
  let ?recs' = "fmupd (o_id op) r (mi_pending_records inner)"
  note m = move_waits_pool[of inner ?i "{||}" missing, OF ok]
  have frame: "?mid\<lparr>mi_pending_waiters := mi_pending_waiters inner, mi_pending_ready := mi_pending_ready inner\<rparr> = inner"
    using m(3) fresh by simp
  have mid: "mi_pending_records ?mid = ?recs" "mi_pending_ops ?mid = mi_pending_ops inner"
    "mi_pending_by_topic ?mid = mi_pending_by_topic inner" "mi_pending_usage ?mid = mi_pending_usage inner"
    "mi_source_usage ?mid = mi_source_usage inner" "mi_topic_usage ?mid = mi_topic_usage inner"
    using arg_cong[OF frame, of mi_pending_records] arg_cong[OF frame, of mi_pending_ops]
      arg_cong[OF frame, of mi_pending_by_topic] arg_cong[OF frame, of mi_pending_usage]
      arg_cong[OF frame, of mi_source_usage] arg_cong[OF frame, of mi_topic_usage] by simp_all
  show recs: "mi_pending_records inner' = ?recs'" by (simp add: inner' insert_pending_def Let_def mid r)
  show "outside_pool inner' = outside_pool inner"
    using arg_cong[OF frame, of outside_pool] by (simp add: inner' insert_pending_def Let_def outside_pool_def)
  note room = quota_rooms[OF ok w c q]
  have notin: "?i \<notin> held ?recs P" for P using fresh by (auto simp: held_def)
  have rc: "pr_charge r = c" "pr_source r = source" "pr_topic_id r = b_topic_id (body op)" "pr_missing r = missing"
    by (simp_all add: r)
  have "usage_is (charged (mi_pending_usage inner) (pr_charge r)) ?recs' (insert ?i (held ?recs (\<lambda>_. True)))"
    by (rule usage_charge[OF pool_okD(7)[OF ok] finite_held notin]) (use room(1,2) rc in \<open>simp_all add: pending_limits\<close>)
  then have all: "usage_is (mi_pending_usage inner') ?recs' (held ?recs' (\<lambda>_. True))"
    by (simp add: inner' insert_pending_def Let_def mid held_fmupd rc)
  have "usages_are (modify_or no_usage (\<lambda>u. charged u (pr_charge r)) (pr_source r) (mi_source_usage inner)) ?recs' pr_source"
    by (rule usages_charge[OF pool_okD(8)[OF ok] fresh]) (use room(3,4) rc in \<open>simp_all add: pending_limits\<close>)
  then have src: "usages_are (mi_source_usage inner') ?recs' pr_source"
    by (simp add: inner' insert_pending_def Let_def mid rc)
  have "usages_are (modify_or no_usage (\<lambda>u. charged u (pr_charge r)) (pr_topic_id r) (mi_topic_usage inner)) ?recs' pr_topic_id"
    by (rule usages_charge[OF pool_okD(9)[OF ok] fresh]) (use room(5,6) rc in \<open>simp_all add: pending_limits\<close>)
  then have top: "usages_are (mi_topic_usage inner') ?recs' pr_topic_id"
    by (simp add: inner' insert_pending_def Let_def mid rc)
  have "index_ok (mi_pending_waiters ?mid) (\<lambda>d. held ?recs' (\<lambda>r. d |\<in>| pr_missing r))"
    by (rule index_cong[OF m(1)]) (use fresh notin in \<open>auto simp: held_fmupd rc\<close>)
  then have wait: "index_ok (mi_pending_waiters inner') (\<lambda>d. held ?recs' (\<lambda>r. d |\<in>| pr_missing r))"
    by (simp add: inner' insert_pending_def Let_def)
  have ready: "fset (mi_pending_ready inner') = held ?recs' (\<lambda>r. pr_missing r = {||})"
    using m(2) fresh notin by (auto simp: inner' insert_pending_def Let_def held_fmupd rc)
  have "index_ok (add_member (b_topic_id (body op)) ?i (mi_pending_by_topic inner)) (\<lambda>t. held ?recs' (\<lambda>r. pr_topic_id r = t))"
    by (rule index_cong[OF index_add[OF pool_okD(4)[OF ok]]]) (use notin in \<open>auto simp: held_fmupd rc\<close>)
  then have by_topic: "index_ok (mi_pending_by_topic inner') (\<lambda>t. held ?recs' (\<lambda>r. pr_topic_id r = t))"
    by (simp add: inner' insert_pending_def Let_def mid)
  show "pool_ok inner'"
    unfolding pool_ok_def Let_def recs
    using pool_okD(1-3)[OF ok] all src top wait ready by_topic
    by (auto simp: inner' insert_pending_def Let_def mid rc)
qed

lemma recs_within_insert:
  assumes ok: "pool_ok inner" and w: "recs_within (mi_pending_records inner)" and c: "unat (pr_charge r) < 2 ^ 63"
    and q: "check_pending_quota (mi_pending_usage inner) (get_or no_usage (mi_source_usage inner) (pr_source r))
      (get_or no_usage (mi_topic_usage inner) (pr_topic_id r)) (pr_charge r) = Ok ()"
    and fresh: "fmlookup (mi_pending_records inner) i = None"
    and wait: "\<And>d. card (held (fmupd i r (mi_pending_records inner)) (\<lambda>r. d |\<in>| pr_missing r)) \<le> MAX_PENDING_WAITERS_PER_DEP"
    and size: "fcard (pr_missing r) \<le> MAX_PENDING_MISSING_DEPS"
  shows "recs_within (fmupd i r (mi_pending_records inner))"
proof -
  let ?recs = "mi_pending_records inner" and ?recs' = "fmupd i r (mi_pending_records inner)"
  note room = quota_rooms[OF ok w c q]
  have new: "card (held ?recs' P) = Suc (card (held ?recs P))" "bytes_in ?recs' (held ?recs' P) = bytes_in ?recs (held ?recs P) + unat (pr_charge r)"
    if "P r" for P
  proof -
    have n: "i \<notin> held ?recs P" using fresh by (auto simp: held_def)
    show "card (held ?recs' P) = Suc (card (held ?recs P))" using that n by (simp add: held_fmupd)
    show "bytes_in ?recs' (held ?recs' P) = bytes_in ?recs (held ?recs P) + unat (pr_charge r)"
      using that n by (simp add: held_fmupd bytes_in_insert)
  qed
  have old: "held ?recs' P = held ?recs P" "bytes_in ?recs' (held ?recs P) = bytes_in ?recs (held ?recs P)" if "\<not> P r" for P
  proof -
    have n: "i \<notin> held ?recs P" using fresh by (auto simp: held_def)
    show "held ?recs' P = held ?recs P" using that n by (simp add: held_fmupd)
    show "bytes_in ?recs' (held ?recs P) = bytes_in ?recs (held ?recs P)"
      unfolding bytes_in_def using n by (intro sum.cong) auto
  qed
  have "card (held ?recs' (\<lambda>r. pr_source r = s)) \<le> MAX_PENDING_OPS_PER_SOURCE \<and>
      bytes_in ?recs' (held ?recs' (\<lambda>r. pr_source r = s)) \<le> MAX_PENDING_BYTES_PER_SOURCE" for s
    using new[of "\<lambda>r. pr_source r = s"] old[of "\<lambda>r. pr_source r = s"] room(3,4) recs_withinD(3,4)[OF w, of s]
    by (cases "pr_source r = s") auto
  moreover have "card (held ?recs' (\<lambda>r. pr_topic_id r = t)) \<le> MAX_PENDING_OPS_PER_TOPIC \<and>
      bytes_in ?recs' (held ?recs' (\<lambda>r. pr_topic_id r = t)) \<le> MAX_PENDING_BYTES_PER_TOPIC" for t
    using new[of "\<lambda>r. pr_topic_id r = t"] old[of "\<lambda>r. pr_topic_id r = t"] room(5,6) recs_withinD(5,6)[OF w, of t]
    by (cases "pr_topic_id r = t") auto
  moreover have "card (held ?recs' (\<lambda>_. True)) \<le> MAX_PENDING_OPS_TOTAL" "bytes_in ?recs' (held ?recs' (\<lambda>_. True)) \<le> MAX_PENDING_BYTES_TOTAL"
    using new[of "\<lambda>_. True"] room(1,2) by auto
  moreover have "\<forall>j q. fmlookup ?recs' j = Some q \<longrightarrow> fcard (pr_missing q) \<le> MAX_PENDING_MISSING_DEPS"
    using size recs_withinD(8)[OF w] by auto
  ultimately show ?thesis using wait unfolding recs_within_def by blast
qed

lemma recs_within_rewait:
  assumes w: "recs_within recs" and r: "fmlookup recs i = Some r"
    and wait: "\<And>d. card (held (fmupd i (r\<lparr>pr_missing := missing\<rparr>) recs) (\<lambda>r. d |\<in>| pr_missing r)) \<le> MAX_PENDING_WAITERS_PER_DEP"
    and size: "fcard missing \<le> MAX_PENDING_MISSING_DEPS"
  shows "recs_within (fmupd i (r\<lparr>pr_missing := missing\<rparr>) recs)"
proof -
  let ?recs' = "fmupd i (r\<lparr>pr_missing := missing\<rparr>) recs"
  have same: "held ?recs' P = held recs P" if "P (r\<lparr>pr_missing := missing\<rparr>) = P r" for P
    using r that by (auto simp: held_def)
  have bytes: "bytes_in ?recs' S = bytes_in recs S" for S
    unfolding bytes_in_def by (rule sum.cong) (auto simp: r)
  have "\<forall>j q. fmlookup ?recs' j = Some q \<longrightarrow> fcard (pr_missing q) \<le> MAX_PENDING_MISSING_DEPS"
    using size recs_withinD(8)[OF w] by auto
  then show ?thesis using w wait unfolding recs_within_def by (simp add: same bytes)
qed

lemma buffer_pending_Ok:
  assumes run: "buffer_pending budget quota source op missing charge previous inner = Ok inner'"
    and prev: "previous = map_option pr_missing (fmlookup (mi_pending_records inner) (o_id op))"
    and ok: "pool_ok inner" and w: "recs_within (mi_pending_records inner)" and c: "unat charge < 2 ^ 63"
    and size: "fcard missing \<le> MAX_PENDING_MISSING_DEPS"
    and same: "\<And>q. fmlookup (mi_pending_ops inner) (o_id op) = Some q \<Longrightarrow> q = op"
  shows "pool_ok inner' \<and> recs_within (mi_pending_records inner') \<and> outside_pool inner' = outside_pool inner \<and>
    fmlookup (mi_pending_ops inner') (o_id op) = Some op \<and>
    (\<exists>r. mi_pending_records inner' = fmupd (o_id op) r (mi_pending_records inner) \<and> pr_missing r = missing)"
proof (cases "fmlookup (mi_pending_records inner) (o_id op)")
  case None
  define r where "r = \<lparr>pr_source = source, pr_topic_id = b_topic_id (body op), pr_missing = missing, pr_charge = charge\<rparr>"
  let ?mid = "move_waits (o_id op) {||} missing inner"
  have frame: "mi_pending_records ?mid = mi_pending_records inner" by (simp add: move_waits_def unwait_fold Let_def)
  have checks: "check_waiters inner None missing = Ok ()"
    "check_pending_quota (mi_pending_usage inner) (get_or no_usage (mi_source_usage inner) source)
      (get_or no_usage (mi_topic_usage inner) (b_topic_id (body op))) charge = Ok ()"
    and inner': "inner' = insert_pending source op missing charge ?mid"
    using run None frame by (auto simp: buffer_pending_def prev rbind_eq_Ok)
  note i = insert_pool[OF ok w c checks(2) None inner' r_def]
  have wait: "card (held (fmupd (o_id op) r (mi_pending_records inner)) (\<lambda>r. d |\<in>| pr_missing r)) \<le> MAX_PENDING_WAITERS_PER_DEP" for d
    using waiter_limit[OF ok w checks(1), of "o_id op" r d] by (simp add: r_def)
  have "recs_within (fmupd (o_id op) r (mi_pending_records inner))"
    by (rule recs_within_insert[OF ok w _ _ None wait]) (use c checks(2) size in \<open>simp_all add: r_def\<close>)
  moreover have "fmlookup (mi_pending_ops inner') (o_id op) = Some op" by (simp add: inner' insert_pending_def Let_def)
  moreover have "pr_missing r = missing" by (simp add: r_def)
  ultimately show ?thesis using i by auto
next
  case (Some r)
  let ?mid = "move_waits (o_id op) (pr_missing r) missing inner"
  have frame: "mi_pending_records ?mid = mi_pending_records inner" "mi_pending_ops ?mid = mi_pending_ops inner"
    by (simp_all add: move_waits_def unwait_fold Let_def)
  have checks: "check_waiters inner (Some (pr_missing r)) missing = Ok ()"
    and inner': "inner' = ?mid\<lparr>mi_pending_records := fmupd (o_id op) (r\<lparr>pr_missing := missing\<rparr>) (mi_pending_records ?mid)\<rparr>"
    using run Some frame by (auto simp: buffer_pending_def prev rbind_eq_Ok)
  note m = rewait_pool[OF ok Some refl, of missing]
  have wait: "card (held (fmupd (o_id op) (r\<lparr>pr_missing := missing\<rparr>) (mi_pending_records inner)) (\<lambda>r. d |\<in>| pr_missing r)) \<le> MAX_PENDING_WAITERS_PER_DEP" for d
    using waiter_limit[OF ok w checks(1), of "o_id op" r d] Some by simp
  note within = recs_within_rewait[OF w Some wait size]
  obtain q where "fmlookup (mi_pending_ops inner) (o_id op) = Some q"
    using fmdomI[OF Some] unfolding pool_okD(1)[OF ok, symmetric] by (auto simp: fmlookup_dom_iff)
  then have "fmlookup (mi_pending_ops inner') (o_id op) = Some op" using same frame by (simp add: inner')
  moreover have "outside_pool inner' = outside_pool inner" using m(3) by (simp add: inner' outside_pool_def)
  moreover have "pool_ok inner'" unfolding inner' by (rule m(1))
  moreover have "mi_pending_records inner' = fmupd (o_id op) (r\<lparr>pr_missing := missing\<rparr>) (mi_pending_records inner)"
    by (simp add: inner' frame)
  moreover have "pr_missing (r\<lparr>pr_missing := missing\<rparr>) = missing" by simp
  ultimately show ?thesis using within by (intro conjI exI[of _ "r\<lparr>pr_missing := missing\<rparr>"]) (simp_all only:)
qed

lemma op_bytes_bound:
  assumes "pending_op_bytes x op = Ok charge" "\<And>n. x_op_size x op = Some n \<Longrightarrow> n < 2 ^ 63"
  shows "unat charge < 2 ^ 63"
  using assms by (auto simp: pending_op_bytes_def ok_or_def unat_of_nat take_bit_nat_eq_self result_simps split: option.splits)

lemma put_pending_Ok:
  assumes run: "put_pending_bound x budget quota source op m genesis inner = Ok inner'"
    and ok: "pool_ok inner" "recs_within (mi_pending_records inner)"
    and size: "\<And>n. x_op_size x op = Some n \<Longrightarrow> n < 2 ^ 63"
  shows "pool_ok inner' \<and> recs_within (mi_pending_records inner') \<and> outside_pool inner' = outside_pool inner \<and>
    (if dep_resolvable_locked inner (o_id op) then inner' = inner
     else fmlookup (mi_pending_ops inner') (o_id op) = Some op \<and>
       (\<exists>r. mi_pending_records inner' = fmupd (o_id op) r (mi_pending_records inner) \<and> pr_missing r = m_missing_deps m))"
proof (cases "dep_resolvable_locked inner (o_id op)")
  case True
  then have "inner' = inner" using run by (auto simp: put_pending_bound_def Let_def result_simps split: if_splits)
  then show ?thesis using True ok by simp
next
  case False
  let ?recs = "mi_pending_records inner" and ?missing = "m_missing_deps m"
  from run obtain charge where charge: "pending_op_bytes x op = Ok charge" by (auto simp: put_pending_bound_def result_simps)
  have within: "fcard ?missing \<le> MAX_PENDING_MISSING_DEPS"
    using run charge by (auto simp: put_pending_bound_def Let_def not_less split: if_splits)
  consider (same) r where "fmlookup ?recs (o_id op) = Some r" "fmlookup (mi_pending_ops inner) (o_id op) = Some op"
      "pr_missing r = ?missing" "inner' = inner"
    | (buffer) "buffer_pending budget quota source op ?missing charge (map_option pr_missing (fmlookup ?recs (o_id op))) inner = Ok inner'"
      "contains_key ?recs (o_id op) \<Longrightarrow> fmlookup (mi_pending_ops inner) (o_id op) = Some op"
    using run charge False
    by (fastforce simp: put_pending_bound_def Let_def result_simps contains_key_def split: if_splits option.splits)
  then show ?thesis
  proof cases
    case same
    then have "?recs = fmupd (o_id op) r ?recs" by (intro fmap_ext) auto
    then show ?thesis using same ok False by auto
  next
    case buffer
    have "q = op" if "fmlookup (mi_pending_ops inner) (o_id op) = Some q" for q
      using buffer(2) that fmdomI[OF that] unfolding pool_okD(1)[OF ok(1)] by (auto simp: contains_key_def fmlookup_dom_iff)
    from buffer_pending_Ok[OF buffer(1) refl ok op_bytes_bound[OF charge size] within this]
    show ?thesis using False by simp
  qed
qed

end
