(* ===== verification/Pending_Subtrees.thy ===== *)
theory Pending_Subtrees
  imports Pending_Buffering
begin

text \<open>
  Leaving the pool by subtree: rejection, purge and expiry remove exactly what waits, directly or
  through other waiters, on the operations they start from.
\<close>

section \<open>Subtrees\<close>

definition waits_rel :: "pending_records \<Rightarrow> (op_id \<times> op_id) set" where
  "waits_rel recs = {(d, i). \<exists>r. fmlookup recs i = Some r \<and> d |\<in>| pr_missing r}"

lemma adj_rel_waiters: "pool_ok inner \<Longrightarrow> adj_rel (mi_pending_waiters inner) = waits_rel (mi_pending_records inner)"
proof -
  assume ok: "pool_ok inner"
  have "(\<exists>s. fmlookup (mi_pending_waiters inner) d = Some s \<and> i |\<in>| s) \<longleftrightarrow> i \<in> held (mi_pending_records inner) (\<lambda>r. d |\<in>| pr_missing r)" for d i
    using index_okD(1,2)[OF pool_okD(5)[OF ok], of d]
    by (cases "fmlookup (mi_pending_waiters inner) d") auto
  then show ?thesis by (auto simp: adj_rel_iff waits_rel_def held_def)
qed

lemma waiter_closure_is: "pool_ok inner \<Longrightarrow>
  fset (waiter_closure_locked inner d) = (waits_rel (mi_pending_records inner))\<^sup>+ `` {d} - {d}"
  by (simp add: waiter_closure_locked_def closure_loop_start adj_rel_waiters del: closure_loop.simps)

lemma subtree_is: "pool_ok inner \<Longrightarrow>
  fset (finsert d (waiter_closure_locked inner d)) = (waits_rel (mi_pending_records inner))\<^sup>* `` {d}"
  by (auto simp: waiter_closure_is rtrancl_eq_or_trancl)

lemma waits_rel_filter: "waits_rel (fmfilter P recs) = {(d, i). (d, i) \<in> waits_rel recs \<and> P i}"
  by (auto simp: waits_rel_def split: if_splits)

text \<open>Nothing that stays waits on what left.\<close>

lemma subtree_closed:
  assumes "fmlookup (fmfilter (\<lambda>i. i \<notin> (waits_rel recs)\<^sup>* `` {d}) recs) j = Some r" "e |\<in>| pr_missing r"
  shows "e \<notin> (waits_rel recs)\<^sup>* `` {d}"
proof
  assume "e \<in> (waits_rel recs)\<^sup>* `` {d}"
  moreover have "(e, j) \<in> waits_rel recs" using assms by (auto simp: waits_rel_def split: if_splits)
  ultimately have "j \<in> (waits_rel recs)\<^sup>* `` {d}" by (auto intro: rtrancl_into_rtrancl)
  then show False using assms(1) by (auto split: if_splits)
qed

subsection \<open>Rejection markers\<close>

definition rejected_ok :: "rejected_ids \<Rightarrow> bool" where
  "rejected_ok r \<longleftrightarrow> distinct (rj_order r) \<and> fset (rj_ids r) = set (rj_order r)"

lemma mark_fold:
  assumes "rejected_ok r" "distinct is"
  shows "rj_order (fold mark_rejected is r) = rj_order r @ filter (\<lambda>i. i |\<notin>| rj_ids r) is \<and>
    fset (rj_ids (fold mark_rejected is r)) = fset (rj_ids r) \<union> set is \<and> rejected_ok (fold mark_rejected is r)"
  using assms
proof (induction "is" arbitrary: r)
  case (Cons i "is")
  have ok: "rejected_ok (mark_rejected i r)" using Cons.prems by (auto simp: rejected_ok_def mark_rejected_def)
  have f: "filter (\<lambda>j. j |\<notin>| rj_ids (mark_rejected i r)) is = filter (\<lambda>j. j |\<notin>| rj_ids r) is"
    using Cons.prems by (intro filter_cong) (auto simp: mark_rejected_def)
  have "distinct is" using Cons.prems by simp
  note IH = Cons.IH[OF ok this, unfolded f]
  show ?case
  proof (cases "i |\<in>| rj_ids r")
    case True
    then show ?thesis using IH by (auto simp: mark_rejected_def)
  next
    case False
    then have "mark_rejected i r = \<lparr>rj_order = rj_order r @ [i], rj_ids = finsert i (rj_ids r)\<rparr>" by (simp add: mark_rejected_def)
    then show ?thesis using IH False by auto
  qed
qed simp

lemma trim_rejected_ok:
  assumes "rejected_ok r"
  shows "rejected_ok (trim_rejected r)" "length (rj_order (trim_rejected r)) \<le> MAX_REJECTED_PER_TOPIC"
    "rj_order (trim_rejected r) = drop (length (rj_order r) - MAX_REJECTED_PER_TOPIC) (rj_order r)"
proof -
  let ?n = "length (rj_order r) - MAX_REJECTED_PER_TOPIC"
  have "set (take ?n (rj_order r)) \<inter> set (drop ?n (rj_order r)) = {}"
    using assms set_take_disj_set_drop_if_distinct[of "rj_order r" ?n ?n] by (simp add: rejected_ok_def)
  moreover have "set (rj_order r) = set (take ?n (rj_order r)) \<union> set (drop ?n (rj_order r))"
    by (metis append_take_drop_id set_append)
  ultimately have "set (rj_order r) - set (take ?n (rj_order r)) = set (drop ?n (rj_order r))" by blast
  then show "rejected_ok (trim_rejected r)"
    using assms by (simp add: rejected_ok_def trim_rejected_def Let_def fset_of_list.rep_eq)
qed (simp_all add: trim_rejected_def Let_def)

lemma mark_trim:
  assumes ok: "rejected_ok r" and d: "distinct is" and n: "length is \<le> MAX_REJECTED_PER_TOPIC"
  shows "rejected_ok (trim_rejected (fold mark_rejected is r))"
    "fset (rj_ids (trim_rejected (fold mark_rejected is r))) \<subseteq> fset (rj_ids r) \<union> set is"
    "set is - fset (rj_ids r) \<subseteq> fset (rj_ids (trim_rejected (fold mark_rejected is r)))"
proof -
  note m = conjunct1[OF mark_fold[OF ok d]] conjunct1[OF conjunct2[OF mark_fold[OF ok d]]] conjunct2[OF conjunct2[OF mark_fold[OF ok d]]]
  let ?s = "fold mark_rejected is r" and ?new = "filter (\<lambda>i. i |\<notin>| rj_ids r) is"
  note t = trim_rejected_ok[OF m(3)]
  show "rejected_ok (trim_rejected ?s)" by (rule t(1))
  have ids: "fset (rj_ids (trim_rejected ?s)) = set (drop (length (rj_order ?s) - MAX_REJECTED_PER_TOPIC) (rj_order ?s))"
    using t(1,3) by (simp add: rejected_ok_def)
  show "fset (rj_ids (trim_rejected ?s)) \<subseteq> fset (rj_ids r) \<union> set is"
    unfolding ids using set_drop_subset[of _ "rj_order ?s"] m(2,3) by (auto simp: rejected_ok_def)
  have "length ?new \<le> MAX_REJECTED_PER_TOPIC" using n length_filter_le le_trans by blast
  then have "drop (length (rj_order ?s) - MAX_REJECTED_PER_TOPIC) (rj_order ?s) =
      drop (length (rj_order ?s) - MAX_REJECTED_PER_TOPIC) (rj_order r) @ ?new"
    unfolding m(1) by simp
  then show "set is - fset (rj_ids r) \<subseteq> fset (rj_ids (trim_rejected ?s))" unfolding ids by auto
qed

subsection \<open>Removing subtrees\<close>

lemma purge_pending_ok:
  assumes ok: "pool_ok inner"
  obtains inner' where "purge_pending_waiters d inner = Ok (card ((waits_rel (mi_pending_records inner))\<^sup>+ `` {d} - {d}), inner')"
    "pool_ok inner'" "outside_pool inner' = outside_pool inner" "mi_pending_since inner' = mi_pending_since inner"
    "mi_pending_records inner' = fmfilter (\<lambda>i. i \<notin> (waits_rel (mi_pending_records inner))\<^sup>+ `` {d} - {d}) (mi_pending_records inner)"
proof -
  from remove_fold_ok[OF ok, of "iter_set (waiter_closure_locked inner d)"] obtain inner' where
    "fold_res remove_pending_locked (iter_set (waiter_closure_locked inner d)) inner = Ok inner'" "pool_ok inner'"
    "mi_pending_records inner' = fmfilter (\<lambda>i. i \<notin> fset (waiter_closure_locked inner d)) (mi_pending_records inner)"
    "outside_pool inner' = outside_pool inner" "mi_pending_since inner' = mi_pending_since inner"
    by auto
  then show thesis
    by (intro that[of inner']) (simp_all only: purge_pending_waiters_def Let_def rbind_simps fcard.rep_eq waiter_closure_is[OF ok])
qed

lemma mi_rejected_outside: "outside_pool inner' = outside_pool inner \<Longrightarrow> mi_rejected inner' = mi_rejected inner"
  by (drule arg_cong[of _ _ mi_rejected]) (simp add: outside_pool_def)

lemma reject_subtree_ok:
  assumes ok: "pool_ok inner" and r: "fmlookup (mi_pending_records inner) i = Some r"
    and b: "budget (RejectedMetadata (pr_topic_id r)) = Ok ()"
  defines "S \<equiv> (waits_rel (mi_pending_records inner))\<^sup>* `` {i}"
  obtains inner' where "reject_pending_subtree budget i inner = Ok (card S, inner')" "pool_ok inner'"
    "mi_pending_records inner' = fmfilter (\<lambda>j. j \<notin> S) (mi_pending_records inner)"
    "outside_pool (inner'\<lparr>mi_rejected := mi_rejected inner\<rparr>) = outside_pool inner"
    "mi_rejected inner' = fmupd (pr_topic_id r) (trim_rejected (fold mark_rejected (sorted_list_of_set S)
      (get_or no_rejected (mi_rejected inner) (pr_topic_id r)))) (mi_rejected inner)"
    "mi_pending_since inner' = mi_pending_since inner"
proof -
  let ?T = "finsert i (waiter_closure_locked inner i)"
  have T: "fset ?T = S" by (simp only: S_def subtree_is[OF ok])
  from remove_fold_ok[OF ok, of "iter_set ?T"] obtain inner1 where i1:
    "fold_res remove_pending_locked (iter_set ?T) inner = Ok inner1" "pool_ok inner1"
    "mi_pending_records inner1 = fmfilter (\<lambda>j. j \<notin> S) (mi_pending_records inner)"
    "outside_pool inner1 = outside_pool inner" "mi_pending_since inner1 = mi_pending_since inner"
    unfolding set_iter_set T by blast
  have rj: "mi_rejected inner1 = mi_rejected inner" by (rule mi_rejected_outside[OF i1(4)])
  have list: "iter_set ?T = sorted_list_of_set S" by (simp only: iter_set_def sorted_list_of_fset.rep_eq T)
  define inner' where "inner' = inner1\<lparr>mi_rejected := fmupd (pr_topic_id r) (trim_rejected (fold mark_rejected (sorted_list_of_set S)
      (get_or no_rejected (mi_rejected inner) (pr_topic_id r)))) (mi_rejected inner)\<rparr>"
  have "reject_pending_subtree budget i inner = Ok (card S, inner')"
    using r b i1(1) unfolding reject_pending_subtree_def inner'_def
    by (simp only: option.case Let_def rbind_simps fcard.rep_eq T rj list)
  moreover have "pool_ok inner'" using i1(2) by (simp add: pool_ok_def inner'_def)
  moreover have "outside_pool (inner'\<lparr>mi_rejected := mi_rejected inner\<rparr>) = outside_pool inner"
    using i1(4) by (simp add: inner'_def outside_pool_def flip: rj)
  ultimately show thesis using that i1(3,5) by (simp add: inner'_def)
qed

lemma expire_step_ok:
  assumes "pool_ok inner" "fmdom (mi_pending_since inner) = fmdom (mi_pending_records inner)"
  shows "\<exists>inner'. fold_res (\<lambda>j (inner, removed).
      if contains_key (mi_pending_records inner) j
      then rbind (remove_pending_locked j inner) (\<lambda>inner.
        Ok (inner\<lparr>mi_pending_since := fmdrop j (mi_pending_since inner)\<rparr>, finsert j removed))
      else Ok (inner, removed)) js (inner, removed) =
      Ok (inner', removed |\<union>| (fset_of_list js |\<inter>| fmdom (mi_pending_records inner))) \<and>
    pool_ok inner' \<and> mi_pending_records inner' = fmfilter (\<lambda>j. j \<notin> set js) (mi_pending_records inner) \<and>
    mi_pending_since inner' = fmfilter (\<lambda>j. j \<notin> set js) (mi_pending_since inner) \<and>
    outside_pool inner' = outside_pool inner"
  using assms
proof (induction js arbitrary: inner removed)
  case Nil
  then show ?case by (simp add: fmfilter_true)
next
  case (Cons j js)
  show ?case
  proof (cases "contains_key (mi_pending_records inner) j")
    case False
    then have notin: "j |\<notin>| fmdom (mi_pending_records inner)" by (auto simp: contains_key_def fmlookup_dom_iff)
    have drop: "fmfilter (\<lambda>k. k \<notin> set (j # js)) m = fmfilter (\<lambda>k. k \<notin> set js) m" if "j |\<notin>| fmdom m" for m :: "(op_id, 'b) btree_map"
      using that by (intro fmap_ext) (auto simp: fmdom_notD)
    have "fset_of_list (j # js) |\<inter>| fmdom (mi_pending_records inner) = fset_of_list js |\<inter>| fmdom (mi_pending_records inner)"
      using notin by auto
    then show ?thesis using Cons.IH[OF Cons.prems, of removed] False drop[OF notin] drop[of "mi_pending_since inner"] notin Cons.prems(2)
      by simp
  next
    case True
    obtain inner1 where i: "remove_pending_locked j inner = Ok inner1" "pool_ok inner1"
      "mi_pending_records inner1 = fmdrop j (mi_pending_records inner)"
      "outside_pool inner1 = outside_pool inner" "mi_pending_since inner1 = mi_pending_since inner"
      by (rule remove_pending_ok[OF Cons.prems(1), of j])
    let ?inner2 = "inner1\<lparr>mi_pending_since := fmdrop j (mi_pending_since inner1)\<rparr>"
    have p: "pool_ok ?inner2" using i(2) by (simp add: pool_ok_def)
    have s: "fmdom (mi_pending_since ?inner2) = fmdom (mi_pending_records ?inner2)" using i(3,5) Cons.prems(2) by simp
    have drop: "fmfilter (\<lambda>k. k \<notin> set js) (fmdrop j m) = fmfilter (\<lambda>k. k \<notin> set (j # js)) m" for m :: "(op_id, 'b) btree_map"
      by (intro fmap_ext) auto
    have rem: "finsert j removed |\<union>| (fset_of_list js |\<inter>| fmdom (fmdrop j (mi_pending_records inner))) =
        removed |\<union>| (fset_of_list (j # js) |\<inter>| fmdom (mi_pending_records inner))"
      using True by (auto simp: contains_key_def fmlookup_dom_iff)
    have out: "outside_pool ?inner2 = outside_pool inner" using i(4) by (simp add: outside_pool_def)
    have "mi_pending_records ?inner2 = fmdrop j (mi_pending_records inner)" "mi_pending_since ?inner2 = fmdrop j (mi_pending_since inner)"
      using i(3,5) by simp_all
    with Cons.IH[OF p s, of "finsert j removed"] show ?thesis
      using True by (simp only: fold_res.simps case_prod_conv if_True i(1) rbind_simps rem drop out)
  qed
qed

lemma rtrancl_restrict:
  assumes closed: "R `` S \<subseteq> S"
  shows "S \<union> {(d, i). (d, i) \<in> R \<and> i \<notin> S}\<^sup>* `` {e} = S \<union> R\<^sup>* `` {e}"
proof -
  let ?Q = "{(d, i). (d, i) \<in> R \<and> i \<notin> S}"
  have "?Q\<^sup>* \<subseteq> R\<^sup>*" by (intro rtrancl_mono) auto
  moreover have "x \<in> S \<or> (e, x) \<in> ?Q\<^sup>*" if "(e, x) \<in> R\<^sup>*" for x
    using that
  proof (induction rule: rtrancl_induct)
    case (step y z)
    then show ?case using closed by (blast intro: rtrancl_into_rtrancl)
  qed simp
  ultimately show ?thesis by blast
qed

lemma waits_rel_dom: "(d, i) \<in> (waits_rel recs)\<^sup>* \<Longrightarrow> d = i \<or> i |\<in>| fmdom recs"
  by (erule rtranclE) (auto simp: waits_rel_def fmlookup_dom_iff)

lemma waits_rel_image_filter: "waits_rel (fmfilter (\<lambda>j. j \<notin> S) recs) = {(d, i). (d, i) \<in> waits_rel recs \<and> i \<notin> S}"
  by (simp add: waits_rel_filter)

lemma expire_subtree_ok:
  assumes ok: "pool_ok inner" "fmdom (mi_pending_since inner) = fmdom (mi_pending_records inner)"
    and recs: "mi_pending_records inner = fmfilter (\<lambda>j. j \<notin> S) recs" and closed: "waits_rel recs `` S \<subseteq> S"
    and since: "mi_pending_since inner = fmfilter (\<lambda>j. j \<notin> S) sn"
    and removed: "fset removed = S \<inter> fset (fmdom recs)" and S'_def: "S' = S \<union> (waits_rel recs)\<^sup>* `` {e}"
  obtains inner' removed' where "expire_subtree e (inner, removed) = Ok (inner', removed')" "pool_ok inner'"
    "fmdom (mi_pending_since inner') = fmdom (mi_pending_records inner')"
    "mi_pending_records inner' = fmfilter (\<lambda>j. j \<notin> S') recs" "waits_rel recs `` S' \<subseteq> S'"
    "mi_pending_since inner' = fmfilter (\<lambda>j. j \<notin> S') sn"
    "fset removed' = S' \<inter> fset (fmdom recs)" "outside_pool inner' = outside_pool inner"
proof -
  let ?T = "finsert e (waiter_closure_locked inner e)"
  have T: "S \<union> fset ?T = S'"
    unfolding subtree_is[OF ok(1)] recs waits_rel_image_filter S'_def by (rule rtrancl_restrict[OF closed])
  have T': "set (iter_set ?T) = fset ?T" "fset (fset_of_list (iter_set ?T)) = fset ?T"
    by (simp_all only: set_iter_set fset_of_list.rep_eq)
  from expire_step_ok[OF ok, of "iter_set ?T" removed] obtain inner' where i:
    "expire_subtree e (inner, removed) = Ok (inner', removed |\<union>| (fset_of_list (iter_set ?T) |\<inter>| fmdom (mi_pending_records inner)))"
    "pool_ok inner'" "mi_pending_records inner' = fmfilter (\<lambda>j. j \<notin> fset ?T) (mi_pending_records inner)"
    "mi_pending_since inner' = fmfilter (\<lambda>j. j \<notin> fset ?T) (mi_pending_since inner)" "outside_pool inner' = outside_pool inner"
    unfolding expire_subtree_def case_prod_conv T' by blast
  have f: "fmfilter (\<lambda>j. j \<notin> fset ?T) (fmfilter (\<lambda>j. j \<notin> S) m) = fmfilter (\<lambda>j. j \<notin> S') m" for m :: "(op_id, 'b) btree_map"
    unfolding T[symmetric] by (intro fmap_ext) auto
  have "fset (removed |\<union>| (fset_of_list (iter_set ?T) |\<inter>| fmdom (mi_pending_records inner))) = S' \<inter> fset (fmdom recs)"
    unfolding union_fset inter_fset T' removed recs T[symmetric] by (auto simp: fmlookup_dom_iff split: if_splits)
  moreover have "waits_rel recs `` S' \<subseteq> S'" using closed by (auto simp: S'_def intro: rtrancl_into_rtrancl)
  moreover have "fmdom (mi_pending_since inner') = fmdom (mi_pending_records inner')" using ok(2) by (simp add: i(3,4))
  moreover have "mi_pending_records inner' = fmfilter (\<lambda>j. j \<notin> S') recs" "mi_pending_since inner' = fmfilter (\<lambda>j. j \<notin> S') sn"
    by (simp_all only: i(3,4) recs since f)
  ultimately show thesis by (intro that[OF i(1,2) _ _ _ _ _ i(5)])
qed

lemma expire_fold_ok:
  assumes "pool_ok inner" "fmdom (mi_pending_since inner) = fmdom (mi_pending_records inner)"
    "mi_pending_records inner = fmfilter (\<lambda>j. j \<notin> S) recs" "waits_rel recs `` S \<subseteq> S"
    "mi_pending_since inner = fmfilter (\<lambda>j. j \<notin> S) sn" "fset removed = S \<inter> fset (fmdom recs)"
  shows "\<exists>inner' removed'. fold_res expire_subtree es (inner, removed) = Ok (inner', removed') \<and> pool_ok inner' \<and>
    mi_pending_records inner' = fmfilter (\<lambda>j. j \<notin> S \<union> (waits_rel recs)\<^sup>* `` set es) recs \<and>
    mi_pending_since inner' = fmfilter (\<lambda>j. j \<notin> S \<union> (waits_rel recs)\<^sup>* `` set es) sn \<and>
    fset removed' = (S \<union> (waits_rel recs)\<^sup>* `` set es) \<inter> fset (fmdom recs) \<and> outside_pool inner' = outside_pool inner"
  using assms
proof (induction es arbitrary: inner removed S)
  case Nil
  then show ?case by simp
next
  case (Cons e es)
  obtain inner1 removed1 where i: "expire_subtree e (inner, removed) = Ok (inner1, removed1)" "pool_ok inner1"
    "fmdom (mi_pending_since inner1) = fmdom (mi_pending_records inner1)"
    "mi_pending_records inner1 = fmfilter (\<lambda>j. j \<notin> S \<union> (waits_rel recs)\<^sup>* `` {e}) recs"
    "waits_rel recs `` (S \<union> (waits_rel recs)\<^sup>* `` {e}) \<subseteq> S \<union> (waits_rel recs)\<^sup>* `` {e}"
    "mi_pending_since inner1 = fmfilter (\<lambda>j. j \<notin> S \<union> (waits_rel recs)\<^sup>* `` {e}) sn"
    "fset removed1 = (S \<union> (waits_rel recs)\<^sup>* `` {e}) \<inter> fset (fmdom recs)" "outside_pool inner1 = outside_pool inner"
    by (rule expire_subtree_ok[OF Cons.prems refl, of e])
  have "S \<union> (waits_rel recs)\<^sup>* `` {e} \<union> (waits_rel recs)\<^sup>* `` set es = S \<union> (waits_rel recs)\<^sup>* `` set (e # es)" by auto
  with Cons.IH[OF i(2-7)] show ?case by (simp only: fold_res.simps i(1,8) rbind_simps)
qed

lemma since_fold:
  "fmlookup (fold (\<lambda>i m. if contains_key m i then m else fmupd i now m) is m) j =
    (if j \<in> set is \<and> fmlookup m j = None then Some now else fmlookup m j)"
  by (induction "is" arbitrary: m) (auto simp: contains_key_def split: option.splits)

definition idle_since :: "u64 \<Rightarrow> u64 \<Rightarrow> memory_inner \<Rightarrow> op_id \<Rightarrow> bool" where
  "idle_since now_ms max_idle_ms inner i \<longleftrightarrow> contains_key (mi_pending_records inner) i \<and>
    (\<exists>t. fmlookup (mi_pending_since inner) i = Some t \<and> saturating_add t max_idle_ms < now_ms)"

lemma expire_pending_ok:
  assumes ok: "pool_ok inner"
    and S_def: "S = (waits_rel (mi_pending_records inner))\<^sup>* `` {e. idle_since now_ms max_idle_ms inner e}"
  obtains inner' where "expire_pending now_ms max_idle_ms inner = Ok (card S, inner')" "pool_ok inner'"
    "mi_pending_records inner' = fmfilter (\<lambda>j. j \<notin> S) (mi_pending_records inner)"
    "\<And>j. fmlookup (mi_pending_since inner') j = (if contains_key (mi_pending_records inner') j
       then Some (get_or now_ms (mi_pending_since inner) j) else None)"
    "outside_pool inner' = outside_pool inner"
proof -
  let ?recs = "mi_pending_records inner"
  define sn where "sn = fold (\<lambda>i m. if contains_key m i then m else fmupd i now_ms m) (iter_set (fmdom ?recs))
      (fmfilter (contains_key ?recs) (mi_pending_since inner))"
  have sn: "fmlookup sn j = (if contains_key ?recs j then Some (get_or now_ms (mi_pending_since inner) j) else None)" for j
    unfolding sn_def since_fold
    by (cases "fmlookup ?recs j"; cases "fmlookup (mi_pending_since inner) j")
      (auto simp: contains_key_def get_or_def fmlookup_dom_iff)
  let ?inner = "inner\<lparr>mi_pending_since := sn\<rparr>"
  let ?es = "filter (\<lambda>i. saturating_add (get_or 0 sn i) max_idle_ms < now_ms) (iter_set (fmdom ?recs))"
  have young: "\<not> saturating_add now_ms max_idle_ms < now_ms"
  proof (cases "unat now_ms + unat max_idle_ms < 2 ^ 64")
    case True
    then have "unat (now_ms + max_idle_ms) = unat now_ms + unat max_idle_ms" by (subst unat_add_no_overflow) simp_all
    then show ?thesis using True by (simp add: saturating_add_def not_less word_le_nat_alt)
  qed (simp add: saturating_add_def not_less)
  have es: "set ?es = {e. idle_since now_ms max_idle_ms inner e}"
    using young
    by (auto simp: idle_since_def sn get_or_def contains_key_def fmlookup_dom_iff split: option.splits if_splits)
  have p: "pool_ok ?inner" using ok by (simp add: pool_ok_def)
  have dom: "fmdom (mi_pending_since ?inner) = fmdom (mi_pending_records ?inner)"
    by (rule fset_eqI) (auto simp: fmlookup_dom_iff sn contains_key_def split: if_splits)
  from expire_fold_ok[OF p dom, of "{}" ?recs sn "{||}" ?es] obtain inner' removed where i:
    "fold_res expire_subtree ?es (?inner, {||}) = Ok (inner', removed)" "pool_ok inner'"
    "mi_pending_records inner' = fmfilter (\<lambda>j. j \<notin> S) ?recs" "mi_pending_since inner' = fmfilter (\<lambda>j. j \<notin> S) sn"
    "fset removed = S \<inter> fset (fmdom ?recs)" "outside_pool inner' = outside_pool ?inner"
    unfolding es S_def by (auto simp: fmfilter_true)
  have "S \<subseteq> fset (fmdom ?recs)"
    by (auto simp: S_def idle_since_def contains_key_def fmlookup_dom_iff dest!: waits_rel_dom)
  then have n: "fcard removed = card S" using i(5) by (simp add: fcard.rep_eq Int_absorb2)
  have "expire_pending now_ms max_idle_ms inner = Ok (card S, inner')"
    unfolding expire_pending_def Let_def sn_def[symmetric] using i(1) n by simp
  then show thesis
    by (rule that[OF _ i(2,3)]) (use i(3,4,6) sn in \<open>auto simp: contains_key_def outside_pool_def\<close>)
qed

end
