(* ===== verification/Memory_Admission.thy ===== *)
theory Memory_Admission
  imports Memory_Index Pending_Subtrees
begin

text \<open>
  What a batch must satisfy to pass \<open>plan_admission\<close>, and that the writes which follow cannot fail and
  leave every index exact.
\<close>

section \<open>Frames\<close>

lemma outside_poolD:
  assumes "outside_pool a = outside_pool b"
  shows "mi_ops a = mi_ops b" "mi_meta a = mi_meta b" "mi_topic_ops a = mi_topic_ops b" "mi_heads a = mi_heads b"
    "mi_children a = mi_children b" "mi_actor_by_seq a = mi_actor_by_seq b" "mi_actor_tip a = mi_actor_tip b"
    "mi_actor_clock a = mi_actor_clock b" "mi_fingerprint a = mi_fingerprint b" "mi_max_generation a = mi_max_generation b"
    "mi_topics a = mi_topics b" "mi_rejected a = mi_rejected b" "mi_peer_acks a = mi_peer_acks b"
    "mi_obligations a = mi_obligations b" "mi_sync_statuses a = mi_sync_statuses b" "mi_evictions a = mi_evictions b"
    "mi_sealed a = mi_sealed b" "mi_epochs a = mi_epochs b" "mi_attempt_epoch a = mi_attempt_epoch b"
    "mi_admitted_bytes a = mi_admitted_bytes b"
  using arg_cong[OF assms, of mi_ops] arg_cong[OF assms, of mi_meta] arg_cong[OF assms, of mi_topic_ops]
    arg_cong[OF assms, of mi_heads] arg_cong[OF assms, of mi_children] arg_cong[OF assms, of mi_actor_by_seq]
    arg_cong[OF assms, of mi_actor_tip] arg_cong[OF assms, of mi_actor_clock] arg_cong[OF assms, of mi_fingerprint]
    arg_cong[OF assms, of mi_max_generation] arg_cong[OF assms, of mi_topics] arg_cong[OF assms, of mi_rejected]
    arg_cong[OF assms, of mi_peer_acks] arg_cong[OF assms, of mi_obligations] arg_cong[OF assms, of mi_sync_statuses]
    arg_cong[OF assms, of mi_evictions] arg_cong[OF assms, of mi_sealed] arg_cong[OF assms, of mi_epochs]
    arg_cong[OF assms, of mi_attempt_epoch] arg_cong[OF assms, of mi_admitted_bytes]
  by (simp_all add: outside_pool_def)

definition pool_part :: "memory_inner \<Rightarrow> memory_inner" where
  "pool_part inner = inner_new\<lparr>mi_pending_ops := mi_pending_ops inner, mi_pending_records := mi_pending_records inner,
     mi_pending_by_topic := mi_pending_by_topic inner, mi_pending_waiters := mi_pending_waiters inner,
     mi_pending_ready := mi_pending_ready inner, mi_pending_usage := mi_pending_usage inner,
     mi_source_usage := mi_source_usage inner, mi_topic_usage := mi_topic_usage inner\<rparr>"

lemma pool_ok_part: "pool_part a = pool_part b \<Longrightarrow> pool_ok a = pool_ok b"
proof -
  have "pool_ok (pool_part a) = pool_ok a" for a by (simp add: pool_part_def pool_ok_def)
  then show "pool_part a = pool_part b \<Longrightarrow> pool_ok a = pool_ok b" by metis
qed

text \<open>The part of a store admission only writes once its entries are in.\<close>

definition outside_index :: "memory_inner \<Rightarrow> memory_inner" where
  "outside_index inner = (outside_pool inner)\<lparr>mi_ops := fmempty, mi_meta := fmempty, mi_topic_ops := fmempty,
     mi_children := fmempty, mi_actor_by_seq := fmempty, mi_actor_tip := fmempty, mi_max_generation := fmempty\<rparr>"

lemma outside_index_pool: "outside_pool a = outside_pool b \<Longrightarrow> outside_index a = outside_index b"
  by (simp add: outside_index_def)

lemma outside_indexD:
  assumes "outside_index a = outside_index b"
  shows "mi_heads a = mi_heads b" "mi_actor_clock a = mi_actor_clock b" "mi_fingerprint a = mi_fingerprint b"
    "mi_topics a = mi_topics b" "mi_rejected a = mi_rejected b" "mi_peer_acks a = mi_peer_acks b"
    "mi_obligations a = mi_obligations b" "mi_sync_statuses a = mi_sync_statuses b" "mi_evictions a = mi_evictions b"
    "mi_sealed a = mi_sealed b" "mi_epochs a = mi_epochs b" "mi_attempt_epoch a = mi_attempt_epoch b"
    "mi_admitted_bytes a = mi_admitted_bytes b"
  using arg_cong[OF assms, of mi_heads] arg_cong[OF assms, of mi_actor_clock] arg_cong[OF assms, of mi_fingerprint]
    arg_cong[OF assms, of mi_topics] arg_cong[OF assms, of mi_rejected]
    arg_cong[OF assms, of mi_peer_acks] arg_cong[OF assms, of mi_obligations] arg_cong[OF assms, of mi_sync_statuses]
    arg_cong[OF assms, of mi_evictions] arg_cong[OF assms, of mi_sealed] arg_cong[OF assms, of mi_epochs]
    arg_cong[OF assms, of mi_attempt_epoch] arg_cong[OF assms, of mi_admitted_bytes]
  by (simp_all add: outside_index_def outside_pool_def)

section \<open>One entry\<close>

definition fresh_pool :: "metas \<Rightarrow> pending_records \<Rightarrow> bool" where
  "fresh_pool metas recs \<longleftrightarrow> (\<forall>i r. fmlookup recs i = Some r \<longrightarrow>
    fmlookup metas i = None \<and> (\<forall>d. d |\<in>| pr_missing r \<longrightarrow> fmlookup metas d = None))"

text \<open>The invariants that hold between two entries of a batch.\<close>

definition indexed_ok :: "memory_inner \<Rightarrow> bool" where
  "indexed_ok inner \<longleftrightarrow> paired (mi_ops inner) (mi_meta inner) \<and>
    topics_indexed (mi_meta inner) (mi_topic_ops inner) \<and> children_indexed (mi_meta inner) (mi_children inner) \<and>
    slots_indexed (mi_meta inner) (mi_actor_by_seq inner) \<and>
    chained (mi_meta inner) (mi_actor_by_seq inner) (mi_actor_tip inner) \<and>
    generations_ok (mi_meta inner) (mi_max_generation inner) \<and>
    pool_ok inner \<and> recs_within (mi_pending_records inner) \<and> fresh_pool (mi_meta inner) (mi_pending_records inner)"

lemma indexed_okD:
  assumes "indexed_ok inner"
  shows "paired (mi_ops inner) (mi_meta inner)" "topics_indexed (mi_meta inner) (mi_topic_ops inner)"
    "children_indexed (mi_meta inner) (mi_children inner)" "slots_indexed (mi_meta inner) (mi_actor_by_seq inner)"
    "chained (mi_meta inner) (mi_actor_by_seq inner) (mi_actor_tip inner)" "generations_ok (mi_meta inner) (mi_max_generation inner)"
    "pool_ok inner" "recs_within (mi_pending_records inner)" "fresh_pool (mi_meta inner) (mi_pending_records inner)"
  using assms by (simp_all add: indexed_ok_def)

lemma recs_within_without: "recs_within recs \<Longrightarrow> recs_within (fmmap (without_dep d) recs)"
  by (erule recs_within_shrink) (auto simp: without_dep_def)

lemma fresh_pool_settle:
  assumes "fresh_pool metas recs"
  shows "fresh_pool (fmupd i m metas) (fmmap (without_dep i) (fmdrop i recs))"
  using assms by (auto simp: fresh_pool_def without_dep_def split: if_splits)

lemma admit_entry_ok:
  assumes ok: "indexed_ok inner" and fresh: "fmlookup (mi_meta inner) (o_id op) = None"
    and app: "check_append (fmlookup (mi_actor_tip inner) (actor_of m)) m = Ok ()"
    and m: "meta_matches op m" "b_topic_id (body op) = m_topic_id m"
  obtains inner' where "admit_entry (op, m) inner = Ok inner'" "indexed_ok inner'"
    "mi_meta inner' = fmupd (o_id op) m (mi_meta inner)" "mi_ops inner' = fmupd (o_id op) op (mi_ops inner)"
    "mi_actor_tip inner' = fmupd (actor_of m) (m_actor_seq m, o_id op) (mi_actor_tip inner)"
    "mi_pending_records inner' = fmmap (without_dep (o_id op)) (fmdrop (o_id op) (mi_pending_records inner))"
    "outside_index inner' = outside_index inner"
proof -
  let ?i = "o_id op" and ?in1 = "index_entry op m inner"
  note okD = indexed_okD[OF ok]
  have p1: "pool_ok ?in1" using okD(7) pool_ok_part[of ?in1 inner] by (simp add: index_entry_def pool_part_def)
  obtain in2 where in2: "remove_pending_locked ?i ?in1 = Ok in2" "pool_ok in2"
    "mi_pending_records in2 = fmdrop ?i (mi_pending_records ?in1)" "outside_pool in2 = outside_pool ?in1"
    by (rule remove_pending_ok[OF p1, of ?i])
  note s = settle_waiters_ok[OF in2(2), of ?i]
  let ?in3 = "settle_waiters_locked ?i in2"
  have out: "outside_pool ?in3 = outside_pool ?in1" using s(3) in2(4) by simp
  note f = outside_poolD[OF out]
  define inner' where "inner' = ?in3\<lparr>mi_meta := fmupd ?i m (mi_meta ?in3), mi_ops := fmupd ?i op (mi_ops ?in3)\<rparr>"
  have run: "admit_entry (op, m) inner = Ok inner'" by (simp add: admit_entry_def in2(1) inner'_def Let_def)
  have raw: "mi_ops ?in1 = mi_ops inner" "mi_meta ?in1 = mi_meta inner"
    "mi_topic_ops ?in1 = add_member (m_topic_id m) ?i (mi_topic_ops inner)"
    "mi_children ?in1 = fold (\<lambda>d. add_member d ?i) (iter_set (m_deps m)) (mi_children inner)"
    "mi_actor_by_seq ?in1 = fmupd (seq_slot m) ?i (mi_actor_by_seq inner)"
    "mi_actor_tip ?in1 = fmupd (actor_of m) (m_actor_seq m, ?i) (mi_actor_tip inner)"
    "mi_max_generation ?in1 = raise_generation (m_topic_id m) (m_generation m) (mi_max_generation inner)"
    "mi_pending_records ?in1 = mi_pending_records inner"
    using raise_tip_append[OF app, of ?i]
    by (simp_all add: index_entry_def seq_slot_def actor_of_def)
  have fields: "mi_meta inner' = fmupd ?i m (mi_meta inner)" "mi_ops inner' = fmupd ?i op (mi_ops inner)"
    "mi_topic_ops inner' = add_member (m_topic_id m) ?i (mi_topic_ops inner)"
    "mi_children inner' = fold (\<lambda>d. add_member d ?i) (iter_set (m_deps m)) (mi_children inner)"
    "mi_actor_by_seq inner' = fmupd (seq_slot m) ?i (mi_actor_by_seq inner)"
    "mi_actor_tip inner' = fmupd (actor_of m) (m_actor_seq m, ?i) (mi_actor_tip inner)"
    "mi_max_generation inner' = raise_generation (m_topic_id m) (m_generation m) (mi_max_generation inner)"
    "mi_pending_records inner' = fmmap (without_dep ?i) (fmdrop ?i (mi_pending_records inner))"
    by (simp_all add: inner'_def f raw s(2) in2(3))
  have pool: "pool_ok inner'" using s(1) pool_ok_part[of inner' ?in3] by (simp add: inner'_def pool_part_def)
  have "indexed_ok inner'"
    unfolding indexed_ok_def fields
    using paired_add[OF okD(1) refl m(2,1)] topics_indexed_add[OF okD(2) fresh] children_indexed_add[OF okD(3) fresh]
      slots_indexed_add[OF okD(4) fresh append_free[OF okD(5) app]] chained_append[OF okD(5) app]
      generations_add[OF okD(6) fresh] pool recs_within_without[OF recs_within_fmdrop[OF okD(8)]] fresh_pool_settle[OF okD(9)]
    by (intro conjI)
  moreover have "outside_index inner' = outside_index inner"
  proof -
    have "outside_index inner' = outside_index ?in3" by (simp add: inner'_def outside_index_def outside_pool_def)
    also have "\<dots> = outside_index ?in1" by (rule outside_index_pool[OF out])
    also have "\<dots> = outside_index inner" by (simp add: index_entry_def outside_index_def outside_pool_def)
    finally show ?thesis .
  qed
  ultimately show thesis using that run fields by simp
qed

section \<open>A batch\<close>

text \<open>Entries that extend their actors' chains one after the other.\<close>

fun appendable :: "tips \<Rightarrow> (operation \<times> op_meta) list \<Rightarrow> bool" where
  "appendable tips [] \<longleftrightarrow> True"
| "appendable tips ((op, m) # es) \<longleftrightarrow> check_append (fmlookup tips (actor_of m)) m = Ok () \<and>
    appendable (fmupd (actor_of m) (m_actor_seq m, o_id op) tips) es"

definition entry_metas :: "(operation \<times> op_meta) list \<Rightarrow> metas \<Rightarrow> metas" where
  "entry_metas es metas = fold (\<lambda>(op, m). fmupd (o_id op) m) es metas"

definition entry_ops :: "(operation \<times> op_meta) list \<Rightarrow> (op_id, operation) btree_map \<Rightarrow> (op_id, operation) btree_map" where
  "entry_ops es ops = fold (\<lambda>(op, m). fmupd (o_id op) op) es ops"

definition entry_tips :: "(operation \<times> op_meta) list \<Rightarrow> tips \<Rightarrow> tips" where
  "entry_tips es tips = fold (\<lambda>(op, m). fmupd (actor_of m) (m_actor_seq m, o_id op)) es tips"

definition entry_ids :: "(operation \<times> op_meta) list \<Rightarrow> op_id set" where
  "entry_ids es = o_id ` fst ` set es"

lemmas entry_defs = entry_metas_def entry_ops_def entry_tips_def entry_ids_def

text \<open>Identifiers name operations: what content addressing gives to a batch of validated operations.\<close>

definition ids_name_ops :: "(operation \<times> op_meta) list \<Rightarrow> bool" where
  "ids_name_ops es \<longleftrightarrow> (\<forall>(op, m) \<in> set es. \<forall>(op', m') \<in> set es. o_id op = o_id op' \<longrightarrow> op = op')"

lemma tip_bound:
  assumes c: "chained metas by_seq tips" and s: "slots_indexed metas by_seq" and i: "fmlookup metas i = Some n"
  shows "1 \<le> m_actor_seq n \<and> m_actor_seq n \<le> tip_seq tips (actor_of n)"
proof -
  have "fmlookup by_seq (seq_slot n) = Some i" using s i unfolding slots_indexed_def by blast
  moreover have "chain_at by_seq tips (m_topic_id n) (m_actor_id n)" using c by (simp add: chained_def)
  ultimately show ?thesis
    unfolding chain_at_def tip_seq_def actor_of_def seq_slot_def
    by (cases "fmlookup tips (m_topic_id n, m_actor_id n)") auto
qed

lemma append_after_tip:
  assumes "check_append (fmlookup tips (actor_of m)) m = Ok ()"
  shows "tip_seq tips (actor_of m) < m_actor_seq m"
proof (cases "fmlookup tips (actor_of m)")
  case (Some tip)
  obtain n j where tip: "tip = (n, j)" by (cases tip)
  then have b: "unat n + 1 < 2 ^ 64" "m_actor_seq m = n + 1" using assms Some by (simp_all add: check_append_Ok)
  then show ?thesis using unat_Suc[OF b(1)] Some tip by (simp add: tip_seq_def word_less_nat_alt)
qed (use assms in \<open>simp add: tip_seq_def check_append_Ok\<close>)

lemma appendable_after:
  "appendable tips es \<Longrightarrow> (op, m) \<in> set es \<Longrightarrow> tip_seq tips (actor_of m) < m_actor_seq m"
proof (induction tips es rule: appendable.induct)
  case (2 tips op' m' es)
  show ?case
  proof (cases "(op, m) = (op', m')")
    case True
    then show ?thesis using "2.prems" append_after_tip by auto
  next
    case False
    then have "tip_seq (fmupd (actor_of m') (m_actor_seq m', o_id op') tips) (actor_of m) < m_actor_seq m"
      using "2.IH" "2.prems" by auto
    moreover have "tip_seq tips (actor_of m') < m_actor_seq m'" using "2.prems"(1) append_after_tip by simp
    ultimately show ?thesis by (cases "actor_of m' = actor_of m") (auto simp: tip_seq_def)
  qed
qed simp

lemma admit_entries_ok:
  assumes "indexed_ok inner" "appendable (mi_actor_tip inner) es" "ids_name_ops es"
    and "\<And>op m. (op, m) \<in> set es \<Longrightarrow> fmlookup (mi_meta inner) (o_id op) = None \<and> meta_matches op m \<and> b_topic_id (body op) = m_topic_id m"
  shows "\<exists>inner'. fold_res admit_entry es inner = Ok inner' \<and> indexed_ok inner' \<and>
    mi_meta inner' = entry_metas es (mi_meta inner) \<and> mi_ops inner' = entry_ops es (mi_ops inner) \<and>
    mi_actor_tip inner' = entry_tips es (mi_actor_tip inner) \<and> outside_index inner' = outside_index inner"
  using assms
proof (induction es arbitrary: inner)
  case Nil
  then show ?case by (simp add: entry_defs)
next
  case (Cons e es)
  obtain op m where e: "e = (op, m)" by (cases e)
  have h: "fmlookup (mi_meta inner) (o_id op) = None" "meta_matches op m" "b_topic_id (body op) = m_topic_id m"
    "check_append (fmlookup (mi_actor_tip inner) (actor_of m)) m = Ok ()"
    using Cons.prems(2,4) by (auto simp: e)
  obtain in1 where in1: "admit_entry (op, m) inner = Ok in1" "indexed_ok in1"
    "mi_meta in1 = fmupd (o_id op) m (mi_meta inner)" "mi_ops in1 = fmupd (o_id op) op (mi_ops inner)"
    "mi_actor_tip in1 = fmupd (actor_of m) (m_actor_seq m, o_id op) (mi_actor_tip inner)" "outside_index in1 = outside_index inner"
    by (rule admit_entry_ok[OF Cons.prems(1) h(1,4,2,3)])
  have app: "appendable (mi_actor_tip in1) es" using Cons.prems(2) by (simp add: e in1(5))
  have fresh: "fmlookup (mi_meta in1) (o_id op') = None \<and> meta_matches op' m' \<and> b_topic_id (body op') = m_topic_id m'"
    if in': "(op', m') \<in> set es" for op' m'
  proof -
    have "o_id op' \<noteq> o_id op"
    proof
      assume "o_id op' = o_id op"
      then have same: "op' = op" using Cons.prems(3) in' by (auto simp: ids_name_ops_def e)
      have "meta_matches op' m'" "b_topic_id (body op') = m_topic_id m'" using Cons.prems(4)[of op' m'] in' by simp_all
      then have "actor_of m' = actor_of m" "m_actor_seq m' = m_actor_seq m"
        using h(2,3) by (auto simp: same meta_matches_def actor_of_def Let_def)
      moreover have "tip_seq (mi_actor_tip in1) (actor_of m') < m_actor_seq m'" by (rule appendable_after[OF app in'])
      ultimately show False by (simp add: in1(5) tip_seq_def)
    qed
    then show ?thesis using Cons.prems(4)[of op' m'] in' by (simp add: in1(3))
  qed
  have "ids_name_ops es" using Cons.prems(3) by (auto simp: ids_name_ops_def)
  from Cons.IH[OF in1(2) app this fresh] show ?case
    unfolding in1(3-6) by (simp add: e in1(1) entry_defs)
qed

section \<open>The plan\<close>

text \<open>In a store whose records are paired and closed, what is accounted for is stored.\<close>

lemma accounted_iff:
  assumes ok: "indexed_ok inner" and d: "deps_closed (mi_meta inner)"
  shows "accounted_locked inner m \<longleftrightarrow> fmlookup (mi_meta inner) (m_id m) \<noteq> None"
proof -
  have "fmlookup (mi_ops inner) (m_id m) = None \<longleftrightarrow> fmlookup (mi_meta inner) (m_id m) = None"
    by (rule paired_None[OF indexed_okD(1)[OF ok]])
  moreover have "fmlookup (mi_meta inner) (m_id m) \<noteq> None" if "fmlookup (mi_actor_by_seq inner) k = Some (m_id m)" for k
    using indexed_okD(4)[OF ok] that unfolding slots_indexed_def by blast
  moreover have "fmlookup (mi_meta inner) (m_id m) \<noteq> None" if c: "contains_key (mi_children inner) (m_id m)"
  proof -
    obtain s where "fmlookup (mi_children inner) (m_id m) = Some s" using c by (auto simp: contains_key_def)
    then have "with_meta (mi_meta inner) (\<lambda>n. m_id m |\<in>| m_deps n) \<noteq> {}"
      by (rule index_okD(3)[OF indexed_okD(3)[OF ok, unfolded children_indexed_def]])
    then obtain j n where "fmlookup (mi_meta inner) j = Some n" "m_id m |\<in>| m_deps n" by (auto simp: with_meta_def)
    from deps_closedD[OF d this] show ?thesis by auto
  qed
  ultimately show ?thesis by (auto simp: accounted_locked_def contains_key_def)
qed

definition unstored :: "memory_inner \<Rightarrow> operation \<times> op_meta \<Rightarrow> bool" where
  "unstored inner = (\<lambda>(op, m). fmlookup (mi_meta inner) (o_id op) = None)"

lemma check_entry_Ok:
  assumes ok: "indexed_ok inner" and d: "deps_closed (mi_meta inner)" and m: "meta_matches op m"
    and run: "check_entry inner topic (op, m) (tips, acc) = Ok (tips', acc')"
  shows "if unstored inner (op, m)
    then check_append (fmlookup (mi_actor_tip inner ++\<^sub>f tips) (actor_of m)) m = Ok () \<and>
      tips' = fmupd (actor_of m) (m_actor_seq m, o_id op) tips \<and> acc' = acc @ [(op, m)]
    else tips' = tips \<and> acc' = acc"
proof -
  have i: "m_id m = o_id op" using m by (simp add: meta_matches_def Let_def)
  have pair: "fmlookup (mi_ops inner) (o_id op) = None \<longleftrightarrow> fmlookup (mi_meta inner) (o_id op) = None"
    by (rule paired_None[OF indexed_okD(1)[OF ok]])
  have tip: "(case fmlookup tips (actor_of m) of Some tip \<Rightarrow> Some tip | None \<Rightarrow> fmlookup (mi_actor_tip inner) (actor_of m)) =
      fmlookup (mi_actor_tip inner ++\<^sub>f tips) (actor_of m)"
    by (cases "fmlookup tips (actor_of m)") (auto simp: fmdomI fmdom_notI)
  show ?thesis
  proof (cases "unstored inner (op, m)")
    case True
    then have none: "\<not> contains_key (mi_ops inner) (o_id op)" "\<not> contains_key (mi_meta inner) (o_id op)"
      "fmlookup (mi_actor_by_seq inner) (m_topic_id m, m_actor_id m, m_actor_seq m) \<noteq> Some (o_id op)"
      "\<not> contains_key (mi_children inner) (o_id op)"
      using accounted_iff[OF ok d, of m] pair by (auto simp: unstored_def accounted_locked_def i contains_key_def)
    have "rbind (check_append (fmlookup (mi_actor_tip inner ++\<^sub>f tips) (actor_of m)) m)
        (\<lambda>_. Ok (fmupd (actor_of m) (m_actor_seq m, o_id op) tips, acc @ [(op, m)])) = Ok (tips', acc')"
      using run none unfolding tip[symmetric]
      by (auto simp: check_entry_def Let_def actor_of_def split: if_splits option.splits)
    then show ?thesis using True by (auto simp: rbind_eq_Ok)
  next
    case False
    then have "contains_key (mi_ops inner) (o_id op)" "contains_key (mi_meta inner) (o_id op)"
      using pair by (auto simp: unstored_def contains_key_def)
    then show ?thesis using run False by (auto simp: check_entry_def Let_def split: if_splits)
  qed
qed

lemma check_entries_Ok:
  assumes ok: "indexed_ok inner" and d: "deps_closed (mi_meta inner)"
    and "\<And>op m. (op, m) \<in> set es \<Longrightarrow> meta_matches op m"
    and "fold_res (check_entry inner topic) es (tips, acc) = Ok (tips', acc')"
  shows "acc' = acc @ filter (unstored inner) es \<and> appendable (mi_actor_tip inner ++\<^sub>f tips) (filter (unstored inner) es)"
  using assms(3,4)
proof (induction es arbitrary: tips acc)
  case (Cons e es)
  obtain op m where e: "e = (op, m)" by (cases e)
  from Cons.prems(2) obtain tips1 acc1 where c: "check_entry inner topic (op, m) (tips, acc) = Ok (tips1, acc1)"
    "fold_res (check_entry inner topic) es (tips1, acc1) = Ok (tips', acc')"
    by (auto simp: e rbind_eq_Ok)
  have m: "meta_matches op m" using Cons.prems(1) by (simp add: e)
  note step = check_entry_Ok[OF ok d m c(1)]
  note IH = Cons.IH[OF _ c(2)]
  have upd: "mi_actor_tip inner ++\<^sub>f fmupd k v tips = fmupd k v (mi_actor_tip inner ++\<^sub>f tips)" for k v by simp
  show ?case
  proof (cases "unstored inner (op, m)")
    case True
    then have s: "check_append (fmlookup (mi_actor_tip inner ++\<^sub>f tips) (actor_of m)) m = Ok ()"
      "tips1 = fmupd (actor_of m) (m_actor_seq m, o_id op) tips" "acc1 = acc @ [(op, m)]"
      using step by simp_all
    show ?thesis using IH Cons.prems(1) True s(1) by (simp add: e s(2,3))
  next
    case False
    then have "tips1 = tips" "acc1 = acc" using step by simp_all
    then show ?thesis using IH Cons.prems(1) False by (simp add: e)
  qed
qed simp

section \<open>What the batch adds\<close>

lemma entry_metas_lookup:
  assumes "distinct (map (\<lambda>(op, m). o_id op) es)"
  shows "fmlookup (entry_metas es metas) i = Some m \<longleftrightarrow>
    (\<exists>op. (op, m) \<in> set es \<and> o_id op = i) \<or> fmlookup metas i = Some m \<and> i \<notin> entry_ids es"
  using assms unfolding entry_metas_def entry_ids_def
proof (induction es arbitrary: metas)
  case (Cons e es)
  obtain op n where e: "e = (op, n)" by (cases e)
  have notin: "o_id op' \<noteq> o_id op" if "(op', m') \<in> set es" for op' m' using Cons.prems that by (force simp: e)
  have "distinct (map (\<lambda>(op, m). o_id op) es)" using Cons.prems by (simp add: e)
  note IH = Cons.IH[OF this, of "fmupd (o_id op) n metas"]
  show ?case using IH notin by (auto simp: e)
qed simp

lemma entry_ids_iff: "i \<in> entry_ids es \<longleftrightarrow> (\<exists>op m. (op, m) \<in> set es \<and> o_id op = i)"
  by (force simp: entry_ids_def)

lemma appendable_distinct:
  assumes "appendable tips es" "ids_name_ops es"
    and "\<And>op m. (op, m) \<in> set es \<Longrightarrow> meta_matches op m \<and> b_topic_id (body op) = m_topic_id m"
  shows "distinct (map (\<lambda>(op, m). o_id op) es)"
  using assms
proof (induction tips es rule: appendable.induct)
  case (2 tips op m es)
  have "o_id op' \<noteq> o_id op" if in': "(op', m') \<in> set es" for op' m'
  proof
    assume "o_id op' = o_id op"
    then have same: "op' = op" using "2.prems"(2) in' by (auto simp: ids_name_ops_def)
    have "actor_of m' = actor_of m" "m_actor_seq m' = m_actor_seq m"
      using "2.prems"(3)[of op' m'] "2.prems"(3)[of op m] in' by (auto simp: same meta_matches_def actor_of_def Let_def)
    moreover have "tip_seq (fmupd (actor_of m) (m_actor_seq m, o_id op) tips) (actor_of m') < m_actor_seq m'"
      using appendable_after in' "2.prems"(1) by auto
    ultimately show False by (simp add: tip_seq_def)
  qed
  moreover have "ids_name_ops es" using "2.prems"(2) by (auto simp: ids_name_ops_def)
  moreover have "distinct (map (\<lambda>(op, m). o_id op) es)"
    using "2.IH" "2.prems" \<open>ids_name_ops es\<close> by simp
  ultimately show ?case by force
qed simp

lemma deps_closed_entries:
  assumes d: "deps_closed metas" and dist: "distinct (map (\<lambda>(op, m). o_id op) es)"
    and fresh: "\<And>i. i \<in> entry_ids es \<Longrightarrow> fmlookup metas i = None"
    and topic: "\<And>op m. (op, m) \<in> set es \<Longrightarrow> m_topic_id m = topic"
    and deps: "\<And>op m d. (op, m) \<in> set es \<Longrightarrow> d |\<in>| m_deps m \<Longrightarrow>
      d \<in> entry_ids es \<or> (\<exists>n. fmlookup metas d = Some n \<and> m_topic_id n = topic)"
  shows "deps_closed (entry_metas es metas)"
  unfolding deps_closed_def
proof (intro allI impI)
  fix i m e assume m: "fmlookup (entry_metas es metas) i = Some m" and e: "e |\<in>| m_deps m"
  note look = entry_metas_lookup[OF dist]
  have old: "fmlookup (entry_metas es metas) j = Some n" if "fmlookup metas j = Some n" for j n
    using that fresh look by force
  from m look consider op where "(op, m) \<in> set es" | "fmlookup metas i = Some m" by blast
  then show "\<exists>n. fmlookup (entry_metas es metas) e = Some n \<and> m_topic_id n = m_topic_id m"
  proof cases
    case 1
    show ?thesis
    proof (cases "e \<in> entry_ids es")
      case True
      then obtain op' n where "(op', n) \<in> set es" "o_id op' = e" by (auto simp: entry_ids_iff)
      then show ?thesis using look topic 1 by blast
    next
      case False
      then show ?thesis using deps[OF 1 e] topic[OF 1] old by auto
    qed
  next
    case 2
    then show ?thesis using d e old unfolding deps_closed_def by blast
  qed
qed

lemma frontier_entries:
  assumes d: "deps_closed metas" and dist: "distinct (map (\<lambda>(op, m). o_id op) es)"
    and fresh: "\<And>i. i \<in> entry_ids es \<Longrightarrow> fmlookup metas i = None"
    and topic: "\<And>op m. (op, m) \<in> set es \<Longrightarrow> m_topic_id m = topic \<and> m_deps m = b_deps (body op)"
    and deps: "\<And>op m d. (op, m) \<in> set es \<Longrightarrow> d |\<in>| m_deps m \<Longrightarrow>
      d \<in> entry_ids es \<or> (\<exists>n. fmlookup metas d = Some n \<and> m_topic_id n = topic)"
    and heads: "fset heads = frontier_of metas topic"
  shows "frontier_of (entry_metas es metas) t = (if t = topic then fset (next_heads heads (map fst es)) else frontier_of metas t)"
proof -
  note look = entry_metas_lookup[OF dist]
  let ?new = "entry_metas es metas"
  have consumed: "(\<exists>op \<in> set (map fst es). i |\<in>| b_deps (body op)) \<longleftrightarrow> (\<exists>op m. (op, m) \<in> set es \<and> i |\<in>| m_deps m)" for i
    using topic by force
  have next': "fset (next_heads heads (map fst es)) =
      {i. (i \<in> frontier_of metas topic \<or> i \<in> entry_ids es) \<and> \<not> (\<exists>op m. (op, m) \<in> set es \<and> i |\<in>| m_deps m)}"
    unfolding next_heads_def consumed using heads by (auto simp: fset_of_list.rep_eq entry_ids_def)
  have unused: "i |\<notin>| m_deps n" if "fmlookup metas j = Some n" "i \<in> entry_ids es" for i j n
    using d fresh[OF that(2)] that(1) unfolding deps_closed_def by (metis option.distinct(1))
  have all: "(\<forall>j n. fmlookup ?new j = Some n \<longrightarrow> i |\<notin>| m_deps n) \<longleftrightarrow>
      (\<forall>j n. fmlookup metas j = Some n \<longrightarrow> i |\<notin>| m_deps n) \<and> \<not> (\<exists>op m. (op, m) \<in> set es \<and> i |\<in>| m_deps m)" for i
    unfolding look using fresh by (metis option.distinct(1))
  have mem: "i \<in> with_meta ?new (\<lambda>m. m_topic_id m = t) \<longleftrightarrow>
      i \<in> with_meta metas (\<lambda>m. m_topic_id m = t) \<or> t = topic \<and> i \<in> entry_ids es" for i
    unfolding with_meta_def look using fresh topic by (auto simp: entry_ids_iff) (metis option.distinct(1))+
  have f: "i \<in> frontier_of ?new t \<longleftrightarrow> (i \<in> with_meta metas (\<lambda>m. m_topic_id m = t) \<or> t = topic \<and> i \<in> entry_ids es) \<and>
      (\<forall>j n. fmlookup metas j = Some n \<longrightarrow> i |\<notin>| m_deps n) \<and> \<not> (\<exists>op m. (op, m) \<in> set es \<and> i |\<in>| m_deps m)" for i
    unfolding frontier_of_def mem_Collect_eq mem all ..
  show ?thesis
  proof (cases "t = topic")
    case True
    show ?thesis
    proof (rule set_eqI)
      fix i show "i \<in> frontier_of ?new t \<longleftrightarrow> i \<in> (if t = topic then fset (next_heads heads (map fst es)) else frontier_of metas t)"
        unfolding f next' using True unused by (auto simp: frontier_of_def)
    qed
  next
    case False
    have "\<not> (\<exists>op m. (op, m) \<in> set es \<and> i |\<in>| m_deps m)" if i: "i \<in> with_meta metas (\<lambda>m. m_topic_id m = t)" for i
    proof
      assume "\<exists>op m. (op, m) \<in> set es \<and> i |\<in>| m_deps m"
      then obtain op m where "(op, m) \<in> set es" "i |\<in>| m_deps m" by blast
      from deps[OF this] show False using i fresh False by (auto simp: with_meta_def)
    qed
    then show ?thesis using False f by (auto simp: frontier_of_def)
  qed
qed

end
