(* ===== verification/Memory_Store.thy ===== *)
theory Memory_Store
  imports Memory_Admission
begin

text \<open>
  The invariant of the in-memory store and that its admissions, resets and evidence writes keep it:
  records come in pairs, every index is exact, actor chains have no gap, clocks and frontiers are the
  ones the records imply, and the pool holds nothing that is stored.
\<close>

section \<open>Evidence\<close>

definition obligation_at :: "topic_id \<Rightarrow> peer_id \<Rightarrow> obligation_kind \<Rightarrow> sync_obligation \<Rightarrow> bool" where
  "obligation_at t p k ob \<longleftrightarrow> ob_topic_id ob = t \<and> ob_peer_id ob = p \<and> kind_of ob = k \<and> \<not> obligation_is_empty ob"

definition obligations_ok :: "(topic_id \<times> peer_id, (obligation_kind, sync_obligation) btree_map) btree_map \<Rightarrow> bool" where
  "obligations_ok obs \<longleftrightarrow> (\<forall>t p records. fmlookup obs (t, p) = Some records \<longrightarrow>
    records \<noteq> fmempty \<and> (\<forall>k ob. fmlookup records k = Some ob \<longrightarrow> obligation_at t p k ob))"

definition evidence_ok :: "memory_inner \<Rightarrow> bool" where
  "evidence_ok inner \<longleftrightarrow> obligations_ok (mi_obligations inner) \<and>
    (\<forall>p t a. fmlookup (mi_peer_acks inner) (p, t) = Some a \<longrightarrow> ack_peer_id a = p \<and> ack_topic_id a = t) \<and>
    (\<forall>t p s. fmlookup (mi_sync_statuses inner) (t, p) = Some s \<longrightarrow> st_topic_id s = t \<and> st_peer_id s = p)"

lemma evidence_okD:
  assumes "evidence_ok inner"
  shows "obligations_ok (mi_obligations inner)"
    "fmlookup (mi_peer_acks inner) (p, t) = Some a \<Longrightarrow> ack_peer_id a = p \<and> ack_topic_id a = t"
    "fmlookup (mi_sync_statuses inner) (t, p) = Some s \<Longrightarrow> st_topic_id s = t \<and> st_peer_id s = p"
  using assms by (auto simp: evidence_ok_def)

lemma obligations_okD: "obligations_ok obs \<Longrightarrow> fmlookup obs (t, p) = Some records \<Longrightarrow> fmlookup records k = Some ob \<Longrightarrow> obligation_at t p k ob"
  by (auto simp: obligations_ok_def)

lemma merge_nonempty: "\<not> clock_is_empty b \<Longrightarrow> \<not> clock_is_empty (clock_merge a b)"
  by (auto simp: clock_is_empty_iff fun_eq_iff split: option.splits)

lemma merged_obligation_at:
  assumes "merged_obligation existing ob = Ok merged" "\<not> obligation_is_empty ob"
    and "\<And>old. existing = Some old \<Longrightarrow> obligation_at (ob_topic_id ob) (ob_peer_id ob) (kind_of ob) old"
  shows "obligation_at (ob_topic_id ob) (ob_peer_id ob) (kind_of ob) merged"
proof (cases existing)
  case None
  then show ?thesis using assms(1,2) by (auto simp: merged_obligation_def obligation_at_def split: if_splits)
next
  case (Some old)
  show ?thesis
    using assms(1,2) assms(3)[OF Some] merge_nonempty
    by (cases "ob_target old"; cases "ob_target ob")
      (auto simp: merged_obligation_def Some obligation_at_def kind_of_def obligation_is_empty_def Let_def split: if_splits)
qed

lemma merged_locked_at:
  assumes "obligations_ok (mi_obligations inner)" "merged_obligation_locked inner ob = Ok merged" "\<not> obligation_is_empty ob"
  shows "obligation_at (ob_topic_id ob) (ob_peer_id ob) (kind_of ob) merged"
  using assms(2) unfolding merged_obligation_locked_def
  by (rule merged_obligation_at[OF _ assms(3)]) (use obligations_okD[OF assms(1)] in \<open>auto split: bind_splits\<close>)

lemma put_obligation_ok:
  "evidence_ok inner \<Longrightarrow> evidence_ok (put_obligation_locked ob inner)"
  unfolding put_obligation_locked_def evidence_ok_def obligations_ok_def
  by (auto simp: get_or_def obligation_at_def split: option.splits if_splits)

definition outside_evidence :: "memory_inner \<Rightarrow> memory_inner" where
  "outside_evidence inner = inner\<lparr>mi_obligations := fmempty, mi_peer_acks := fmempty, mi_sync_statuses := fmempty\<rparr>"

lemma put_obligation_outside [simp]: "outside_evidence (put_obligation_locked ob inner) = outside_evidence inner"
  by (simp add: put_obligation_locked_def outside_evidence_def)

lemma forget_peer_outside [simp]: "outside_evidence (forget_peer t p inner) = outside_evidence inner"
  by (simp add: forget_peer_def outside_evidence_def)

lemma forget_peer_ok: "evidence_ok inner \<Longrightarrow> evidence_ok (forget_peer t p inner)"
  by (auto simp: forget_peer_def evidence_ok_def obligations_ok_def)

lemma put_obligations_ok:
  "outside_evidence (fold (\<lambda>(_, ob). put_obligation_locked ob) es inner) = outside_evidence inner \<and>
    (evidence_ok inner \<longrightarrow> evidence_ok (fold (\<lambda>(_, ob). put_obligation_locked ob) es inner))"
  by (induction es arbitrary: inner) (auto simp: put_obligation_ok)

lemma forget_peers_ok:
  "outside_evidence (fold (forget_peer t) ps inner) = outside_evidence inner \<and>
    (evidence_ok inner \<longrightarrow> evidence_ok (fold (forget_peer t) ps inner))"
  by (induction ps arbitrary: inner) (auto simp: forget_peer_ok)

section \<open>The invariant\<close>

definition core_ok :: "externals \<Rightarrow> memory_inner \<Rightarrow> bool" where
  "core_ok x inner \<longleftrightarrow> indexed_ok inner \<and> deps_closed (mi_meta inner) \<and>
    (\<forall>t. fset (get_or {||} (mi_heads inner) t) = frontier_of (mi_meta inner) t) \<and>
    (\<forall>t. clock_at (mi_actor_tip inner) t (get_or clock_new (mi_actor_clock inner) t)) \<and>
    (\<forall>t s. fmlookup (mi_topics inner) t = Some s \<longrightarrow> t_topic_id s = t) \<and>
    (\<forall>t r. fmlookup (mi_rejected inner) t = Some r \<longrightarrow> rejected_ok r \<and> length (rj_order r) \<le> MAX_REJECTED_PER_TOPIC) \<and>
    fcard (fmdom (mi_evictions inner)) \<le> MAX_PENDING_EVICTIONS \<and>
    (\<forall>i op. fmlookup (mi_ops inner) i = Some op \<longrightarrow> x_op_size x op \<noteq> None)"

definition store_ok :: "externals \<Rightarrow> memory_inner \<Rightarrow> bool" where
  "store_ok x inner \<longleftrightarrow> core_ok x inner \<and> evidence_ok inner"

lemma core_okD:
  assumes "core_ok x inner"
  shows "indexed_ok inner" "deps_closed (mi_meta inner)"
    "fset (get_or {||} (mi_heads inner) t) = frontier_of (mi_meta inner) t"
    "clock_at (mi_actor_tip inner) t (get_or clock_new (mi_actor_clock inner) t)"
    "fmlookup (mi_topics inner) t = Some s \<Longrightarrow> t_topic_id s = t"
    "fmlookup (mi_rejected inner) t = Some r \<Longrightarrow> rejected_ok r \<and> length (rj_order r) \<le> MAX_REJECTED_PER_TOPIC"
    "fcard (fmdom (mi_evictions inner)) \<le> MAX_PENDING_EVICTIONS"
    "fmlookup (mi_ops inner) i = Some op \<Longrightarrow> x_op_size x op \<noteq> None"
  using assms by (auto simp: core_ok_def)

lemma core_ok_cong: "outside_evidence a = outside_evidence b \<Longrightarrow> core_ok x a = core_ok x b"
proof -
  have "core_ok x (outside_evidence a) = core_ok x a" for a
    by (simp add: core_ok_def indexed_ok_def outside_evidence_def pool_ok_def)
  then show "outside_evidence a = outside_evidence b \<Longrightarrow> core_ok x a = core_ok x b" by metis
qed

lemma store_ok_new [simp]: "store_ok x inner_new"
proof -
  have "indexed_ok inner_new"
    by (simp add: indexed_ok_def) (simp add: inner_new_def paired_def topics_indexed_def children_indexed_def with_meta_def
      slots_indexed_def chained_def chain_at_def generations_ok_def fresh_pool_def)
  then show ?thesis
    by (simp add: store_ok_def core_ok_def evidence_ok_def obligations_ok_def)
      (simp add: inner_new_def deps_closed_def frontier_of_def with_meta_def clock_at_def tip_seq_def fcard.rep_eq)
qed

section \<open>Admission\<close>

text \<open>
  The contract of a batch: identifiers name operations, and dependencies lie in the batch's topic.
  The operation log checks both before it builds a batch.
\<close>

definition batch_ok :: "memory_inner \<Rightarrow> admitted_batch \<Rightarrow> bool" where
  "batch_ok inner batch \<longleftrightarrow> ids_name_ops (ab_entries batch) \<and>
    (\<forall>(op, m) \<in> set (ab_entries batch). \<forall>d n. d |\<in>| m_deps m \<longrightarrow> fmlookup (mi_meta inner) d = Some n \<longrightarrow>
      m_topic_id n = ab_topic_id batch)"

lemma plan_admissionE:
  assumes "plan_admission x fingerprint budget batch quota inner = Ok plan"
  obtains tips genesis where "validate_batch batch = Ok ()"
    "get_or {||} (mi_heads inner) (ab_topic_id batch) = ab_expected_heads batch"
    "topic_state_locked inner (ab_topic_id batch) = ab_expected_topic_state batch"
    "validate_heads batch (\<lambda>m. Ok (accounted_locked inner m)) = Ok ()"
    "fold_res (merge_effect inner (ab_topic_id batch) genesis) (ef_sync_obligations (ab_effects batch)) fmempty = Ok (pl_effects plan)"
    "fold_res (check_entry inner (ab_topic_id batch)) (ab_entries batch) (fmempty, []) = Ok (tips, pl_new_entries plan)"
    "ensure_deps_resolvable (pl_new_entries plan) (\<lambda>dep. Ok (dep_resolvable_locked inner dep)) = Ok ()"
    "fold_res (project_entry x budget) (pl_new_entries plan) (get_or clock_new (mi_actor_clock inner) (ab_topic_id batch)) = Ok (pl_projected plan)"
    "fingerprint (ab_heads batch) (pl_projected plan) = Ok (pl_fingerprint plan)"
    "pl_removed_peers plan = removed_peers batch"
  using assms unfolding plan_admission_def Let_def
  by (auto simp: rbind_eq_Ok split: if_splits prod.splits)

lemma merge_effects_at:
  assumes ok: "obligations_ok (mi_obligations inner)" and "fold_res (merge_effect inner topic genesis) obs effects = Ok effects'"
    and "\<And>p k ob. fmlookup effects (p, k) = Some ob \<Longrightarrow> obligation_at topic p k ob"
  shows "fmlookup effects' (p, k) = Some ob \<Longrightarrow> obligation_at topic p k ob"
  using assms(2,3)
proof (induction obs arbitrary: effects)
  case (Cons o' obs)
  from Cons.prems(2) obtain eff1 where e: "merge_effect inner topic genesis o' effects = Ok eff1"
    "fold_res (merge_effect inner topic genesis) obs eff1 = Ok effects'" by (auto simp: rbind_eq_Ok)
  have "obligation_at topic q l ob1" if l: "fmlookup eff1 (q, l) = Some ob1" for q l ob1
  proof (cases "obligation_is_empty o' \<or> ack_covers (fmlookup (mi_peer_acks inner) (ob_peer_id o', topic)) genesis o'")
    case True
    then show ?thesis using e(1) l Cons.prems(3) by (auto simp: merge_effect_def Let_def split: if_splits)
  next
    case False
    then obtain merged where m: "ob_topic_id o' = topic" "eff1 = fmupd (ob_peer_id o', kind_of o') merged effects"
      "(case fmlookup effects (ob_peer_id o', kind_of o') of Some pending \<Rightarrow> merged_obligation (Some pending) o'
        | None \<Rightarrow> merged_obligation_locked inner o') = Ok merged"
      using e(1) by (auto simp: merge_effect_def Let_def rbind_eq_Ok split: if_splits)
    have "obligation_at topic (ob_peer_id o') (kind_of o') merged"
    proof (cases "fmlookup effects (ob_peer_id o', kind_of o')")
      case None
      then show ?thesis using m(1,3) merged_locked_at[OF ok] False by auto
    next
      case (Some old)
      then show ?thesis using m(1,3) merged_obligation_at[of "Some old" o' merged] False Cons.prems(3)[OF Some] by simp
    qed
    then show ?thesis using l Cons.prems(3) by (auto simp: m(2) split: if_splits)
  qed
  then show ?case using Cons.IH[OF Cons.prems(1) e(2)] by blast
qed simp

lemma project_entries:
  assumes "fold_res (project_entry x budget) es c = Ok c'" "appendable tips es" "clock_at tips topic c"
    and "\<And>op m. (op, m) \<in> set es \<Longrightarrow> m_topic_id m = topic"
  shows "clock_at (entry_tips es tips) topic c' \<and> (\<forall>(op, m) \<in> set es. x_op_size x op \<noteq> None)"
  using assms
proof (induction es arbitrary: c tips)
  case (Cons e es)
  obtain op m where e: "e = (op, m)" by (cases e)
  from Cons.prems(1) have run: "fold_res (project_entry x budget) es (clock_observe c (m_actor_id m) (m_actor_seq m)) = Ok c'"
    and size: "x_op_size x op \<noteq> None"
    by (auto simp: e project_entry_def rbind_eq_Ok pending_op_bytes_def result_simps)
  have at: "clock_at (fmupd (actor_of m) (m_actor_seq m, o_id op) tips) topic (clock_observe c (m_actor_id m) (m_actor_seq m))"
    using Cons.prems(2-4) by (intro clock_at_append) (auto simp: e)
  have app: "appendable (fmupd (actor_of m) (m_actor_seq m, o_id op) tips) es" using Cons.prems(2) by (simp add: e)
  have "\<And>op m. (op, m) \<in> set es \<Longrightarrow> m_topic_id m = topic" using Cons.prems(4) by auto
  from Cons.IH[OF run app at this] show ?case using size by (simp add: e entry_tips_def)
qed (simp add: entry_tips_def)

lemma entry_tips_other:
  assumes "\<And>op m. (op, m) \<in> set es \<Longrightarrow> m_topic_id m = topic" "t \<noteq> topic"
  shows "fmlookup (entry_tips es tips) (t, a) = fmlookup tips (t, a)"
  using assms(1) unfolding entry_tips_def
proof (induction es arbitrary: tips)
  case (Cons e es)
  obtain op m where e: "e = (op, m)" by (cases e)
  then have "actor_of m \<noteq> (t, a)" using Cons.prems assms(2) by (auto simp: actor_of_def)
  moreover have "\<And>op m. (op, m) \<in> set es \<Longrightarrow> m_topic_id m = topic" using Cons.prems by auto
  note Cons.IH[OF this]
  ultimately show ?case by (simp add: e)
qed simp

lemma entry_ops_lookup: "fmlookup (entry_ops es ops) i = Some op \<Longrightarrow> (\<exists>m. (op, m) \<in> set es) \<or> fmlookup ops i = Some op"
  unfolding entry_ops_def by (induction es arbitrary: ops) (fastforce split: if_splits)+

text \<open>What the plan says of the entries it kept.\<close>

lemma plan_entries:
  assumes ok: "core_ok x inner" and plan: "plan_admission x fingerprint budget batch quota inner = Ok plan"
    and b: "batch_ok inner batch"
  defines "es \<equiv> pl_new_entries plan" and "topic \<equiv> ab_topic_id batch"
  shows "es = filter (unstored inner) (ab_entries batch)" "appendable (mi_actor_tip inner) es" "ids_name_ops es"
    "\<And>op m. (op, m) \<in> set es \<Longrightarrow> meta_matches op m \<and> b_topic_id (body op) = m_topic_id m \<and> m_topic_id m = topic \<and>
      m_deps m = b_deps (body op)"
    "\<And>i. i \<in> entry_ids es \<Longrightarrow> fmlookup (mi_meta inner) i = None" "distinct (map (\<lambda>(op, m). o_id op) es)"
    "\<And>op m d. (op, m) \<in> set es \<Longrightarrow> d |\<in>| m_deps m \<Longrightarrow>
      d \<in> entry_ids es \<or> (\<exists>n. fmlookup (mi_meta inner) d = Some n \<and> m_topic_id n = topic)"
    "ab_heads batch = next_heads (ab_expected_heads batch) (map fst es)"
proof -
  obtain tips where p: "validate_batch batch = Ok ()"
    "validate_heads batch (\<lambda>m. Ok (accounted_locked inner m)) = Ok ()"
    "fold_res (check_entry inner topic) (ab_entries batch) (fmempty, []) = Ok (tips, es)"
    "ensure_deps_resolvable es (\<lambda>dep. Ok (dep_resolvable_locked inner dep)) = Ok ()"
    by (rule plan_admissionE[OF plan]) (auto simp: es_def topic_def)
  have valid: "b_topic_id (body op) = topic" "m_topic_id m = topic" "meta_matches op m" if "(op, m) \<in> set (ab_entries batch)" for op m
    using p(1) that unfolding validate_batch_Ok_iff by (auto simp: topic_def)
  note ix = core_okD(1)[OF ok] and dc = core_okD(2)[OF ok]
  have c: "es = [] @ filter (unstored inner) (ab_entries batch) \<and>
      appendable (mi_actor_tip inner ++\<^sub>f fmempty) (filter (unstored inner) (ab_entries batch))"
    by (rule check_entries_Ok[OF ix dc _ p(3)]) (use valid in auto)
  then show es: "es = filter (unstored inner) (ab_entries batch)" by simp
  then show app: "appendable (mi_actor_tip inner) es" using c by simp
  show ids: "ids_name_ops es" using b by (auto simp: batch_ok_def ids_name_ops_def es)
  show m: "meta_matches op m \<and> b_topic_id (body op) = m_topic_id m \<and> m_topic_id m = topic \<and> m_deps m = b_deps (body op)"
    if "(op, m) \<in> set es" for op m
    using valid[of op m] that by (auto simp: es meta_matches_def Let_def)
  show "fmlookup (mi_meta inner) i = None" if "i \<in> entry_ids es" for i
    using that by (auto simp: entry_ids_iff es unstored_def)
  show "distinct (map (\<lambda>(op, m). o_id op) es)"
    by (rule appendable_distinct[OF app ids]) (use m in blast)
  show "d \<in> entry_ids es \<or> (\<exists>n. fmlookup (mi_meta inner) d = Some n \<and> m_topic_id n = topic)"
    if "(op, m) \<in> set es" "d |\<in>| m_deps m" for op m d
  proof -
    have "d \<in> o_id ` fst ` set es \<or> dep_resolvable_locked inner d"
      using p(4) that unfolding ensure_deps_resolvable_Ok_iff[of _ "dep_resolvable_locked inner", OF refl] by blast
    then show ?thesis using b that by (auto simp: batch_ok_def es dep_resolvable_locked_def contains_key_def entry_ids_def topic_def)
  qed
  have acc: "accounted_locked inner m \<longleftrightarrow> \<not> unstored inner (op, m)" if "(op, m) \<in> set (ab_entries batch)" for op m
    using accounted_iff[OF ix dc, of m] valid(3)[OF that] by (auto simp: unstored_def meta_matches_def Let_def)
  have "filter (\<lambda>(op, m). \<not> accounted_locked inner m) (ab_entries batch) = es"
    unfolding es by (intro filter_cong) (use acc in auto)
  then show "ab_heads batch = next_heads (ab_expected_heads batch) (map fst es)"
    using p(2) unfolding validate_heads_Ok_iff[of batch _ "accounted_locked inner", OF refl] by simp
qed

lemma admit_batch_ok:
  assumes ok: "store_ok x inner" and plan: "plan_admission x fingerprint budget batch quota inner = Ok plan"
    and b: "batch_ok inner batch"
  obtains inner' where "apply_admission batch plan inner = Ok inner'" "store_ok x inner'"
    "mi_meta inner' = entry_metas (pl_new_entries plan) (mi_meta inner)"
    "mi_ops inner' = entry_ops (pl_new_entries plan) (mi_ops inner)"
    "mi_heads inner' = fmupd (ab_topic_id batch) (ab_heads batch) (mi_heads inner)"
    "mi_topics inner' = (case ab_topic_state batch of None \<Rightarrow> mi_topics inner
      | Some state \<Rightarrow> fmupd (ab_topic_id batch) state (mi_topics inner))"
    "mi_evictions inner' = mi_evictions inner"
proof -
  let ?es = "pl_new_entries plan" and ?topic = "ab_topic_id batch"
  have core: "core_ok x inner" and ev: "evidence_ok inner" using ok by (simp_all add: store_ok_def)
  note e = plan_entries[OF core plan b]
  obtain tips genesis where p: "validate_batch batch = Ok ()"
    "get_or {||} (mi_heads inner) ?topic = ab_expected_heads batch"
    "fold_res (project_entry x budget) ?es (get_or clock_new (mi_actor_clock inner) ?topic) = Ok (pl_projected plan)"
    by (rule plan_admissionE[OF plan])
  define in0 where "in0 = inner\<lparr>mi_admitted_bytes := pl_admitted_bytes plan\<rparr>"
  have same: "mi_meta in0 = mi_meta inner" "mi_ops in0 = mi_ops inner" "mi_actor_tip in0 = mi_actor_tip inner"
    "outside_index in0 = (outside_index inner)\<lparr>mi_admitted_bytes := pl_admitted_bytes plan\<rparr>"
    by (simp_all add: in0_def outside_index_def outside_pool_def)
  have ix0: "indexed_ok in0"
    using core_okD(1)[OF core] by (simp add: in0_def indexed_ok_def pool_ok_def)
  have "\<exists>in1. fold_res admit_entry ?es in0 = Ok in1 \<and> indexed_ok in1 \<and>
    mi_meta in1 = entry_metas ?es (mi_meta in0) \<and> mi_ops in1 = entry_ops ?es (mi_ops in0) \<and>
    mi_actor_tip in1 = entry_tips ?es (mi_actor_tip in0) \<and> outside_index in1 = outside_index in0"
  proof (rule admit_entries_ok[OF ix0 _ e(3)])
    fix op m assume i: "(op, m) \<in> set ?es"
    then have "o_id op \<in> entry_ids ?es" by (auto simp: entry_ids_iff)
    then show "fmlookup (mi_meta in0) (o_id op) = None \<and> meta_matches op m \<and> b_topic_id (body op) = m_topic_id m"
      using e(4)[OF i] e(5) by (simp add: same)
  qed (use e(2) in \<open>simp add: same\<close>)
  then obtain in1 where in1: "fold_res admit_entry ?es in0 = Ok in1" "indexed_ok in1"
    "mi_meta in1 = entry_metas ?es (mi_meta inner)" "mi_ops in1 = entry_ops ?es (mi_ops inner)"
    "mi_actor_tip in1 = entry_tips ?es (mi_actor_tip inner)" "outside_index in1 = outside_index in0"
    by (auto simp: same)
  note f = outside_indexD[OF in1(6)]
  define in2 where "in2 = in1\<lparr>mi_actor_clock := fmupd ?topic (pl_projected plan) (mi_actor_clock in1),
      mi_heads := fmupd ?topic (ab_heads batch) (mi_heads in1),
      mi_fingerprint := fmupd ?topic (pl_fingerprint plan) (mi_fingerprint in1),
      mi_topics := (case ab_topic_state batch of None \<Rightarrow> mi_topics in1
        | Some state \<Rightarrow> fmupd (t_topic_id state) state (mi_topics in1))\<rparr>"
  define in3 where "in3 = fold (\<lambda>(_, ob). put_obligation_locked ob) (iter_map (pl_effects plan)) in2"
  define inner' where "inner' = fold (forget_peer ?topic) (pl_removed_peers plan) in3"
  have run: "apply_admission batch plan inner = Ok inner'"
    by (simp add: apply_admission_def Let_def in0_def[symmetric] in1(1) in2_def in3_def inner'_def)
  have heads: "fset (get_or {||} (mi_heads in2) t) = frontier_of (mi_meta in2) t" for t
  proof -
    have "frontier_of (mi_meta in2) t = (if t = ?topic then fset (next_heads (ab_expected_heads batch) (map fst ?es)) else frontier_of (mi_meta inner) t)"
      unfolding in2_def using frontier_entries[OF core_okD(2)[OF core] e(6,5) _ e(7), where heads = "ab_expected_heads batch" and t = t]
        core_okD(3)[OF core, of ?topic] p(2) e(4) by (simp add: in1(3))
    then show ?thesis using core_okD(3)[OF core, of t] e(8) f(1) by (simp add: in2_def in0_def)
  qed
  have clocks: "clock_at (mi_actor_tip in2) t (get_or clock_new (mi_actor_clock in2) t)" for t
  proof (cases "t = ?topic")
    case True
    then show ?thesis
      using project_entries[OF p(3) e(2) core_okD(4)[OF core]] e(4) by (simp add: in2_def in1(5))
  next
    case False
    then show ?thesis using core_okD(4)[OF core, of t] entry_tips_other[of ?es ?topic t] e(4) f(2)
      by (simp add: in2_def in1(5) clock_at_def tip_seq_def in0_def)
  qed
  have sized: "x_op_size x op \<noteq> None" if "fmlookup (mi_ops in2) i = Some op" for i op
  proof -
    from that have "(\<exists>m. (op, m) \<in> set ?es) \<or> fmlookup (mi_ops inner) i = Some op"
      by (simp add: in2_def in1(4) entry_ops_lookup)
    then show ?thesis using project_entries[OF p(3) e(2) core_okD(4)[OF core]] e(4) core_okD(8)[OF core] by blast
  qed
  have closed: "deps_closed (mi_meta in2)"
    unfolding in2_def using deps_closed_entries[OF core_okD(2)[OF core] e(6,5) _ e(7)] e(4) by (simp add: in1(3))
  have topics: "t_topic_id s = t" if "fmlookup (mi_topics in2) t = Some s" for t s
    using that core_okD(5)[OF core] f(4) by (auto simp: in2_def in0_def split: option.splits if_splits)
  have ix2: "indexed_ok in2" using in1(2) by (simp add: in2_def indexed_ok_def pool_ok_def)
  have "core_ok x in2"
    unfolding core_ok_def
    using ix2 closed heads clocks topics sized core_okD(6,7)[OF core] f(5,9) by (auto simp: in2_def in0_def)
  moreover have "evidence_ok in2"
    using ev f(6-8) by (simp add: in2_def evidence_ok_def in0_def)
  moreover have o3: "outside_evidence in3 = outside_evidence in2" and o': "outside_evidence inner' = outside_evidence in3"
    unfolding in3_def inner'_def using put_obligations_ok forget_peers_ok by blast+
  ultimately have "store_ok x inner'"
    using put_obligations_ok forget_peers_ok core_ok_cong[of inner' in2] unfolding store_ok_def in3_def inner'_def by metis
  have out: "outside_evidence inner' = outside_evidence in2" using o3 o' by simp
  have fin: "mi_meta inner' = mi_meta in2" "mi_ops inner' = mi_ops in2" "mi_heads inner' = mi_heads in2"
    "mi_topics inner' = mi_topics in2" "mi_evictions inner' = mi_evictions in2"
    using arg_cong[OF out, of mi_meta] arg_cong[OF out, of mi_ops] arg_cong[OF out, of mi_heads]
      arg_cong[OF out, of mi_topics] arg_cong[OF out, of mi_evictions] by (simp_all add: outside_evidence_def)
  have tid: "t_topic_id s = ?topic" if "ab_topic_state batch = Some s" for s
    using p(1) that by (simp add: validate_batch_Ok_iff)
  show thesis
    by (rule that[OF run \<open>store_ok x inner'\<close>])
      (use f(1,4,9) tid in \<open>auto simp: fin in2_def in1(3,4) in0_def split: option.splits\<close>)
qed

section \<open>Reset\<close>

definition children_after :: "metas \<Rightarrow> op_id set \<Rightarrow> op_id \<Rightarrow> op_id set" where
  "children_after metas D d = (if d \<in> D then {} else with_meta metas (\<lambda>m. d |\<in>| m_deps m) - D)"

text \<open>Everything of a store but what dropping operations writes.\<close>

definition outside_drop :: "memory_inner \<Rightarrow> memory_inner" where
  "outside_drop inner = inner\<lparr>mi_ops := fmempty, mi_meta := fmempty, mi_children := fmempty, mi_admitted_bytes := 0\<rparr>"

lemma drop_op_ok:
  assumes meta: "mi_meta inner = fmfilter (\<lambda>j. j \<notin> D) metas" and ops: "mi_ops inner = fmfilter (\<lambda>j. j \<notin> D) ops"
    and children: "index_ok (mi_children inner) (children_after metas D)" and i: "i \<notin> D"
    and sized: "\<And>j op. fmlookup ops j = Some op \<Longrightarrow> x_op_size x op \<noteq> None"
  obtains inner' where "drop_op x i inner = Ok inner'" "mi_meta inner' = fmfilter (\<lambda>j. j \<notin> insert i D) metas"
    "mi_ops inner' = fmfilter (\<lambda>j. j \<notin> insert i D) ops" "index_ok (mi_children inner') (children_after metas (insert i D))"
    "outside_drop inner' = outside_drop inner"
proof -
  let ?deps = "case fmlookup (mi_meta inner) i of None \<Rightarrow> {||} | Some m \<Rightarrow> m_deps m"
  let ?children = "fold (\<lambda>dep. drop_member dep i) (iter_set ?deps) (mi_children inner)"
  have "\<exists>bytes. (if mi_admitted_bytes inner > 0
       then (case fmlookup (mi_ops inner) i of
           None \<Rightarrow> Ok (mi_admitted_bytes inner)
         | Some op \<Rightarrow> rbind (pending_op_bytes x op) (\<lambda>refund. Ok (saturating_sub (mi_admitted_bytes inner) refund)))
       else Ok (mi_admitted_bytes inner)) = (Ok bytes :: u64 result)"
    using sized[of i] i by (cases "fmlookup ops i") (auto simp: ops pending_op_bytes_def ok_or_def)
  then obtain bytes where bytes: "(if mi_admitted_bytes inner > 0
       then (case fmlookup (mi_ops inner) i of
           None \<Rightarrow> Ok (mi_admitted_bytes inner)
         | Some op \<Rightarrow> rbind (pending_op_bytes x op) (\<lambda>refund. Ok (saturating_sub (mi_admitted_bytes inner) refund)))
       else Ok (mi_admitted_bytes inner)) = (Ok bytes :: u64 result)" by blast
  define inner' where "inner' = inner\<lparr>mi_admitted_bytes := bytes, mi_ops := fmdrop i (mi_ops inner),
      mi_meta := fmdrop i (mi_meta inner), mi_children := fmdrop i ?children\<rparr>"
  have run: "drop_op x i inner = Ok inner'" unfolding drop_op_def Let_def bytes by (simp add: inner'_def)
  have f: "fmdrop i (fmfilter (\<lambda>j. j \<notin> D) m) = fmfilter (\<lambda>j. j \<notin> insert i D) m" for m :: "(op_id, 'b) btree_map"
    by (intro fmap_ext) auto
  have deps: "i \<notin> with_meta metas (\<lambda>m. d |\<in>| m_deps m)" if "d |\<notin>| ?deps" for d
    using that i by (auto simp: meta with_meta_def)
  have "index_ok (fmdrop i ?children) ((\<lambda>d. if d \<in> set (iter_set ?deps) then children_after metas D d - {i} else children_after metas D d)(i := {}))"
    by (rule index_drop_key[OF index_fold_drop[OF children]])
  then have "index_ok (fmdrop i ?children) (children_after metas (insert i D))"
    by (rule index_cong) (use deps in \<open>auto simp: children_after_def\<close>)
  then show thesis using that[OF run] by (simp add: inner'_def meta ops f outside_drop_def)
qed

lemma drop_ops_ok:
  assumes "mi_meta inner = fmfilter (\<lambda>j. j \<notin> D) metas" "mi_ops inner = fmfilter (\<lambda>j. j \<notin> D) ops"
    "index_ok (mi_children inner) (children_after metas D)" "set is \<inter> D = {}" "distinct is"
    and sized: "\<And>j op. fmlookup ops j = Some op \<Longrightarrow> x_op_size x op \<noteq> None"
  shows "\<exists>inner'. fold_res (drop_op x) is inner = Ok inner' \<and> mi_meta inner' = fmfilter (\<lambda>j. j \<notin> set is \<union> D) metas \<and>
    mi_ops inner' = fmfilter (\<lambda>j. j \<notin> set is \<union> D) ops \<and> index_ok (mi_children inner') (children_after metas (set is \<union> D)) \<and>
    outside_drop inner' = outside_drop inner"
  using assms(1-5)
proof (induction "is" arbitrary: inner D)
  case (Cons i "is")
  obtain in1 where in1: "drop_op x i inner = Ok in1" "mi_meta in1 = fmfilter (\<lambda>j. j \<notin> insert i D) metas"
    "mi_ops in1 = fmfilter (\<lambda>j. j \<notin> insert i D) ops" "index_ok (mi_children in1) (children_after metas (insert i D))"
    "outside_drop in1 = outside_drop inner"
    by (rule drop_op_ok[OF Cons.prems(1-3) _ sized]) (use Cons.prems(4) in auto)
  have "set is \<inter> insert i D = {}" "distinct is" "set is \<union> insert i D = set (i # is) \<union> D" using Cons.prems(4,5) by auto
  then show ?case using Cons.IH[OF in1(2-4)] by (simp add: in1(1,5))
qed simp

lemma reset_topic_ok:
  assumes ok: "store_ok x inner" and budget: "budget (TopicMetadata topic) = Ok ()"
  obtains inner' where
    "reset_topic_locked x budget topic inner = Ok (card (with_meta (mi_meta inner) (\<lambda>m. m_topic_id m = topic)), inner')"
    "store_ok x inner'" "mi_meta inner' = other_topics topic (mi_meta inner)"
    "mi_ops inner' = fmfilter (\<lambda>i. i \<notin> with_meta (mi_meta inner) (\<lambda>m. m_topic_id m = topic)) (mi_ops inner)"
    "mi_topics inner' = fmdrop topic (mi_topics inner)" "mi_heads inner' = fmdrop topic (mi_heads inner)"
    "mi_pending_records inner' = fmfilter (\<lambda>i. i \<notin> held (mi_pending_records inner) (\<lambda>r. pr_topic_id r = topic)) (mi_pending_records inner)"
    "mi_epochs inner' = modify_or 0 (\<lambda>e. e + 1) topic (mi_epochs inner)" "mi_evictions inner' = mi_evictions inner"
    "mi_sealed inner' = mi_sealed inner"
    "mi_obligations inner' = fmfilter (\<lambda>(t, _). t \<noteq> topic) (mi_obligations inner)"
    "mi_peer_acks inner' = fmfilter (\<lambda>(_, t). t \<noteq> topic) (mi_peer_acks inner)"
proof -
  let ?D = "with_meta (mi_meta inner) (\<lambda>m. m_topic_id m = topic)" and ?ids = "get_or {||} (mi_topic_ops inner) topic"
  have core: "core_ok x inner" and ev: "evidence_ok inner" using ok by (simp_all add: store_ok_def)
  note ix = indexed_okD[OF core_okD(1)[OF core]]
  have ids: "fset ?ids = ?D" using index_get[OF ix(2)[unfolded topics_indexed_def]] .
  define in0 where "in0 = inner\<lparr>mi_epochs := modify_or 0 (\<lambda>e. e + 1) topic (mi_epochs inner),
      mi_topic_ops := fmdrop topic (mi_topic_ops inner)\<rparr>"
  have start: "mi_meta in0 = fmfilter (\<lambda>j. j \<notin> {}) (mi_meta inner)" "mi_ops in0 = fmfilter (\<lambda>j. j \<notin> {}) (mi_ops inner)"
    "index_ok (mi_children in0) (children_after (mi_meta inner) {})"
    using ix(3) by (simp_all add: in0_def children_indexed_def children_after_def[abs_def] fmfilter_true)
  have sized: "\<And>j op. fmlookup (mi_ops inner) j = Some op \<Longrightarrow> x_op_size x op \<noteq> None" by (rule core_okD(8)[OF core])
  have "\<exists>in1. fold_res (drop_op x) (iter_set ?ids) in0 = Ok in1 \<and>
      mi_meta in1 = fmfilter (\<lambda>j. j \<notin> set (iter_set ?ids) \<union> {}) (mi_meta inner) \<and>
      mi_ops in1 = fmfilter (\<lambda>j. j \<notin> set (iter_set ?ids) \<union> {}) (mi_ops inner) \<and>
      index_ok (mi_children in1) (children_after (mi_meta inner) (set (iter_set ?ids) \<union> {})) \<and> outside_drop in1 = outside_drop in0"
    by (rule drop_ops_ok[OF start]) (use sized in auto)
  then obtain in1 where in1:
    "fold_res (drop_op x) (iter_set ?ids) in0 = Ok in1" "mi_meta in1 = other_topics topic (mi_meta inner)"
    "mi_ops in1 = fmfilter (\<lambda>i. i \<notin> ?D) (mi_ops inner)" "index_ok (mi_children in1) (children_after (mi_meta inner) ?D)"
    "outside_drop in1 = outside_drop in0"
    by (auto simp: ids other_topics_def)
  have f: "mi_topic_ops in1 = fmdrop topic (mi_topic_ops inner)" "mi_heads in1 = mi_heads inner"
    "mi_actor_by_seq in1 = mi_actor_by_seq inner" "mi_actor_tip in1 = mi_actor_tip inner" "mi_actor_clock in1 = mi_actor_clock inner"
    "mi_fingerprint in1 = mi_fingerprint inner" "mi_max_generation in1 = mi_max_generation inner" "mi_topics in1 = mi_topics inner"
    "mi_rejected in1 = mi_rejected inner" "mi_peer_acks in1 = mi_peer_acks inner" "mi_obligations in1 = mi_obligations inner"
    "mi_sync_statuses in1 = mi_sync_statuses inner" "mi_evictions in1 = mi_evictions inner" "mi_sealed in1 = mi_sealed inner"
    "mi_epochs in1 = modify_or 0 (\<lambda>e. e + 1) topic (mi_epochs inner)" "pool_part in1 = pool_part inner"
    "mi_pending_records in1 = mi_pending_records inner" "mi_pending_by_topic in1 = mi_pending_by_topic inner"
    using arg_cong[OF in1(5), of mi_topic_ops] arg_cong[OF in1(5), of mi_heads] arg_cong[OF in1(5), of mi_actor_by_seq]
      arg_cong[OF in1(5), of mi_actor_tip] arg_cong[OF in1(5), of mi_actor_clock] arg_cong[OF in1(5), of mi_fingerprint]
      arg_cong[OF in1(5), of mi_max_generation] arg_cong[OF in1(5), of mi_topics] arg_cong[OF in1(5), of mi_rejected]
      arg_cong[OF in1(5), of mi_peer_acks] arg_cong[OF in1(5), of mi_obligations] arg_cong[OF in1(5), of mi_sync_statuses]
      arg_cong[OF in1(5), of mi_evictions] arg_cong[OF in1(5), of mi_sealed] arg_cong[OF in1(5), of mi_epochs]
      arg_cong[OF in1(5), of pool_part] arg_cong[OF in1(5), of mi_pending_records] arg_cong[OF in1(5), of mi_pending_by_topic]
    by (simp_all add: outside_drop_def in0_def pool_part_def)
  define in2 where "in2 = in1\<lparr>mi_heads := fmdrop topic (mi_heads in1), mi_actor_clock := fmdrop topic (mi_actor_clock in1),
      mi_fingerprint := fmdrop topic (mi_fingerprint in1), mi_max_generation := fmdrop topic (mi_max_generation in1),
      mi_topics := fmdrop topic (mi_topics in1),
      mi_actor_by_seq := fmfilter (\<lambda>(t, _, _). t \<noteq> topic) (mi_actor_by_seq in1),
      mi_actor_tip := fmfilter (\<lambda>(t, _). t \<noteq> topic) (mi_actor_tip in1),
      mi_peer_acks := fmfilter (\<lambda>(_, t). t \<noteq> topic) (mi_peer_acks in1),
      mi_obligations := fmfilter (\<lambda>(t, _). t \<noteq> topic) (mi_obligations in1),
      mi_sync_statuses := fmfilter (\<lambda>(t, _). t \<noteq> topic) (mi_sync_statuses in1),
      mi_rejected := fmdrop topic (mi_rejected in1)\<rparr>"
  have "pool_part in2 = pool_part in1" by (simp add: in2_def pool_part_def)
  then have p2: "pool_ok in2" using ix(7) pool_ok_part f(16) by metis
  let ?gone = "get_or {||} (mi_pending_by_topic in2) topic"
  have gone: "fset ?gone = held (mi_pending_records inner) (\<lambda>r. pr_topic_id r = topic)"
    using index_get[OF pool_okD(4)[OF ix(7)]] f(18) by (simp add: in2_def)
  have recs2: "mi_pending_records in2 = mi_pending_records inner" by (simp add: in2_def f(17))
  from remove_fold_ok[OF p2, of "iter_set ?gone"] obtain inner' where i':
    "fold_res remove_pending_locked (iter_set ?gone) in2 = Ok inner'" "pool_ok inner'"
    "mi_pending_records inner' = fmfilter (\<lambda>i. i \<notin> held (mi_pending_records inner) (\<lambda>r. pr_topic_id r = topic)) (mi_pending_records inner)"
    "outside_pool inner' = outside_pool in2"
    unfolding set_iter_set gone recs2 by blast
  note g = outside_poolD[OF i'(4)]
  have run: "reset_topic_locked x budget topic inner = Ok (card ?D, inner')"
    unfolding reset_topic_locked_def budget Let_def rbind_simps in0_def[symmetric] in1(1) in2_def[symmetric] i'(1)
    by (simp add: fcard.rep_eq ids)
  have by_seq: "mi_actor_by_seq inner' = fmfilter (\<lambda>(t, _, _). t \<noteq> topic) (mi_actor_by_seq inner)"
    unfolding g in2_def f(3)[symmetric] by simp
  have tip: "mi_actor_tip inner' = fmfilter (\<lambda>(t, _). t \<noteq> topic) (mi_actor_tip inner)"
    unfolding g in2_def f(4)[symmetric] by simp
  have acks: "mi_peer_acks inner' = fmfilter (\<lambda>(_, t). t \<noteq> topic) (mi_peer_acks inner)"
    unfolding g in2_def f(10)[symmetric] by simp
  have obs: "mi_obligations inner' = fmfilter (\<lambda>(t, _). t \<noteq> topic) (mi_obligations inner)"
    unfolding g in2_def f(11)[symmetric] by simp
  have stats: "mi_sync_statuses inner' = fmfilter (\<lambda>(t, _). t \<noteq> topic) (mi_sync_statuses inner)"
    unfolding g in2_def f(12)[symmetric] by simp
  have rest: "mi_topic_ops inner' = fmdrop topic (mi_topic_ops inner)" "mi_heads inner' = fmdrop topic (mi_heads inner)"
    "mi_actor_clock inner' = fmdrop topic (mi_actor_clock inner)" "mi_max_generation inner' = fmdrop topic (mi_max_generation inner)"
    "mi_topics inner' = fmdrop topic (mi_topics inner)" "mi_rejected inner' = fmdrop topic (mi_rejected inner)"
    "mi_evictions inner' = mi_evictions inner" "mi_sealed inner' = mi_sealed inner"
    "mi_epochs inner' = modify_or 0 (\<lambda>e. e + 1) topic (mi_epochs inner)"
    by (simp_all add: g in2_def f)
  have meta: "mi_meta inner' = other_topics topic (mi_meta inner)" and ops: "mi_ops inner' = fmfilter (\<lambda>i. i \<notin> ?D) (mi_ops inner)"
    using in1(2,3) g(1,2) by (simp_all add: in2_def)
  have "j \<in> ?D" if d: "d \<in> ?D" and j: "j \<in> with_meta (mi_meta inner) (\<lambda>m. d |\<in>| m_deps m)" for d j
  proof -
    obtain m where m: "fmlookup (mi_meta inner) j = Some m" "d |\<in>| m_deps m" using j by (auto simp: with_meta_def)
    obtain n where "fmlookup (mi_meta inner) d = Some n" "m_topic_id n = m_topic_id m"
      by (rule deps_closedD[OF core_okD(2)[OF core] m])
    then show ?thesis using d m(1) by (auto simp: with_meta_def)
  qed
  moreover have "with_meta (other_topics topic (mi_meta inner)) (\<lambda>m. d |\<in>| m_deps m) = with_meta (mi_meta inner) (\<lambda>m. d |\<in>| m_deps m) - ?D" for d
    by (auto simp: with_meta_def other_topics_iff)
  ultimately have "children_after (mi_meta inner) ?D d = with_meta (other_topics topic (mi_meta inner)) (\<lambda>m. d |\<in>| m_deps m)" for d
    unfolding children_after_def by auto
  then have children: "children_indexed (mi_meta inner') (mi_children inner')"
    unfolding children_indexed_def meta using index_cong[OF in1(4)] g(5) by (simp add: in2_def)
  have paired: "paired (mi_ops inner') (mi_meta inner')"
    using ix(1) by (auto simp: paired_def meta ops other_topics_def split: if_splits)
  have fresh: "fresh_pool (mi_meta inner') (mi_pending_records inner')"
    using ix(9) by (auto simp: fresh_pool_def meta i'(3) other_topics_def split: if_splits)
  have ix': "indexed_ok inner'"
    unfolding indexed_ok_def
    using paired children fresh i'(2) topics_indexed_reset[OF ix(2)] slots_indexed_reset[OF ix(4)] chained_reset[OF ix(5)]
      generations_reset[OF ix(6)] recs_within_fmfilter[OF ix(8)]
    unfolding meta i'(3) by_seq tip rest by blast
  have "core_ok x inner'"
    unfolding core_ok_def
  proof (intro conjI allI impI)
    show "indexed_ok inner'" by (rule ix')
    show "deps_closed (mi_meta inner')" unfolding meta by (rule deps_closed_reset[OF core_okD(2)[OF core]])
    show "fset (get_or {||} (mi_heads inner') t) = frontier_of (mi_meta inner') t" for t
      using core_okD(3)[OF core, of t] by (simp add: meta frontier_reset[OF core_okD(2)[OF core]] rest)
    show "clock_at (mi_actor_tip inner') t (get_or clock_new (mi_actor_clock inner') t)" for t
      using core_okD(4)[OF core, of t] by (cases "t = topic") (simp_all add: clock_at_def tip_seq_def tip rest)
    show "fcard (fmdom (mi_evictions inner')) \<le> MAX_PENDING_EVICTIONS" using core_okD(7)[OF core] by (simp add: rest)
  qed (use core_okD(5,6,8)[OF core] in \<open>auto simp: rest ops split: if_splits\<close>)
  moreover have "evidence_ok inner'"
    using evidence_okD[OF ev] unfolding evidence_ok_def obligations_ok_def by (auto simp: acks obs stats)
  ultimately have "store_ok x inner'" by (simp add: store_ok_def)
  from that[OF run this meta ops rest(5,2) i'(3) rest(9,7,8) obs acks] show thesis .
qed

end
