(* ===== verification/Memory_Evidence.thy ===== *)
theory Memory_Evidence
  imports Memory_Store
begin

text \<open>
  Acknowledgements against stored obligations: \<open>apply_ack_locked\<close> leaves of each record of the
  acknowledging peer exactly what the acknowledgement does not cover, and touches no other peer.
\<close>

section \<open>Settling the records of a peer\<close>

definition owed :: "memory_inner \<Rightarrow> topic_id \<Rightarrow> peer_id \<Rightarrow> obligation_kind \<Rightarrow> sync_obligation option" where
  "owed inner t p k = Option.bind (fmlookup (mi_obligations inner) (t, p)) (\<lambda>records. fmlookup records k)"

definition positions :: "memory_inner \<Rightarrow> op_id \<Rightarrow> op_position option result" where
  "positions inner i = Ok (map_option position_of_meta (fmlookup (mi_meta inner) i))"

lemma settled_total:
  obtains rest where "settled_obligation ob ack (positions inner) = Ok rest"
proof (cases "ob_target ob")
  case (ClockTarget target)
  then show thesis using that settled_clock[OF ClockTarget] by metis
next
  case (RepairTarget ids)
  show thesis using that settled_repair[OF RepairTarget, of "positions inner" _ ack] by (auto simp: positions_def)
qed

lemma settled_at:
  assumes "settled_obligation ob ack meta = Ok (Some rest)" "obligation_at t p k ob"
  shows "obligation_at t p k rest"
  using assms
  by (auto simp: settled_obligation_def obligation_at_def rbind_eq_Ok kind_of_def Let_def
      split: obligation_target.splits if_splits)

lemma settle_records_Ok:
  assumes "settle_records budget inner ack records = Ok settled"
  shows "fmlookup settled k = (case fmlookup records k of None \<Rightarrow> None
    | Some ob \<Rightarrow> (case settled_obligation ob ack (positions inner) of Inr rest \<Rightarrow> Some rest | Inl _ \<Rightarrow> None))"
proof -
  let ?step = "\<lambda>(kind, ob) settled.
      rbind (settled_obligation ob ack (\<lambda>i. Ok (map_option position_of_meta (fmlookup (mi_meta inner) i)))) (\<lambda>rest.
      rbind (case rest of None \<Rightarrow> Ok () | Some ob \<Rightarrow> reserve_obligation budget ob) (\<lambda>_.
        Ok (fmupd kind rest settled)))"
  have p: "(\<lambda>i. Ok (map_option position_of_meta (fmlookup (mi_meta inner) i))) = positions inner"
    by (simp add: positions_def[abs_def])
  have "fmlookup settled k = (case map_of es k of None \<Rightarrow> fmlookup acc k
      | Some ob \<Rightarrow> (case settled_obligation ob ack (positions inner) of Inr rest \<Rightarrow> Some rest | Inl _ \<Rightarrow> None))"
    if "fold_res ?step es acc = Ok settled" "distinct (map fst es)" for es acc
    using that
  proof (induction es arbitrary: acc)
    case (Cons e es)
    obtain kind ob where e: "e = (kind, ob)" by (cases e)
    from Cons.prems(1) obtain rest where r: "settled_obligation ob ack (positions inner) = Ok rest"
      "fold_res ?step es (fmupd kind rest acc) = Ok settled"
      by (auto simp: e rbind_eq_Ok p)
    have "kind \<notin> fst ` set es" using Cons.prems(2) by (simp add: e)
    then have "map_of es kind = None" by (simp add: map_of_eq_None_iff)
    then show ?case using Cons.IH[OF r(2)] Cons.prems(2) r(1) by (auto simp: e split: option.splits)
  qed simp
  from this[of "iter_map records" fmempty] show ?thesis
    using assms by (simp add: settle_records_def split: option.splits)
qed

definition settle_step :: "obligation_kind \<times> sync_obligation option \<Rightarrow>
  (obligation_kind, sync_obligation) btree_map \<Rightarrow> (obligation_kind, sync_obligation) btree_map" where
  "settle_step = (\<lambda>(kind, rest) records. case rest of Some ob \<Rightarrow> fmupd kind ob records | None \<Rightarrow> fmdrop kind records)"

lemma settle_steps:
  "distinct (map fst es) \<Longrightarrow> fmlookup (fold settle_step es records) k =
    (case map_of es k of None \<Rightarrow> fmlookup records k | Some rest \<Rightarrow> rest)"
proof (induction es arbitrary: records)
  case (Cons e es)
  obtain kind rest where e: "e = (kind, rest)" by (cases e)
  have "map_of es kind = None" using Cons.prems by (simp add: e map_of_eq_None_iff)
  then show ?case using Cons by (cases rest) (auto simp: e settle_step_def split: option.splits)
qed simp

lemma store_settled_fold:
  assumes "fmlookup (mi_obligations inner) (t, p) = Some records"
    and "\<And>kind ob. (kind, Some ob) \<in> set es \<Longrightarrow> obligation_at t p kind ob"
  shows "fold (store_settled (t, p)) es (c, inner) = (c + length (filter (\<lambda>(_, rest). rest = None) es),
    inner\<lparr>mi_obligations := fmupd (t, p) (fold settle_step es records) (mi_obligations inner)\<rparr>)"
  using assms
proof (induction es arbitrary: inner c records)
  case Nil
  then have "fmupd (t, p) records (mi_obligations inner) = mi_obligations inner" by (intro fmap_ext) auto
  then show ?case by simp
next
  case (Cons e es)
  obtain kind rest where e: "e = (kind, rest)" by (cases e)
  let ?in = "inner\<lparr>mi_obligations := fmupd (t, p) (settle_step e records) (mi_obligations inner)\<rparr>"
  have step: "store_settled (t, p) e (c, inner) = (c + (if rest = None then 1 else 0), ?in)"
  proof (cases rest)
    case None
    then show ?thesis using Cons.prems(1) by (simp add: e store_settled_def settle_step_def)
  next
    case (Some ob)
    then have "obligation_at t p kind ob" using Cons.prems(2) by (simp add: e)
    then show ?thesis using Cons.prems(1) Some
      by (simp add: e store_settled_def settle_step_def put_obligation_locked_def obligation_at_def modify_or_def get_or_def)
  qed
  have "fmlookup (mi_obligations ?in) (t, p) = Some (settle_step e records)" by simp
  from Cons.IH[OF this, of "c + (if rest = None then 1 else 0)"] Cons.prems(2) show ?case
    by (simp only: fold_simps step) (auto simp: e)
qed

lemma effective_ack_key:
  assumes "evidence_ok inner"
  shows "ack_peer_id (effective_ack inner ack) = ack_peer_id ack" "ack_topic_id (effective_ack inner ack) = ack_topic_id ack"
  using evidence_okD(2)[OF assms]
  by (auto simp: effective_ack_def merged_peer_ack_def split: option.splits)

lemma drop_empty_owed: "owed (drop_empty_records key inner) t p k = owed inner t p k"
  by (auto simp: drop_empty_records_def owed_def split: bind_splits)

text \<open>What \<open>apply_ack_locked\<close> does to the records it settles.\<close>

lemma apply_ack_Ok:
  assumes ev: "evidence_ok inner" and run: "apply_ack_locked budget ack inner = Ok (cleared, inner')"
  defines "key \<equiv> (ack_topic_id ack, ack_peer_id ack)" and "eff \<equiv> effective_ack inner ack"
  obtains settled where
    "inner' = drop_empty_records key (snd (fold (store_settled key) (iter_map settled)
      (0, inner\<lparr>mi_peer_acks := fmupd (ack_peer_id ack, ack_topic_id ack) eff (mi_peer_acks inner)\<rparr>)))"
    "cleared = fst (fold (store_settled key) (iter_map settled)
      (0, inner\<lparr>mi_peer_acks := fmupd (ack_peer_id ack, ack_topic_id ack) eff (mi_peer_acks inner)\<rparr>))"
    "settled = fmempty \<and> (fmlookup (mi_obligations inner) key = None \<or> fmlookup (mi_topics inner) (ack_topic_id ack) = None) \<or>
      (\<exists>records. fmlookup (mi_obligations inner) key = Some records \<and> settle_records budget inner eff records = Ok settled)"
proof -
  note k = effective_ack_key[OF ev, of ack]
  have ret: "commit = Retain \<Longrightarrow> ack_commit (fmlookup (mi_topics inner) (ack_topic_id ack)) ack = Ok commit \<Longrightarrow>
      fmlookup (mi_topics inner) (ack_topic_id ack) = None" for commit
    by (auto simp: ack_commit_def split: option.splits if_splits)
  let ?in0 = "inner\<lparr>mi_peer_acks := fmupd (ack_peer_id ack, ack_topic_id ack) eff (mi_peer_acks inner)\<rparr>"
  define step where "step = (\<lambda>commit. case fmlookup (mi_obligations inner) (ack_topic_id eff, ack_peer_id eff) of
        Some records \<Rightarrow> if commit \<noteq> Retain then settle_records budget inner eff records else Ok fmempty
      | None \<Rightarrow> Ok fmempty)"
  from run[unfolded apply_ack_locked_def Let_def rbind_eq_Ok, folded eff_def, folded step_def] obtain commit settled where
    commit: "ack_commit (fmlookup (mi_topics inner) (ack_topic_id ack)) ack = Ok commit" and
    settled: "step commit = Ok settled" and
    fin: "(case fold (store_settled (ack_topic_id eff, ack_peer_id eff)) (iter_map settled) (0, ?in0) of
        (cleared, inner) \<Rightarrow> Ok (cleared, drop_empty_records (ack_topic_id eff, ack_peer_id eff) inner)) = (Ok (cleared, inner') :: (nat \<times> memory_inner) result)"
    unfolding step_def by blast
  have key: "(ack_topic_id eff, ack_peer_id eff) = key" using k by (simp add: eff_def key_def)
  show thesis
  proof (rule that)
    show "inner' = drop_empty_records key (snd (fold (store_settled key) (iter_map settled) (0, ?in0)))"
      "cleared = fst (fold (store_settled key) (iter_map settled) (0, ?in0))"
      using fin unfolding key by (simp_all add: case_prod_unfold)
    show "settled = fmempty \<and> (fmlookup (mi_obligations inner) key = None \<or> fmlookup (mi_topics inner) (ack_topic_id ack) = None) \<or>
      (\<exists>records. fmlookup (mi_obligations inner) key = Some records \<and> settle_records budget inner eff records = Ok settled)"
      using settled ret[OF _ commit] unfolding step_def key
      by (cases "fmlookup (mi_obligations inner) key"; cases "commit = Retain") auto
  qed
qed

text \<open>The records after an acknowledgement are well formed and owe what they owed less what is covered.\<close>

lemma apply_ack_owed:
  assumes ev: "evidence_ok inner" and run: "apply_ack_locked budget ack inner = Ok (cleared, inner')"
    and topic: "fmlookup (mi_topics inner) (ack_topic_id ack) \<noteq> None"
  shows "Ok (owed inner' t p k) =
    (case owed inner t p k of
       None \<Rightarrow> Ok None
     | Some ob \<Rightarrow> if (t, p) = (ack_topic_id ack, ack_peer_id ack)
         then settled_obligation ob (effective_ack inner ack) (positions inner) else Ok (Some ob))"
proof -
  let ?key = "(ack_topic_id ack, ack_peer_id ack)" and ?eff = "effective_ack inner ack"
  let ?in0 = "inner\<lparr>mi_peer_acks := fmupd (ack_peer_id ack, ack_topic_id ack) ?eff (mi_peer_acks inner)\<rparr>"
  from apply_ack_Ok[OF ev run] obtain settled where s:
    "inner' = drop_empty_records ?key (snd (fold (store_settled ?key) (iter_map settled) (0, ?in0)))"
    "settled = fmempty \<and> fmlookup (mi_obligations inner) ?key = None \<or>
      (\<exists>records. fmlookup (mi_obligations inner) ?key = Some records \<and> settle_records budget inner ?eff records = Ok settled)"
    using topic by metis
  show ?thesis
  proof (cases "fmlookup (mi_obligations inner) ?key")
    case None
    then have "owed inner' t p k = owed inner t p k" using s by (simp add: drop_empty_owed) (simp add: owed_def)
    moreover have "owed inner t p k = None" if "(t, p) = ?key" using None that by (simp add: owed_def)
    ultimately show ?thesis by (auto split: option.splits)
  next
    case (Some records)
    then have run: "settle_records budget inner ?eff records = Ok settled" using s(2) by auto
    note look = settle_records_Ok[OF run]
    have at: "obligation_at (ack_topic_id ack) (ack_peer_id ack) kind ob" if "(kind, Some ob) \<in> set (iter_map settled)" for kind ob
      using that look[of kind] settled_at obligations_okD[OF evidence_okD(1)[OF ev] Some]
      by (auto split: option.splits sum.splits)
    have "fmlookup (mi_obligations ?in0) ?key = Some records" using Some by simp
    note fold = store_settled_fold[OF this, of "iter_map settled"]
    have o': "snd (fold (store_settled ?key) (iter_map settled) (0, ?in0)) =
        ?in0\<lparr>mi_obligations := fmupd ?key (fold settle_step (iter_map settled) records) (mi_obligations inner)\<rparr>"
      by (subst fold) (use at in simp_all)
    have owed': "owed inner' t p k = (if (t, p) = ?key then fmlookup (fold settle_step (iter_map settled) records) k else owed inner t p k)"
      unfolding s(1) o' drop_empty_owed by (auto simp: owed_def)
    have "fmlookup (fold settle_step (iter_map settled) records) k = (case fmlookup settled k of None \<Rightarrow> fmlookup records k | Some rest \<Rightarrow> rest)"
      by (simp add: settle_steps)
    moreover have "owed inner t p k = fmlookup records k" if "(t, p) = ?key" using Some that by (simp add: owed_def)
    moreover have "\<exists>rest. settled_obligation ob ?eff (positions inner) = Ok rest" for ob
      using settled_total by metis
    ultimately show ?thesis
      unfolding owed' look by (cases "(t, p) = ?key"; cases "fmlookup records k") (auto split: option.splits sum.splits, metis sum.distinct(1))
  qed
qed

section \<open>Well-formedness\<close>

definition obligations_pre :: "topic_id \<times> peer_id \<Rightarrow> memory_inner \<Rightarrow> bool" where
  "obligations_pre key inner \<longleftrightarrow> (\<forall>t p records. fmlookup (mi_obligations inner) (t, p) = Some records \<longrightarrow>
    ((t, p) \<noteq> key \<longrightarrow> records \<noteq> fmempty) \<and> (\<forall>k ob. fmlookup records k = Some ob \<longrightarrow> obligation_at t p k ob))"

lemma store_settled_pre:
  assumes "obligations_pre key (snd s)"
  shows "obligations_pre key (snd (store_settled key e s)) \<and>
    (snd (store_settled key e s))\<lparr>mi_obligations := fmempty\<rparr> = (snd s)\<lparr>mi_obligations := fmempty\<rparr>"
proof -
  obtain kind rest where e: "e = (kind, rest)" by (cases e)
  obtain c inner where s: "s = (c, inner)" by (cases s)
  show ?thesis
  proof (cases rest)
    case None
    then show ?thesis using assms
      by (cases key; cases "fmlookup (mi_obligations inner) key") (auto simp: e s store_settled_def obligations_pre_def split: if_splits)
  next
    case (Some ob)
    have "obligations_pre key (put_obligation_locked ob inner)"
      using assms unfolding put_obligation_locked_def obligations_pre_def
      by (auto simp: s get_or_def obligation_at_def split: option.splits if_splits)
    then show ?thesis using Some by (simp add: e s store_settled_def put_obligation_locked_def)
  qed
qed

lemma store_settled_fold_pre:
  "obligations_pre key (snd s) \<Longrightarrow> obligations_pre key (snd (fold (store_settled key) es s)) \<and>
    (snd (fold (store_settled key) es s))\<lparr>mi_obligations := fmempty\<rparr> = (snd s)\<lparr>mi_obligations := fmempty\<rparr>"
proof (induction es arbitrary: s)
  case (Cons e es)
  from store_settled_pre[OF Cons.prems, of e] Cons.IH[of "store_settled key e s"] show ?case by simp
qed simp

lemma apply_ack_keeps:
  assumes ev: "evidence_ok inner" and run: "apply_ack_locked budget ack inner = Ok (cleared, inner')"
  shows "evidence_ok inner'" "outside_evidence inner' = outside_evidence inner"
    "mi_peer_acks inner' = fmupd (ack_peer_id ack, ack_topic_id ack) (effective_ack inner ack) (mi_peer_acks inner)"
    "mi_sync_statuses inner' = mi_sync_statuses inner"
proof -
  let ?key = "(ack_topic_id ack, ack_peer_id ack)" and ?eff = "effective_ack inner ack"
  let ?in0 = "inner\<lparr>mi_peer_acks := fmupd (ack_peer_id ack, ack_topic_id ack) ?eff (mi_peer_acks inner)\<rparr>"
  obtain settled where s: "inner' = drop_empty_records ?key (snd (fold (store_settled ?key) (iter_map settled) (0, ?in0)))"
    by (rule apply_ack_Ok[OF ev run])
  define in1 where "in1 = snd (fold (store_settled ?key) (iter_map settled) (0, ?in0))"
  have "obligations_pre ?key (snd (0 :: nat, ?in0))"
    using evidence_okD(1)[OF ev] by (auto simp: obligations_pre_def obligations_ok_def)
  from store_settled_fold_pre[OF this, of "iter_map settled", folded in1_def]
  have pre: "obligations_pre ?key in1" and frame: "in1\<lparr>mi_obligations := fmempty\<rparr> = ?in0\<lparr>mi_obligations := fmempty\<rparr>"
    by simp_all
  have f: "mi_peer_acks in1 = mi_peer_acks ?in0" "mi_sync_statuses in1 = mi_sync_statuses inner"
    "outside_evidence in1 = outside_evidence inner"
    using arg_cong[OF frame, of mi_peer_acks] arg_cong[OF frame, of mi_sync_statuses] arg_cong[OF frame, of outside_evidence]
    by (simp_all add: outside_evidence_def)
  have inner': "inner' = drop_empty_records ?key in1" using s by (simp add: in1_def)
  show "outside_evidence inner' = outside_evidence inner" using f(3) by (simp add: inner' drop_empty_records_def outside_evidence_def)
  show acks: "mi_peer_acks inner' = fmupd (ack_peer_id ack, ack_topic_id ack) ?eff (mi_peer_acks inner)"
    and stats: "mi_sync_statuses inner' = mi_sync_statuses inner"
    using f(1,2) by (simp_all add: inner' drop_empty_records_def)
  have "obligations_ok (mi_obligations inner')"
    using pre by (auto simp: inner' drop_empty_records_def obligations_pre_def obligations_ok_def split: if_splits)
  then show "evidence_ok inner'"
    using evidence_okD(2,3)[OF ev] effective_ack_key[OF ev, of ack] unfolding evidence_ok_def acks stats by auto
qed

lemma status_update_key:
  "apply_status_update s up = (b, s') \<Longrightarrow> st_peer_id s' = st_peer_id s \<and> st_topic_id s' = st_topic_id s"
  by (auto simp: apply_status_update_def Let_def count_attempts_def install_gauges_def split: option.splits if_splits prod.splits)

lemma update_sync_status_keeps:
  assumes ev: "evidence_ok inner" and run: "update_sync_status budget peer topic up inner = Ok (s, inner')"
  shows "evidence_ok inner' \<and> outside_evidence inner' = outside_evidence inner"
proof -
  have "st_peer_id (get_or (new_peer_status peer topic) (mi_sync_statuses inner) (topic, peer)) = peer \<and>
      st_topic_id (get_or (new_peer_status peer topic) (mi_sync_statuses inner) (topic, peer)) = topic"
    using evidence_okD(3)[OF ev] by (cases "fmlookup (mi_sync_statuses inner) (topic, peer)") (auto simp: get_or_def new_peer_status_def)
  then show ?thesis
    using run ev status_update_key
    by (auto simp: update_sync_status_def Let_def rbind_eq_Ok evidence_ok_def outside_evidence_def
        split: prod.splits if_splits)
qed

end
