(* ===== verification/Memory_Reach.thy ===== *)
theory Memory_Reach
  imports Memory_Evidence
begin

text \<open>
  The in-memory store as a state machine: one step per write of \<open>impl Storage for MemoryStorage\<close>, and
  the invariant of every store the steps reach from the empty one. A write that fails is no step: the
  code takes every decision that can fail before it changes the store.
\<close>

section \<open>Steps\<close>

text \<open>Serialized sizes fit in memory: an allocation is at most \<open>isize::MAX\<close> bytes.\<close>

definition sizes_ok :: "externals \<Rightarrow> bool" where
  "sizes_ok x \<longleftrightarrow> (\<forall>op n. x_op_size x op = Some n \<longrightarrow> n < 2 ^ 63)"

inductive mem_step :: "externals \<Rightarrow> fingerprint \<Rightarrow> memory_inner \<Rightarrow> memory_inner \<Rightarrow> bool"
  for x :: externals and fingerprint :: fingerprint where
  step_admit: "admit_batch_locked x fingerprint budget batch quota inner = Ok inner' \<Longrightarrow> batch_ok inner batch \<Longrightarrow>
    mem_step x fingerprint inner inner'"
| step_put_pending: "put_pending_bound x budget quota source op m genesis inner = Ok inner' \<Longrightarrow> mem_step x fingerprint inner inner'"
| step_remove_pending: "remove_pending_locked i inner = Ok inner' \<Longrightarrow> mem_step x fingerprint inner inner'"
| step_expire: "expire_pending now_ms max_idle_ms inner = Ok (n, inner') \<Longrightarrow> mem_step x fingerprint inner inner'"
| step_purge: "purge_pending_waiters i inner = Ok (n, inner') \<Longrightarrow> mem_step x fingerprint inner inner'"
| step_reject: "reject_pending_subtree budget i inner = Ok (n, inner') \<Longrightarrow> mem_step x fingerprint inner inner'"
| step_obligation: "put_sync_obligation budget ob expected inner = Ok inner' \<Longrightarrow> mem_step x fingerprint inner inner'"
| step_ack: "apply_ack_locked budget ack inner = Ok (n, inner') \<Longrightarrow> mem_step x fingerprint inner inner'"
| step_epoch: "next_attempt_epoch inner = Ok (e, inner') \<Longrightarrow> mem_step x fingerprint inner inner'"
| step_put_status: "put_sync_status budget status inner = Ok inner' \<Longrightarrow> mem_step x fingerprint inner inner'"
| step_update_status: "update_sync_status budget peer topic up inner = Ok (s, inner') \<Longrightarrow> mem_step x fingerprint inner inner'"
| step_clear_peer: "clear_peer_sync_state peer topic expected inner = (n, inner') \<Longrightarrow> mem_step x fingerprint inner inner'"
| step_reset: "reset_topic_locked x budget topic inner = Ok (n, inner') \<Longrightarrow> mem_step x fingerprint inner inner'"
| step_replace: "reset_topic_and_admit x fingerprint budget in_namespace topic expected_state batch eviction inner = Ok (n, inner') \<Longrightarrow>
    batch_ok inner batch \<Longrightarrow> mem_step x fingerprint inner inner'"
| step_seal: "seal_topic budget topic inner = Ok (b, inner') \<Longrightarrow> mem_step x fingerprint inner inner'"
| step_unseal: "unseal_topic topic inner = (b, inner') \<Longrightarrow> mem_step x fingerprint inner inner'"
| step_clear_eviction: "clear_eviction key inner = inner' \<Longrightarrow> mem_step x fingerprint inner inner'"

definition mem_reachable :: "externals \<Rightarrow> fingerprint \<Rightarrow> memory_inner \<Rightarrow> bool" where
  "mem_reachable x fingerprint inner \<longleftrightarrow> (mem_step x fingerprint)\<^sup>*\<^sup>* inner_new inner"

section \<open>Steps keep the invariant\<close>

lemma store_ok_pool:
  assumes ok: "store_ok x inner" and out: "outside_pool inner' = outside_pool inner" and pool: "pool_ok inner'"
    and w: "recs_within (mi_pending_records inner')" and fresh: "fresh_pool (mi_meta inner) (mi_pending_records inner')"
  shows "store_ok x inner'"
proof -
  note f = outside_poolD[OF out]
  show ?thesis
    using ok pool w fresh unfolding store_ok_def core_ok_def indexed_ok_def evidence_ok_def by (simp only: f) blast
qed

lemma fresh_pool_sub:
  assumes "fresh_pool metas recs" "\<And>i r. fmlookup recs' i = Some r \<Longrightarrow> fmlookup recs i = Some r"
  shows "fresh_pool metas recs'"
  using assms by (auto simp: fresh_pool_def)

lemma store_okD:
  assumes "store_ok x inner"
  shows "core_ok x inner" "evidence_ok inner" "indexed_ok inner" "pool_ok inner" "recs_within (mi_pending_records inner)"
    "fresh_pool (mi_meta inner) (mi_pending_records inner)"
  using assms core_okD(1) indexed_okD(7-9) by (auto simp: store_ok_def)

lemma store_ok_filter:
  assumes ok: "store_ok x inner" and out: "outside_pool inner' = outside_pool inner" and pool: "pool_ok inner'"
    and recs: "mi_pending_records inner' = fmfilter P (mi_pending_records inner)"
  shows "store_ok x inner'"
  by (rule store_ok_pool[OF ok out pool])
    (use store_okD(5,6)[OF ok] in \<open>auto simp: recs recs_within_fmfilter fresh_pool_def split: if_splits\<close>)

lemma resolvable_iff:
  assumes "indexed_ok inner"
  shows "dep_resolvable_locked inner i \<longleftrightarrow> fmlookup (mi_meta inner) i \<noteq> None"
  using paired_None[OF indexed_okD(1)[OF assms], of i] by (auto simp: dep_resolvable_locked_def contains_key_def)

lemma put_pending_step:
  assumes ok: "store_ok x inner" and size: "sizes_ok x"
    and run: "put_pending_bound x budget quota source op m genesis inner = Ok inner'"
  shows "store_ok x inner'"
proof -
  have sz: "\<And>n. x_op_size x op = Some n \<Longrightarrow> n < 2 ^ 63" using size by (simp add: sizes_ok_def)
  note p = put_pending_Ok[OF run store_okD(4,5)[OF ok] sz]
  show ?thesis
  proof (cases "dep_resolvable_locked inner (o_id op)")
    case True
    then show ?thesis using p ok by simp
  next
    case False
    then obtain r where r: "mi_pending_records inner' = fmupd (o_id op) r (mi_pending_records inner)" "pr_missing r = m_missing_deps m"
      using p by auto
    have "\<not> fBex (m_missing_deps m) (dep_resolvable_locked inner)"
      using run False by (auto simp: put_pending_bound_def Let_def rbind_eq_Ok split: if_splits)
    then have "fresh_pool (mi_meta inner) (mi_pending_records inner')"
      using store_okD(6)[OF ok] False resolvable_iff[OF store_okD(3)[OF ok]] by (auto simp: fresh_pool_def r split: if_splits)
    then show ?thesis using p store_ok_pool[OF ok] by blast
  qed
qed

lemma reject_step:
  assumes ok: "store_ok x inner" and run: "reject_pending_subtree budget i inner = Ok (n, inner')"
  shows "store_ok x inner'"
proof (cases "fmlookup (mi_pending_records inner) i")
  case None
  then show ?thesis using run ok by (simp add: reject_pending_subtree_def)
next
  case (Some r)
  let ?S = "(waits_rel (mi_pending_records inner))\<^sup>* `` {i}"
  have b: "budget (RejectedMetadata (pr_topic_id r)) = Ok ()"
    using run Some by (auto simp: reject_pending_subtree_def Let_def rbind_eq_Ok)
  obtain in1 where i: "reject_pending_subtree budget i inner = Ok (card ?S, in1)" "pool_ok in1"
    "mi_pending_records in1 = fmfilter (\<lambda>j. j \<notin> ?S) (mi_pending_records inner)"
    "outside_pool (in1\<lparr>mi_rejected := mi_rejected inner\<rparr>) = outside_pool inner"
    "mi_rejected in1 = fmupd (pr_topic_id r) (trim_rejected (fold mark_rejected (sorted_list_of_set ?S)
      (get_or no_rejected (mi_rejected inner) (pr_topic_id r)))) (mi_rejected inner)"
    by (rule reject_subtree_ok[where budget = budget, OF store_okD(4)[OF ok] Some b])
  have in1: "in1 = inner'" using i(1) run by simp
  let ?in2 = "in1\<lparr>mi_rejected := mi_rejected inner\<rparr>"
  have "pool_ok ?in2" using i(2) pool_ok_part[of ?in2 in1] by (simp add: pool_part_def)
  from store_ok_filter[OF ok i(4) this] i(3) have ok2: "store_ok x ?in2" by simp
  have "rejected_ok (get_or no_rejected (mi_rejected inner) (pr_topic_id r))"
    using core_okD(6)[OF store_okD(1)[OF ok]] by (auto simp: get_or_def no_rejected_def rejected_ok_def split: option.splits)
  from mark_fold[OF this, of "sorted_list_of_set ?S"]
  have "rejected_ok (fold mark_rejected (sorted_list_of_set ?S) (get_or no_rejected (mi_rejected inner) (pr_topic_id r)))" by simp
  note t = trim_rejected_ok[OF this]
  have "pool_ok in1" by (rule i(2))
  have rj: "rejected_ok q \<and> length (rj_order q) \<le> MAX_REJECTED_PER_TOPIC" if "fmlookup (mi_rejected in1) u = Some q" for u q
    using that t(1,2) core_okD(6)[OF store_okD(1)[OF ok]] by (auto simp: i(5) split: if_splits)
  have "indexed_ok in1" using store_okD(3)[OF ok2] i(2) by (simp add: indexed_ok_def)
  then have "core_ok x in1"
    using store_okD(1)[OF ok2] rj unfolding core_ok_def by simp
  then show ?thesis using store_okD(2)[OF ok2] by (simp add: store_ok_def in1 evidence_ok_def)
qed

lemma batch_ok_sub:
  assumes "batch_ok inner batch" "\<And>i m. fmlookup (mi_meta inner') i = Some m \<Longrightarrow> fmlookup (mi_meta inner) i = Some m"
  shows "batch_ok inner' batch"
  using assms unfolding batch_ok_def by fastforce

lemma admit_step:
  assumes ok: "store_ok x inner" and run: "admit_batch_locked x fingerprint budget batch quota inner = Ok inner'" and b: "batch_ok inner batch"
  obtains plan where "plan_admission x fingerprint budget batch quota inner = Ok plan" "store_ok x inner'"
    "mi_meta inner' = entry_metas (pl_new_entries plan) (mi_meta inner)"
    "mi_ops inner' = entry_ops (pl_new_entries plan) (mi_ops inner)"
    "mi_heads inner' = fmupd (ab_topic_id batch) (ab_heads batch) (mi_heads inner)"
    "mi_topics inner' = (case ab_topic_state batch of None \<Rightarrow> mi_topics inner
      | Some state \<Rightarrow> fmupd (ab_topic_id batch) state (mi_topics inner))"
    "mi_evictions inner' = mi_evictions inner"
proof -
  obtain plan where plan: "plan_admission x fingerprint budget batch quota inner = Ok plan" "apply_admission batch plan inner = Ok inner'"
    using run by (auto simp: admit_batch_locked_def rbind_eq_Ok)
  show thesis by (rule admit_batch_ok[OF ok plan(1) b]) (use that plan in auto)
qed

lemma store_ok_evictions:
  "store_ok x inner \<Longrightarrow> fcard (fmdom ev) \<le> MAX_PENDING_EVICTIONS \<Longrightarrow> store_ok x (inner\<lparr>mi_evictions := ev\<rparr>)"
  by (simp add: store_ok_def core_ok_def indexed_ok_def evidence_ok_def pool_ok_def)

lemma journal_keeps:
  assumes ok: "store_ok x inner" and run: "journal_eviction budget entry inner = Ok inner'"
  shows "store_ok x inner'" "inner' = inner\<lparr>mi_evictions := mi_evictions inner'\<rparr>"
    "mi_evictions inner' = (case entry of None \<Rightarrow> mi_evictions inner | Some (key, ev) \<Rightarrow> fmupd key ev (mi_evictions inner))"
proof -
  show frame: "inner' = inner\<lparr>mi_evictions := mi_evictions inner'\<rparr>"
    and ev: "mi_evictions inner' = (case entry of None \<Rightarrow> mi_evictions inner | Some (key, ev) \<Rightarrow> fmupd key ev (mi_evictions inner))"
    using run by (auto simp: journal_eviction_def rbind_eq_Ok split: option.splits if_splits)
  have "fcard (fmdom (mi_evictions inner')) \<le> MAX_PENDING_EVICTIONS"
  proof (cases entry)
    case None
    then show ?thesis using core_okD(7)[OF store_okD(1)[OF ok]] ev by simp
  next
    case (Some e)
    obtain key evd where e: "e = (key, evd)" by (cases e)
    have "contains_key (mi_evictions inner) key \<or> fcard (fmdom (mi_evictions inner)) < MAX_PENDING_EVICTIONS"
      using run by (auto simp: journal_eviction_def Some e split: if_splits)
    moreover have "finsert key (fmdom (mi_evictions inner)) = fmdom (mi_evictions inner)" if "contains_key (mi_evictions inner) key"
      using that by (auto simp: contains_key_fmdom)
    moreover have "fcard (finsert key (fmdom (mi_evictions inner))) \<le> Suc (fcard (fmdom (mi_evictions inner)))"
      by (simp add: fcard_finsert_if)
    ultimately show ?thesis using core_okD(7)[OF store_okD(1)[OF ok]] ev by (auto simp: Some e)
  qed
  then show "store_ok x inner'" by (subst frame) (rule store_ok_evictions[OF ok])
qed

lemma store_ok_evidence:
  assumes "store_ok x inner" "outside_evidence inner' = outside_evidence inner" "evidence_ok inner'"
  shows "store_ok x inner'"
  using assms core_ok_cong[OF assms(2)] by (simp add: store_ok_def)

lemma store_ok_rest:
  "store_ok x inner \<Longrightarrow> store_ok x (inner\<lparr>mi_attempt_epoch := e\<rparr>)" "store_ok x inner \<Longrightarrow> store_ok x (inner\<lparr>mi_sealed := s\<rparr>)"
  by (simp_all add: store_ok_def core_ok_def indexed_ok_def evidence_ok_def pool_ok_def)

lemma reset_step:
  assumes ok: "store_ok x inner" and run: "reset_topic_locked x budget topic inner = Ok (n, inner')"
  shows "store_ok x inner'" "mi_meta inner' = other_topics topic (mi_meta inner)"
    "mi_ops inner' = fmfilter (\<lambda>i. i \<notin> with_meta (mi_meta inner) (\<lambda>m. m_topic_id m = topic)) (mi_ops inner)"
    "mi_evictions inner' = mi_evictions inner"
proof -
  have b: "budget (TopicMetadata topic) = Ok ()" using run by (auto simp: reset_topic_locked_def rbind_eq_Ok)
  show "store_ok x inner'" "mi_meta inner' = other_topics topic (mi_meta inner)"
    "mi_ops inner' = fmfilter (\<lambda>i. i \<notin> with_meta (mi_meta inner) (\<lambda>m. m_topic_id m = topic)) (mi_ops inner)"
    "mi_evictions inner' = mi_evictions inner"
    by (rule reset_topic_ok[where budget = budget, OF ok b], use run in simp)+
qed

lemma replace_step:
  assumes ok: "store_ok x inner" and b: "batch_ok inner batch"
    and run: "reset_topic_and_admit x fingerprint budget in_namespace topic expected_state batch eviction inner = Ok (n, inner')"
  obtains staged plan where "reset_topic_locked x budget topic inner = Ok (n, staged)" "store_ok x staged"
    "mi_meta staged = other_topics topic (mi_meta inner)" "plan_admission x fingerprint budget batch None staged = Ok plan"
    "batch_ok staged batch" "store_ok x inner'" "mi_meta inner' = entry_metas (pl_new_entries plan) (mi_meta staged)"
    "mi_ops inner' = entry_ops (pl_new_entries plan) (mi_ops staged)"
    "mi_ops staged = fmfilter (\<lambda>i. i \<notin> with_meta (mi_meta inner) (\<lambda>m. m_topic_id m = topic)) (mi_ops inner)"
    "mi_evictions inner' = (case journalled_eviction (x_blake3 x) eviction of None \<Rightarrow> mi_evictions inner
      | Some (key, ev) \<Rightarrow> fmupd key ev (mi_evictions inner))"
    "topic |\<notin>| mi_sealed inner" "topic_state_locked inner topic = Some expected_state"
proof -
  from run obtain staged in1 where r: "reset_topic_locked x budget topic inner = Ok (n, staged)"
    "admit_batch_locked x fingerprint budget batch None staged = Ok in1"
    "journal_eviction budget (journalled_eviction (x_blake3 x) eviction) in1 = Ok inner'"
    and g: "topic |\<notin>| mi_sealed inner" "topic_state_locked inner topic = Some expected_state"
    by (auto simp: reset_topic_and_admit_def rbind_eq_Ok split: if_splits)
  note s = reset_step[OF ok r(1)]
  have bs: "batch_ok staged batch" by (rule batch_ok_sub[OF b]) (simp add: s(2) other_topics_iff)
  obtain plan where p: "plan_admission x fingerprint budget batch None staged = Ok plan" "store_ok x in1"
    "mi_meta in1 = entry_metas (pl_new_entries plan) (mi_meta staged)"
    "mi_ops in1 = entry_ops (pl_new_entries plan) (mi_ops staged)" "mi_evictions in1 = mi_evictions staged"
    by (rule admit_step[where fingerprint = fingerprint and budget = budget, OF s(1) r(2) bs])
  note j = journal_keeps[OF p(2) r(3)]
  have same: "mi_meta inner' = mi_meta in1" "mi_ops inner' = mi_ops in1" by (subst j(2); simp)+
  have ev: "mi_evictions in1 = mi_evictions inner" using p(5) s(4) by simp
  show thesis by (rule that[OF r(1) s(1,2) p(1) bs j(1) p(3)[folded same] p(4)[folded same] s(3) j(3)[unfolded ev] g])
qed

lemma mem_step_keeps:
  assumes step: "mem_step x fingerprint inner inner'" and sizes: "sizes_ok x" and ok: "store_ok x inner"
  shows "store_ok x inner'"
  using step
proof cases
  case step_admit
  then show ?thesis using admit_step[OF ok] by metis
next
  case step_put_pending
  then show ?thesis using put_pending_step[OF ok sizes] by blast
next
  case (step_remove_pending i)
  obtain in1 where "remove_pending_locked i inner = Ok in1" "pool_ok in1"
    "mi_pending_records in1 = fmdrop i (mi_pending_records inner)" "outside_pool in1 = outside_pool inner"
    by (rule remove_pending_ok[OF store_okD(4)[OF ok], of i])
  then show ?thesis
    using step_remove_pending store_ok_filter[OF ok, of in1] by (simp add: fmfilter_alt_defs)
next
  case (step_expire now idle n)
  obtain in1 S where "expire_pending now idle inner = Ok (card S, in1)" "pool_ok in1"
    "mi_pending_records in1 = fmfilter (\<lambda>j. j \<notin> S) (mi_pending_records inner)" "outside_pool in1 = outside_pool inner"
    by (rule expire_pending_ok[OF store_okD(4)[OF ok] refl])
  then show ?thesis using step_expire store_ok_filter[OF ok, of in1] by simp
next
  case (step_purge i n)
  then show ?thesis using purge_pending_ok[OF store_okD(4)[OF ok], of i] store_ok_filter[OF ok] by (metis Inr_inject prod.inject)
next
  case step_reject
  then show ?thesis using reject_step[OF ok] by blast
next
  case (step_obligation budget ob expected)
  then obtain merged where "inner' = put_obligation_locked merged inner" by (auto simp: put_sync_obligation_def rbind_eq_Ok)
  then show ?thesis using store_ok_evidence[OF ok] put_obligation_ok[OF store_okD(2)[OF ok]] by simp
next
  case step_ack
  then show ?thesis using store_ok_evidence[OF ok] apply_ack_keeps(1,2)[OF store_okD(2)[OF ok]] by blast
next
  case step_epoch
  then show ?thesis using store_ok_rest(1)[OF ok] by (auto simp: next_attempt_epoch_def result_simps)
next
  case (step_put_status budget status)
  then have "evidence_ok inner' \<and> outside_evidence inner' = outside_evidence inner"
    using store_okD(2)[OF ok] by (auto simp: put_sync_status_def rbind_eq_Ok evidence_ok_def outside_evidence_def split: if_splits)
  then show ?thesis using store_ok_evidence[OF ok] by blast
next
  case step_update_status
  then show ?thesis using store_ok_evidence[OF ok] update_sync_status_keeps[OF store_okD(2)[OF ok]] by blast
next
  case (step_clear_peer peer topic expected n)
  then have "inner' = inner \<or> inner' = forget_peer topic peer inner" by (auto simp: clear_peer_sync_state_def split: if_splits)
  then show ?thesis using ok store_ok_evidence[OF ok] forget_peer_ok[OF store_okD(2)[OF ok]] by auto
next
  case step_reset
  then show ?thesis using reset_step(1)[OF ok] by blast
next
  case step_replace
  then show ?thesis using replace_step[OF ok] by metis
next
  case step_seal
  then show ?thesis using store_ok_rest(2)[OF ok] by (auto simp: seal_topic_def rbind_eq_Ok)
next
  case step_unseal
  then show ?thesis using store_ok_rest(2)[OF ok] by (auto simp: unseal_topic_def)
next
  case (step_clear_eviction key)
  have "fcard (fmdom (mi_evictions inner) |-| {|key|}) \<le> fcard (fmdom (mi_evictions inner))"
    by (intro fcard_mono) auto
  then show ?thesis
    using step_clear_eviction store_ok_evictions[OF ok, of "fmdrop key (mi_evictions inner)"] core_okD(7)[OF store_okD(1)[OF ok]]
    by (simp add: clear_eviction_def)
qed

lemma mem_reachable_ok:
  assumes "mem_reachable x fingerprint inner" "sizes_ok x"
  shows "store_ok x inner"
  using assms(1) unfolding mem_reachable_def
  by (induction rule: rtranclp_induct) (auto intro: mem_step_keeps[OF _ assms(2)])

end
