(* ===== verification/Memory_Properties.thy ===== *)
theory Memory_Properties
  imports Memory_Reach
begin

text \<open>
  The properties of the in-memory store, with a concrete store that reaches them: a topic whose genesis
  is admitted with an obligation to its second member.
\<close>

section \<open>A concrete store\<close>

definition free_budget :: budget where
  "free_budget = (\<lambda>_. Ok ())"

definition plain_fingerprint :: fingerprint where
  "plain_fingerprint = (\<lambda>_ _. Ok (ident 0))"

definition genesis_op1 :: operation where
  "genesis_op1 = sample_op (ident 1) 1 None {||} 0 sample_genesis_payload"

definition genesis_state :: topic_state where
  "genesis_state = \<lparr>t_topic_id = ident 100, t_event_type_id = ''e'', t_genesis = ident 1, t_heads = {|ident 1|},
     t_members = {|ident 7, ident 8|}, t_replication_policy = policy_all, t_membership_controls = fmempty,
     t_policy_control = None\<rparr>"

definition genesis_batch :: admitted_batch where
  "genesis_batch = \<lparr>ab_topic_id = ident 100, ab_expected_heads = {||}, ab_expected_topic_state = None,
     ab_entries = [(genesis_op1, sample_meta genesis_op1)], ab_heads = {|ident 1|},
     ab_topic_state = Some genesis_state,
     ab_effects = \<lparr>ef_sync_obligations = [obligation_repair (ident 8) (ident 100) {|ident 1|}]\<rparr>\<rparr>"

lemma reserve_free: "fold_res (\<lambda>(_, ob) _. reserve_obligation free_budget ob) es () = Ok ()"
  by (induction es) (auto simp: reserve_obligation_def free_budget_def)

lemma ffilter_True [simp]: "ffilter (\<lambda>_. True) S = S"
  by auto

lemma genesis_plan:
  "\<exists>plan. plan_admission sample_ext plain_fingerprint free_budget genesis_batch None inner_new = Ok plan \<and>
    pl_new_entries plan = [(genesis_op1, sample_meta genesis_op1)]"
  by (simp add: plan_admission_def validate_batch_def inner_new_def genesis_batch_def genesis_state_def
   genesis_op1_def sample_op_def sample_body_def sample_meta_def meta_matches_def topic_state_locked_def validate_heads_def
   accounted_locked_def free_budget_def plain_fingerprint_def merge_effect_def merged_obligation_locked_def obligation_repair_def
   obligation_is_empty_def ack_covers_def merged_obligation_def kind_of_def check_entry_def check_append_def
   ensure_deps_resolvable_def project_entry_def pending_op_bytes_def ok_or_def sample_ext_def Let_def MAX_REPAIR_IDS_def
   fcard.rep_eq removed_peers_def reserve_free[unfolded free_budget_def])

lemma sample_sizes [simp]: "sizes_ok sample_ext"
  by (simp add: sizes_ok_def sample_ext_def)

lemma genesis_batch_ok [simp]: "batch_ok inner_new genesis_batch"
  by (simp add: batch_ok_def ids_name_ops_def genesis_batch_def inner_new_def)

definition genesis_store :: memory_inner where
  "genesis_store = projr (admit_batch_locked sample_ext plain_fingerprint free_budget genesis_batch None inner_new)"

lemma genesis_admitted: "admit_batch_locked sample_ext plain_fingerprint free_budget genesis_batch None inner_new = Ok genesis_store"
proof -
  obtain plan where p: "plan_admission sample_ext plain_fingerprint free_budget genesis_batch None inner_new = Ok plan"
    using genesis_plan by blast
  obtain inner' where "apply_admission genesis_batch plan inner_new = Ok inner'"
    by (rule admit_batch_ok[OF store_ok_new p genesis_batch_ok])
  then show ?thesis using p by (simp add: genesis_store_def admit_batch_locked_def)
qed

lemma genesis_reachable: "mem_reachable sample_ext plain_fingerprint genesis_store"
  unfolding mem_reachable_def by (rule r_into_rtranclp, rule step_admit[OF genesis_admitted genesis_batch_ok])

lemma genesis_records:
  "mi_meta genesis_store = fmupd (ident 1) (sample_meta genesis_op1) fmempty" "mi_ops genesis_store = fmupd (ident 1) genesis_op1 fmempty"
proof -
  obtain plan where p: "plan_admission sample_ext plain_fingerprint free_budget genesis_batch None inner_new = Ok plan"
    "mi_meta genesis_store = entry_metas (pl_new_entries plan) (mi_meta inner_new)"
    "mi_ops genesis_store = entry_ops (pl_new_entries plan) (mi_ops inner_new)"
    by (rule admit_step[OF store_ok_new genesis_admitted genesis_batch_ok])
  have "pl_new_entries plan = [(genesis_op1, sample_meta genesis_op1)]" using genesis_plan p(1) by auto
  then show "mi_meta genesis_store = fmupd (ident 1) (sample_meta genesis_op1) fmempty" "mi_ops genesis_store = fmupd (ident 1) genesis_op1 fmempty"
    using p(2,3) by (simp_all add: entry_metas_def entry_ops_def inner_new_def genesis_op1_def sample_op_def)
qed

section \<open>Invariant\<close>

text \<open>
  C9. Every in-memory store the writes reach from the empty one keeps its invariant: operation and
  metadata records come in pairs, the topic, child and actor indexes are exact, every actor's chain is
  gapless up to its tip and the topic clock is those tips, heads are the operations nothing depends on,
  dependencies are stored, the pool's indexes and counters are exact and within their limits, and
  nothing pending is stored or waits on something stored.
\<close>

theorem memory_store_invariant:
  assumes "sizes_ok x" "mem_reachable x fingerprint inner"
  shows "store_ok x inner"
  using assms by (intro mem_reachable_ok)

theorem memory_store_invariant_witness:
  "store_ok sample_ext genesis_store \<and> fmlookup (mi_ops genesis_store) (ident 1) = Some genesis_op1"
  using memory_store_invariant[OF sample_sizes genesis_reachable] by (simp add: genesis_records)

section \<open>Admission\<close>



section \<open>Replacement\<close>

definition check_collision :: "memory_inner \<Rightarrow> operation \<times> op_meta \<Rightarrow> bool" where
  "check_collision inner = (\<lambda>(op, m). \<forall>op'. fmlookup (mi_ops inner) (o_id op) = Some op' \<longrightarrow> op' = op)"

lemma check_entries_collision:
  "fold_res (check_entry inner topic) es s = Ok s' \<Longrightarrow> e \<in> set es \<Longrightarrow> check_collision inner e"
proof (induction es arbitrary: s)
  case (Cons e' es)
  then obtain s1 where s1: "check_entry inner topic e' s = Ok s1" "fold_res (check_entry inner topic) es s1 = Ok s'"
    by (auto simp: rbind_eq_Ok)
  have "check_collision inner e'"
    using s1(1) by (cases e'; cases s) (auto simp: check_entry_def check_collision_def split: if_splits)
  then show ?case using Cons.IH[OF s1(2)] Cons.prems(2) by auto
qed simp


definition winner_op :: operation where
  "winner_op = sample_op (ident 2) 1 None {||} 0 sample_genesis_payload"

definition winner_batch :: admitted_batch where
  "winner_batch = genesis_batch\<lparr>ab_entries := [(winner_op, sample_meta winner_op)], ab_heads := {|ident 2|},
     ab_topic_state := Some (genesis_state\<lparr>t_genesis := ident 2, t_heads := {|ident 2|}\<rparr>),
     ab_effects := \<lparr>ef_sync_obligations = []\<rparr>\<rparr>"

definition sample_eviction :: topic_eviction where
  "sample_eviction = \<lparr>v_topic_id = ident 100, v_losing_genesis = ident 1, v_winning_genesis = ident 2,
     v_evicted = [\<lparr>e_op_id = ident 1, e_actor_id = ident 9, e_author = ident 7, e_actor_seq = 1, e_payload = sample_genesis_payload\<rparr>]\<rparr>"

lemma winner_batch_ok [simp]: "batch_ok genesis_store winner_batch"
  by (simp add: batch_ok_def ids_name_ops_def winner_batch_def genesis_batch_def winner_op_def sample_meta_def sample_op_def sample_body_def)


section \<open>The pending pool\<close>

text \<open>
  C12. Buffering an operation either finds it stored and changes nothing, or leaves it in the pool with
  exactly the missing dependencies its metadata names. It changes nothing outside the pool and no other
  buffered operation; the pool's indexes and counters stay exact and every limit holds.
\<close>

theorem put_pending_exact:
  assumes "sizes_ok x" "mem_reachable x fingerprint inner"
    and "put_pending_bound x budget quota source op m genesis inner = Ok inner'"
  shows "outside_pool inner' = outside_pool inner \<and> pool_ok inner' \<and> recs_within (mi_pending_records inner') \<and>
    (if contains_key (mi_meta inner) (o_id op) then inner' = inner
     else fmlookup (mi_pending_ops inner') (o_id op) = Some op \<and>
       (\<exists>r. fmlookup (mi_pending_records inner') (o_id op) = Some r \<and> pr_missing r = m_missing_deps m) \<and>
       fmdrop (o_id op) (mi_pending_records inner') = fmdrop (o_id op) (mi_pending_records inner))"
proof -
  note ok = mem_reachable_ok[OF assms(2,1)]
  have sz: "\<And>n. x_op_size x op = Some n \<Longrightarrow> n < 2 ^ 63" using assms(1) by (simp add: sizes_ok_def)
  have "fmdrop i (fmupd i r m) = fmdrop i m" for i r and m :: pending_records by (intro fmap_ext) auto
  then show ?thesis
    using put_pending_Ok[OF assms(3) store_okD(4,5)[OF ok] sz] resolvable_iff[OF store_okD(3)[OF ok], of "o_id op"]
    by (auto simp: contains_key_def)
qed

definition child_op :: operation where
  "child_op = sample_op (ident 5) 2 (Some (ident 4)) {|ident 4|} 1 sample_genesis_payload"

definition child_meta :: op_meta where
  "child_meta = (sample_meta child_op)\<lparr>m_missing_deps := {|ident 4|}\<rparr>"

definition pending_store :: memory_inner where
  "pending_store = insert_pending (ident 8) child_op {|ident 4|} 100 (move_waits (ident 5) {||} {|ident 4|} genesis_store)"

lemma pending_put: "put_pending_bound sample_ext free_budget None (ident 8) child_op child_meta None genesis_store = Ok pending_store"
proof -
  have s: "mi_rejected genesis_store = fmempty" "mi_pending_records genesis_store = fmempty" "mi_pending_waiters genesis_store = fmempty"
    "mi_pending_usage genesis_store = no_usage" "mi_source_usage genesis_store = fmempty" "mi_topic_usage genesis_store = fmempty"
    by code_simp+
  show ?thesis
    by (simp add: put_pending_bound_def pending_op_bytes_def ok_or_def sample_ext_def child_op_def child_meta_def sample_meta_def
        sample_op_def sample_body_def MAX_PENDING_MISSING_DEPS_def fcard.rep_eq dep_resolvable_locked_def genesis_records
        contains_key_def rejected_hit_def s buffer_pending_def check_waiters_def MAX_PENDING_WAITERS_PER_DEP_def
        check_pending_quota_def no_usage_def pending_limits free_budget_def move_waits_def unwait_fold Let_def iter_set_def
        sorted_list_of_fset.rep_eq pending_store_def)
qed

lemma pending_reachable: "mem_reachable sample_ext plain_fingerprint pending_store"
  using genesis_reachable step_put_pending[OF pending_put] unfolding mem_reachable_def by (rule rtranclp.rtrancl_into_rtrancl)

theorem put_pending_exact_witness:
  "fmlookup (mi_pending_ops pending_store) (ident 5) = Some child_op \<and> pool_ok pending_store"
proof -
  have "o_id child_op = ident 5" by (simp add: child_op_def sample_op_def)
  then show ?thesis
    using put_pending_exact[OF sample_sizes genesis_reachable pending_put]
    by (simp add: genesis_records)
qed

text \<open>
  C13. Rejecting a buffered operation removes exactly it and what waits on it, directly or through other
  waiters, and cannot fail once the marker is reserved. Nothing left in the pool waits on something
  removed; each removed id that was not marked before is marked now, and the marker list stays bounded.
\<close>

theorem reject_subtree_exact:
  assumes "sizes_ok x" "mem_reachable x fingerprint inner"
    and "fmlookup (mi_pending_records inner) i = Some r" "budget (RejectedMetadata (pr_topic_id r)) = Ok ()"
  shows "\<exists>inner'. let S = (waits_rel (mi_pending_records inner))\<^sup>* `` {i};
      before = get_or no_rejected (mi_rejected inner) (pr_topic_id r);
      after = get_or no_rejected (mi_rejected inner') (pr_topic_id r) in
    reject_pending_subtree budget i inner = Ok (card S, inner') \<and>
    mi_pending_records inner' = fmfilter (\<lambda>j. j \<notin> S) (mi_pending_records inner) \<and>
    (\<forall>j q. fmlookup (mi_pending_records inner') j = Some q \<longrightarrow> fset (pr_missing q) \<inter> S = {}) \<and>
    S - fset (rj_ids before) \<subseteq> fset (rj_ids after) \<and> fset (rj_ids after) \<subseteq> fset (rj_ids before) \<union> S \<and>
    length (rj_order after) \<le> MAX_REJECTED_PER_TOPIC"
proof -
  note ok = mem_reachable_ok[OF assms(2,1)]
  let ?S = "(waits_rel (mi_pending_records inner))\<^sup>* `` {i}" and ?old = "get_or no_rejected (mi_rejected inner) (pr_topic_id r)"
  obtain in1 where i: "reject_pending_subtree budget i inner = Ok (card ?S, in1)"
    "mi_pending_records in1 = fmfilter (\<lambda>j. j \<notin> ?S) (mi_pending_records inner)"
    "mi_rejected in1 = fmupd (pr_topic_id r) (trim_rejected (fold mark_rejected (sorted_list_of_set ?S) ?old)) (mi_rejected inner)"
    by (rule reject_subtree_ok[where budget = budget, OF store_okD(4)[OF ok] assms(3,4)])
  have sub: "?S \<subseteq> held (mi_pending_records inner) (\<lambda>_. True)"
    using assms(3) by (auto simp: held_def fmlookup_dom_iff dest!: waits_rel_dom)
  then have fin: "finite ?S" by (rule finite_subset) simp
  have "card ?S \<le> MAX_PENDING_OPS_TOTAL"
    using card_mono[OF finite_held sub] recs_withinD(1)[OF store_okD(5)[OF ok]] by simp
  then have n: "length (sorted_list_of_set ?S) \<le> MAX_REJECTED_PER_TOPIC"
    by (simp add: MAX_REJECTED_PER_TOPIC_def MAX_PENDING_OPS_TOTAL_def)
  have old: "rejected_ok ?old"
    using core_okD(6)[OF store_okD(1)[OF ok]] by (auto simp: get_or_def no_rejected_def rejected_ok_def split: option.splits)
  note m = mark_trim[OF old _ n, simplified set_sorted_list_of_set[OF fin]]
  have "rejected_ok (fold mark_rejected (sorted_list_of_set ?S) ?old)" using mark_fold[OF old, of "sorted_list_of_set ?S"] by simp
  note t = trim_rejected_ok(2)[OF this]
  have "fset (pr_missing q) \<inter> ?S = {}" if "fmlookup (mi_pending_records in1) j = Some q" for j q
    using subtree_closed that unfolding i(2) by blast
  then show ?thesis unfolding Let_def using i m(2,3) t by (intro exI[of _ in1]) (simp add: get_or_def)
qed

theorem reject_subtree_exact_witness:
  "\<exists>inner'. reject_pending_subtree free_budget (ident 5) pending_store = Ok (1, inner') \<and> mi_pending_records inner' = fmempty \<and>
    ident 5 |\<in>| rj_ids (get_or no_rejected (mi_rejected inner') (ident 100))"
proof -
  let ?r = "\<lparr>pr_source = ident 8, pr_topic_id = ident 100, pr_missing = {|ident 4|}, pr_charge = 100\<rparr>"
  have r: "mi_pending_records pending_store = fmupd (ident 5) ?r fmempty" by code_simp
  have none: "mi_rejected pending_store = fmempty" by code_simp
  have w: "waits_rel (fmupd (ident 5) ?r fmempty) = {(ident 4, ident 5)}" by (auto simp: waits_rel_def split: if_splits)
  have S: "(waits_rel (mi_pending_records pending_store))\<^sup>* `` {ident 5} = {ident 5}"
    unfolding r w by (auto elim: converse_rtranclE)
  have "\<exists>inner'. reject_pending_subtree free_budget (ident 5) pending_store = Ok (card {ident 5}, inner') \<and>
      mi_pending_records inner' = fmfilter (\<lambda>j. j \<notin> {ident 5}) (mi_pending_records pending_store) \<and>
      {ident 5} - fset (rj_ids (get_or no_rejected fmempty (ident 100))) \<subseteq> fset (rj_ids (get_or no_rejected (mi_rejected inner') (ident 100)))"
    using reject_subtree_exact[OF sample_sizes pending_reachable, of "ident 5" ?r free_budget]
    unfolding S none Let_def by (auto simp: r free_budget_def)
  moreover have "fmfilter (\<lambda>j. j \<notin> {ident 5}) (mi_pending_records pending_store) = fmempty" unfolding r by (intro fmap_ext) simp
  ultimately show ?thesis by (auto simp: no_rejected_def)
qed

text \<open>
  C14. Expiry removes exactly the operations some sweep first saw more than the idle span ago and
  whatever waits on them, and cannot fail. Of what stays, each keeps the time it was first seen, or
  gets the present one if this sweep is the first to see it.
\<close>

theorem expire_pending_exact:
  assumes "sizes_ok x" "mem_reachable x fingerprint inner"
  shows "\<exists>inner'. let S = (waits_rel (mi_pending_records inner))\<^sup>* `` {e. idle_since now_ms max_idle_ms inner e} in
    expire_pending now_ms max_idle_ms inner = Ok (card S, inner') \<and>
    mi_pending_records inner' = fmfilter (\<lambda>j. j \<notin> S) (mi_pending_records inner) \<and>
    (\<forall>j. fmlookup (mi_pending_since inner') j = (if contains_key (mi_pending_records inner') j
       then Some (get_or now_ms (mi_pending_since inner) j) else None)) \<and>
    outside_pool inner' = outside_pool inner \<and> pool_ok inner'"
proof -
  note ok = mem_reachable_ok[OF assms(2,1)]
  show ?thesis by (rule expire_pending_ok[OF store_okD(4)[OF ok] refl]) (auto simp: Let_def)
qed

theorem expire_pending_exact_witness:
  "\<exists>inner'. expire_pending 1000 10 pending_store = Ok (0, inner') \<and> fmlookup (mi_pending_since inner') (ident 5) = Some 1000"
proof -
  let ?r = "\<lparr>pr_source = ident 8, pr_topic_id = ident 100, pr_missing = {|ident 4|}, pr_charge = 100\<rparr>"
  have r: "mi_pending_records pending_store = fmupd (ident 5) ?r fmempty" and s: "mi_pending_since pending_store = fmempty"
    by code_simp+
  have none: "{e. idle_since 1000 10 pending_store e} = {}" by (simp add: idle_since_def s)
  from expire_pending_exact[OF sample_sizes pending_reachable, of 1000 10] obtain inner' where
    i: "expire_pending 1000 10 pending_store = Ok (0, inner')"
    "mi_pending_records inner' = fmfilter (\<lambda>j. j \<notin> {}) (mi_pending_records pending_store)"
    "\<And>j. fmlookup (mi_pending_since inner') j = (if contains_key (mi_pending_records inner') j
       then Some (get_or 1000 (mi_pending_since pending_store) j) else None)"
    unfolding none Let_def by auto
  have "fmlookup (mi_pending_since inner') (ident 5) = Some 1000" unfolding i(3) by (simp add: i(2) r s contains_key_def)
  then show ?thesis using i(1) by blast
qed

section \<open>Acknowledgements\<close>


definition genesis_ack :: peer_ack where
  "genesis_ack = \<lparr>ack_peer_id = ident 8, ack_topic_id = ident 100, ack_genesis = Some (ident 1),
     ack_heads = {|ident 1|}, ack_clock = clock_new\<rparr>"


end
