(* ===== verification/Memory_Snapshot.thy ===== *)
theory Memory_Snapshot
  imports Memory_Reach Topology_Store
begin

text \<open>
  Reads of the in-memory store through a snapshot. A store whose indexes are exact provides what
  \<open>coherent_snapshot\<close> asks of a snapshot, so what is proved of readers holds of it.
\<close>

section \<open>Stores with exact indexes\<close>

typedef indexed_store = "{inner. indexed_ok inner}" morphisms inner_of indexed_store
proof
  show "inner_new \<in> {inner. indexed_ok inner}"
    using store_okD(3)[OF store_ok_new[of undefined]] by simp
qed

lemma inner_of_ok [simp]: "indexed_ok (inner_of s)"
  using inner_of[of s] by simp

lemma memory_snapshot_coherent:
  assumes "indexed_ok inner"
  shows "snapshot_of (memory_snapshot f inner) (mi_ops inner) (mi_meta inner)"
proof -
  have p: "paired (mi_ops inner) (mi_meta inner)" by (rule indexed_okD(1)[OF assms])
  have "o_id op = i" if s: "fmlookup (mi_ops inner) i = Some op" for i op
  proof -
    obtain m where "fmlookup (mi_meta inner) i = Some m" using s paired_None[OF p, of i] by auto
    then show ?thesis using p s unfolding paired_def by blast
  qed
  moreover have "m_id m = i" if s: "fmlookup (mi_meta inner) i = Some m" for i m
  proof -
    obtain op where "fmlookup (mi_ops inner) i = Some op" using s paired_None[OF p, of i] by auto
    then have "o_id op = i \<and> meta_matches op m" using p s unfolding paired_def by blast
    then show ?thesis by (simp add: meta_matches_def Let_def)
  qed
  ultimately show ?thesis
    by (simp add: snapshot_of_def memory_snapshot_def resolvable_in_def dep_resolvable_locked_def)
qed

interpretation mem: coherent_snapshot "memory_snapshot f (inner_of s)" "mi_ops (inner_of s)" "mi_meta (inner_of s)" for f s
  by unfold_locales (rule memory_snapshot_coherent[OF inner_of_ok])

section \<open>Listings\<close>

lemma no_holes:
  assumes ok: "indexed_ok inner" and d: "deps_closed (mi_meta inner)" and ids: "\<And>i. i |\<in>| ids \<Longrightarrow> fmlookup (mi_meta inner) i \<noteq> None"
  shows "\<not> hole (mi_ops inner) (mi_meta inner) ids i"
proof
  assume "hole (mi_ops inner) (mi_meta inner) ids i"
  then show False
  proof induction
    case (unresolved i)
    then show ?case using ids resolvable_iff[OF ok, of i] by (auto simp: resolvable_in_def dep_resolvable_locked_def)
  next
    case (dangling i d)
    then obtain m where m: "fmlookup (mi_meta inner) i = Some m" "d |\<in>| m_deps m" using ids by (auto simp: deps_of_def split: option.splits)
    from deps_closedD[OF assms(2) m] obtain n where "fmlookup (mi_meta inner) d = Some n" by blast
    then show ?case using dangling(4) resolvable_iff[OF ok, of d] by (auto simp: resolvable_in_def dep_resolvable_locked_def)
  qed
qed

lemma topic_listing:
  assumes ok: "indexed_ok inner" and d: "deps_closed (mi_meta inner)"
    and ids_def: "ids = topic_ids_locked inner topic"
  shows "fset ids = with_meta (mi_meta inner) (\<lambda>m. m_topic_id m = topic)"
    "whole (mi_ops inner) (mi_meta inner) ids = fset ids"
    "topological_entries (memory_snapshot f inner) topic = subset_entries_in (memory_snapshot f inner) ids"
    "\<And>i m. i |\<in>| ids \<Longrightarrow> fmlookup (mi_meta inner) i = Some m \<Longrightarrow> fset (m_deps m) \<subseteq> fset ids"
proof -
  show ids: "fset ids = with_meta (mi_meta inner) (\<lambda>m. m_topic_id m = topic)"
    unfolding ids_def topic_ids_locked_def by (rule index_get[OF indexed_okD(2)[OF ok, unfolded topics_indexed_def]])
  have "\<not> hole (mi_ops inner) (mi_meta inner) ids i" for i
    by (rule no_holes[OF ok d]) (use ids in \<open>auto simp: with_meta_def\<close>)
  then show "whole (mi_ops inner) (mi_meta inner) ids = fset ids" by (auto simp: whole_def)
  show "topological_entries (memory_snapshot f inner) topic = subset_entries_in (memory_snapshot f inner) ids"
    by (simp add: topological_entries_def memory_snapshot_def ids_def)
  show "fset (m_deps m) \<subseteq> fset ids" if i: "i |\<in>| ids" "fmlookup (mi_meta inner) i = Some m" for i m
  proof
    fix e assume "e |\<in>| m_deps m"
    from deps_closedD[OF d i(2) this] obtain n where "fmlookup (mi_meta inner) e = Some n" "m_topic_id n = m_topic_id m" by blast
    moreover have "m_topic_id m = topic" using i ids by (auto simp: with_meta_def)
    ultimately show "e \<in> fset ids" unfolding ids by (auto simp: with_meta_def)
  qed
qed

end
