(* ===== verification/Oplog_Genesis.thy ===== *)
theory Oplog_Genesis
  imports Memory_Reads Membership
begin

text \<open>
  Genesis collisions, \<open>oplog/genesis.rs\<close>: two peers may create one topic with different genesis
  operations, and the smaller id wins. The op log is modelled over the in-memory store, its default
  type argument.
\<close>

section \<open>Definitions\<close>

definition is_structural_genesis :: "operation \<Rightarrow> bool" where
  "is_structural_genesis op \<longleftrightarrow>
    (case b_payload (body op) of Genesis _ \<Rightarrow> True | _ \<Rightarrow> False) \<and>
    b_actor_seq (body op) = 1 \<and> b_actor_prev (body op) = None \<and> b_deps (body op) = {||}"

record reset_plan =
  rp_expected_state :: topic_state
  rp_eviction :: topic_eviction

definition genesis_peers :: "operation \<Rightarrow> peer_id btree_set option" where
  "genesis_peers op = (case b_payload (body op) of Genesis g \<Rightarrow> Some (g_initial_peers g) | _ \<Rightarrow> None)"

definition same_peers :: "memory_inner \<Rightarrow> op_id \<Rightarrow> operation \<Rightarrow> bool" where
  "same_peers inner genesis_id candidate =
    (case Option.bind (fmlookup (mi_ops inner) genesis_id) genesis_peers of
       None \<Rightarrow> False
     | Some current \<Rightarrow>
         (case genesis_peers candidate of
            None \<Rightarrow> False
          | Some named \<Rightarrow> named = current \<and> b_author (body candidate) |\<in>| named))"

definition evicted_ops :: "memory_inner \<Rightarrow> op_id btree_set \<Rightarrow> evicted_op list" where
  "evicted_ops inner ids =
    List.map_filter (\<lambda>m. map_option (\<lambda>op.
        \<lparr>e_op_id = m_id m, e_actor_id = m_actor_id m, e_author = m_author m, e_actor_seq = m_actor_seq m,
         e_payload = b_payload (body op)\<rparr>) (fmlookup (mi_ops inner) (m_id m)))
      (sort_key (\<lambda>m. (m_actor_id m, m_actor_seq m)) (List.map_filter (fmlookup (mi_meta inner)) (iter_set ids)))"

definition extract_eviction :: "memory_inner \<Rightarrow> topic_id \<Rightarrow> topic_state \<Rightarrow> op_id \<Rightarrow> topic_eviction" where
  "extract_eviction inner topic local_state winning =
    \<lparr>v_topic_id = topic, v_losing_genesis = t_genesis local_state, v_winning_genesis = winning,
     v_evicted = evicted_ops inner (topic_ids_locked inner topic |-| {|t_genesis local_state|})\<rparr>"

type_synonym children_lists = "(op_id, op_id list) btree_map"

definition child_lists :: "operation list \<Rightarrow> children_lists" where
  "child_lists ops = fold (\<lambda>op children.
    fold (\<lambda>dep. modify_or [] (\<lambda>l. l @ [o_id op]) dep) (iter_set (b_deps (body op))) children) ops fmempty"

definition reject_child :: "op_id \<Rightarrow> op_id btree_set \<times> op_id list \<Rightarrow> op_id btree_set \<times> op_id list" where
  "reject_child child = (\<lambda>(rejected, pending).
    if child |\<in>| rejected then (rejected, pending) else (finsert child rejected, pending @ [child]))"

definition lists_size :: "children_lists \<Rightarrow> nat" where
  "lists_size children = (\<Sum>k \<in> fset (fmdom children). length (get_or [] children k))"

lemma lists_size_fmdrop: "lists_size (fmdrop i children) + length (get_or [] children i) = lists_size children"
proof (cases "i |\<in>| fmdom children")
  case True
  have "lists_size (fmdrop i children) = (\<Sum>k \<in> fset (fmdom children) - {i}. length (get_or [] children k))"
    unfolding lists_size_def by (rule sum.cong) auto
  moreover have "lists_size children = length (get_or [] children i) + (\<Sum>k \<in> fset (fmdom children) - {i}. length (get_or [] children k))"
    unfolding lists_size_def using True by (intro sum.remove) auto
  ultimately show ?thesis by simp
next
  case False
  then have "get_or [] children i = []" by (simp add: get_or_def fmdom_notD)
  moreover have "fmdrop i children = children" using False by (intro fmap_ext) (auto simp: fmdom_notD)
  ultimately show ?thesis by simp
qed

lemma reject_child_length: "length (snd (fold reject_child kids (rejected, pending))) \<le> length pending + length kids"
proof (induction kids arbitrary: rejected pending)
  case (Cons c kids)
  show ?case
    using Cons.IH[of "finsert c rejected" "pending @ [c]"] Cons.IH[of rejected pending] by (simp add: reject_child_def)
qed simp

function reject_loop :: "children_lists \<Rightarrow> op_id btree_set \<Rightarrow> op_id list \<Rightarrow> op_id btree_set" where
  "reject_loop children rejected [] = rejected"
| "reject_loop children rejected (i # pending) =
    (let r = fold reject_child (get_or [] children i) (rejected, pending)
     in reject_loop (fmdrop i children) (fst r) (snd r))"
  by pat_completeness auto
termination
proof (relation "measure (\<lambda>(children, _, pending). lists_size children + length pending)")
  fix children :: children_lists and rejected i pending r
  assume "r = fold reject_child (get_or [] children i) (rejected, pending)"
  with reject_child_length[of "get_or [] children i" rejected pending] lists_size_fmdrop[of i children]
  show "((fmdrop i children, fst r, snd r), (children, rejected, i # pending))
      \<in> measure (\<lambda>(children, _, pending). lists_size children + length pending)" by (simp add: case_prod_unfold)
qed simp

definition without_descendants :: "operation list \<Rightarrow> op_id \<Rightarrow> operation list" where
  "without_descendants ops rejected =
    (let ids = reject_loop (child_lists ops) {|rejected|} [rejected] in filter (\<lambda>op. o_id op |\<notin>| ids) ops)"

type_synonym genesis_resolution = "operation list \<times> reset_plan option \<times> op_id option"

definition resolve_genesis_collision ::
  "externals \<Rightarrow> memory_inner \<Rightarrow> operation list \<Rightarrow> op_id btree_set \<Rightarrow> genesis_resolution result" where
  "resolve_genesis_collision x inner ops verified =
    (case find is_structural_genesis ops of
       None \<Rightarrow> Ok (ops, None, None)
     | Some genesis \<Rightarrow>
         let topic = b_topic_id (body genesis) in
         (case topic_state_locked inner topic of
            None \<Rightarrow> Ok (ops, None, None)
          | Some state \<Rightarrow>
              if t_genesis state = o_id genesis then Ok (ops, None, None)
              else rbind (if o_id genesis |\<in>| verified then Ok () else op_validate x genesis) (\<lambda>_.
                if o_id genesis < t_genesis state
                then if \<not> same_peers inner (t_genesis state) genesis
                  then Ok (without_descendants ops (o_id genesis), None, Some (o_id genesis))
                  else Ok (ops, Some \<lparr>rp_expected_state = state,
                    rp_eviction = extract_eviction inner topic state (o_id genesis)\<rparr>, None)
                else Ok (without_descendants ops (o_id genesis), None, Some (o_id genesis)))))"

section \<open>Descendants\<close>

text \<open>The dependency edges of a batch, from an operation to what depends on it.\<close>

definition edges_of :: "operation list \<Rightarrow> (op_id \<times> op_id) set" where
  "edges_of ops = {(d, o_id op) | d op. op \<in> set ops \<and> d |\<in>| b_deps (body op)}"

lemma child_lists_set: "set (get_or [] (child_lists ops) d) = {c. (d, c) \<in> edges_of ops}"
proof -
  have inner: "set (get_or [] (fold (\<lambda>dep. modify_or [] (\<lambda>l. l @ [i]) dep) deps m) d) =
      set (get_or [] m d) \<union> (if d \<in> set deps then {i} else {})" for deps i and m :: children_lists
    by (induction deps arbitrary: m) auto
  have "set (get_or [] (fold (\<lambda>op children. fold (\<lambda>dep. modify_or [] (\<lambda>l. l @ [o_id op]) dep) (iter_set (b_deps (body op))) children) ops m) d) =
      set (get_or [] m d) \<union> {c. (d, c) \<in> edges_of ops}" for m
  proof (induction ops arbitrary: m)
    case (Cons op ops)
    show ?case unfolding fold_simps comp_def Cons.IH inner by (auto simp: edges_of_def)
  qed (simp add: edges_of_def)
  then show ?thesis by (simp add: child_lists_def)
qed

lemma reject_child_fold:
  "fold reject_child kids (rejected, pending) = (rejected', pending') \<Longrightarrow>
    fset rejected' = fset rejected \<union> set kids \<and> set pending' = set pending \<union> (set kids - fset rejected)"
proof (induction kids arbitrary: rejected pending)
  case (Cons c kids)
  show ?case
  proof (cases "c |\<in>| rejected")
    case True
    then show ?thesis using Cons.IH[of rejected pending] Cons.prems by (auto simp: reject_child_def)
  next
    case False
    then show ?thesis using Cons.IH[of "finsert c rejected" "pending @ [c]"] Cons.prems by (auto simp: reject_child_def)
  qed
qed simp

text \<open>An id taken from the queue leaves the map of children, so its edges are walked once.\<close>

lemma reject_loop_closure:
  assumes "\<And>d. set (get_or [] children d) \<subseteq> {c. (d, c) \<in> E}"
    and "\<And>d. d \<notin> walked \<Longrightarrow> set (get_or [] children d) = {c. (d, c) \<in> E}"
    and "walked \<union> set pending = fset rejected"
    and "\<And>d c. d \<in> walked \<Longrightarrow> (d, c) \<in> E \<Longrightarrow> c |\<in>| rejected"
  shows "fset (reject_loop children rejected pending) = E\<^sup>* `` fset rejected"
  using assms
proof (induction children rejected pending arbitrary: walked rule: reject_loop.induct)
  case (1 children rejected)
  have "E `` fset rejected \<subseteq> fset rejected" using 1(3,4) by auto
  then show ?case using Image_closed_trancl[of E "fset rejected"] by simp
next
  case (2 children rejected i pending)
  obtain rejected' pending' where r: "fold reject_child (get_or [] children i) (rejected, pending) = (rejected', pending')"
    by (cases "fold reject_child (get_or [] children i) (rejected, pending)")
  note f = reject_child_fold[OF r]
  have i: "i |\<in>| rejected" using 2(4) by auto
  have kids: "set (get_or [] children i) \<subseteq> E `` fset rejected" using 2(2)[of i] i by auto
  have all: "c |\<in>| rejected'" if "(i, c) \<in> E" for c
    using that f 2(3)[of i] 2(5)[of i c] by (cases "i \<in> walked") auto
  have "fset (reject_loop (fmdrop i children) rejected' pending') = E\<^sup>* `` fset rejected'"
  proof (rule 2(1)[OF r[symmetric], unfolded fst_conv snd_conv, of "insert i walked"])
    show "set (get_or [] (fmdrop i children) d) \<subseteq> {c. (d, c) \<in> E}" for d using 2(2)[of d] by simp
    show "set (get_or [] (fmdrop i children) d) = {c. (d, c) \<in> E}" if "d \<notin> insert i walked" for d
      using 2(3)[of d] that by auto
    show "insert i walked \<union> set pending' = fset rejected'" using f 2(4) by auto
    show "c |\<in>| rejected'" if "d \<in> insert i walked" "(d, c) \<in> E" for d c
      using that all 2(5)[of d c] f by auto
  qed
  moreover have "E\<^sup>* `` set (get_or [] children i) \<subseteq> E\<^sup>* `` fset rejected"
  proof
    fix c assume "c \<in> E\<^sup>* `` set (get_or [] children i)"
    then obtain k where "k \<in> set (get_or [] children i)" "(k, c) \<in> E\<^sup>*" by blast
    then obtain d where "d |\<in>| rejected" "(d, k) \<in> E" "(k, c) \<in> E\<^sup>*" using kids by blast
    then show "c \<in> E\<^sup>* `` fset rejected" by (blast intro: converse_rtrancl_into_rtrancl)
  qed
  then have "E\<^sup>* `` fset rejected' = E\<^sup>* `` fset rejected" unfolding f[THEN conjunct1] Image_Un by blast
  ultimately show ?case by (simp add: r)
qed

lemma without_descendants_is:
  "without_descendants ops rejected = filter (\<lambda>op. (rejected, o_id op) \<notin> (edges_of ops)\<^sup>*) ops"
proof -
  have "fset (reject_loop (child_lists ops) {|rejected|} [rejected]) = (edges_of ops)\<^sup>* `` {rejected}"
    using reject_loop_closure[of "child_lists ops" "edges_of ops" "{}" "[rejected]" "{|rejected|}"] by (simp add: child_lists_set)
  then show ?thesis unfolding without_descendants_def Let_def by auto
qed

end
