(* ===== verification/Oplog_Overlay.thy ===== *)
theory Oplog_Overlay
  imports Oplog_Genesis
begin

text \<open>
  What the validation of a batch reads: the operations the batch has accepted so far, and beneath
  them the store. A reset makes the stored actor positions invisible. These are the helpers of
  \<open>oplog/admission.rs\<close> and the checks of \<open>oplog/pending.rs\<close>.
\<close>

section \<open>Reads through the overlay\<close>

record batch_overlay =
  bo_ops :: "(op_id, operation) btree_map"
  bo_meta :: "(op_id, op_meta) btree_map"
  bo_tips :: tips
  bo_index :: "(topic_id \<times> actor_id \<times> u64, op_id) btree_map"
  bo_reset :: bool

datatype op_admission = Admit | Duplicate

definition MAX_TYPE_BYTES :: nat where "MAX_TYPE_BYTES = 1024"
definition MAX_TOPIC_ACTORS :: nat where "MAX_TOPIC_ACTORS = 90000"

definition checked_next :: "u64 \<Rightarrow> u64 result" where
  "checked_next v = ok_or (checked_add v 1) InvalidOpId"

definition next_actor_position :: "(u64 \<times> op_id) option \<Rightarrow> (u64 \<times> op_id option) result" where
  "next_actor_position tip =
    (case tip of Some (seq, i) \<Rightarrow> rbind (checked_next seq) (\<lambda>n. Ok (n, Some i)) | None \<Rightarrow> Ok (1, None))"

definition ensure_event_type :: "string \<Rightarrow> string \<Rightarrow> unit result" where
  "ensure_event_type expected actual = (if expected = actual then Ok () else Err (EventTypeMismatch expected actual))"

definition meta_projected :: "memory_inner \<Rightarrow> (op_id, op_meta) btree_map \<Rightarrow> op_id \<Rightarrow> op_meta result" where
  "meta_projected inner overlay i =
    (case fmlookup overlay i of Some m \<Rightarrow> Ok m | None \<Rightarrow> ok_or (fmlookup (mi_meta inner) i) (MissingDependency i))"

definition op_projected :: "memory_inner \<Rightarrow> (op_id, operation) btree_map \<Rightarrow> op_id \<Rightarrow> operation result" where
  "op_projected inner overlay i =
    (case fmlookup overlay i of Some op \<Rightarrow> Ok op | None \<Rightarrow> ok_or (fmlookup (mi_ops inner) i) (MissingDependency i))"

definition header_projected :: "memory_inner \<Rightarrow> (op_id, op_meta) btree_map \<Rightarrow> op_id \<Rightarrow> op_header result" where
  "header_projected inner overlay i =
    (case fmlookup overlay i of
       Some m \<Rightarrow> Ok (header_of_meta m)
     | None \<Rightarrow> ok_or (memory_header inner i) (MissingDependency i))"

definition observe_dep :: "memory_inner \<Rightarrow> (op_id, op_meta) btree_map \<Rightarrow> topic_id \<Rightarrow> op_id \<Rightarrow> actor_clock \<Rightarrow> actor_clock result" where
  "observe_dep inner overlay topic dep observed =
    rbind (case fmlookup overlay dep of
        Some m \<Rightarrow> Ok (header_of_meta m, m_observed_clock m)
      | None \<Rightarrow> ok_or (memory_observation inner dep) (MissingDependency dep)) (\<lambda>(h, clock).
      if h_topic_id h \<noteq> topic then Err TopicMismatch
      else Ok (clock_observe (clock_merge observed clock) (h_actor_id h) (h_actor_seq h)))"

definition meta_of_op :: "operation \<Rightarrow> actor_clock \<Rightarrow> bool \<Rightarrow> op_id btree_set \<Rightarrow> op_meta" where
  "meta_of_op op clock ready missing =
    (let b = body op in
     \<lparr>m_id = o_id op, m_topic_id = b_topic_id b, m_author = b_author b, m_actor_id = b_actor_id b,
      m_actor_seq = b_actor_seq b, m_actor_prev = b_actor_prev b, m_deps = b_deps b,
      m_generation = b_generation b, m_observed_clock = clock, m_ready = ready, m_missing_deps = missing\<rparr>)"

definition meta_for_projected :: "memory_inner \<Rightarrow> (op_id, op_meta) btree_map \<Rightarrow> operation \<Rightarrow> op_meta result" where
  "meta_for_projected inner overlay op =
    rbind (fold_res (observe_dep inner overlay (b_topic_id (body op))) (iter_set (b_deps (body op))) clock_new) (\<lambda>clock.
      Ok (meta_of_op op clock True {||}))"

definition stored_actor_index :: "memory_inner \<Rightarrow> op_body \<Rightarrow> bool \<Rightarrow> op_id option" where
  "stored_actor_index inner b reset =
    (if reset then None else actor_index inner (b_topic_id b) (b_actor_id b) (b_actor_seq b))"

definition stored_actor_tip :: "memory_inner \<Rightarrow> op_body \<Rightarrow> bool \<Rightarrow> (u64 \<times> op_id) option" where
  "stored_actor_tip inner b reset = (if reset then None else actor_tip inner (b_topic_id b) (b_actor_id b))"

definition is_admitted_duplicate :: "memory_inner \<Rightarrow> operation \<Rightarrow> bool" where
  "is_admitted_duplicate inner op = dep_resolvable_locked inner (o_id op)"

definition overlay_slot :: "memory_inner \<Rightarrow> batch_overlay \<Rightarrow> op_body \<Rightarrow> op_id option" where
  "overlay_slot inner overlay b =
    (case stored_actor_index inner b (bo_reset overlay) of
       Some i \<Rightarrow> Some i
     | None \<Rightarrow> fmlookup (bo_index overlay) (b_topic_id b, b_actor_id b, b_actor_seq b))"

definition overlay_tip :: "memory_inner \<Rightarrow> batch_overlay \<Rightarrow> op_body \<Rightarrow> (u64 \<times> op_id) option" where
  "overlay_tip inner overlay b =
    (case fmlookup (bo_tips overlay) (b_topic_id b, b_actor_id b) of
       Some tip \<Rightarrow> Some tip
     | None \<Rightarrow> stored_actor_tip inner b (bo_reset overlay))"

text \<open>The generation an operation must carry: one more than the highest of its dependencies.\<close>

definition deps_generation :: "(op_id \<Rightarrow> op_header result) \<Rightarrow> op_id btree_set \<Rightarrow> u64 result" where
  "deps_generation header deps =
    fold_res (\<lambda>i generation.
      rbind (header i) (\<lambda>h. rbind (checked_next (h_generation h)) (\<lambda>g. Ok (max generation g)))) (iter_set deps) 0"

section \<open>Buffered operations\<close>

datatype pending_verdict = VReject | VRetain

definition is_permanent_rejection :: "error \<Rightarrow> bool" where
  "is_permanent_rejection err \<longleftrightarrow>
    (case err of
       OpTooLarge \<Rightarrow> True | InvalidSignature \<Rightarrow> True | InvalidPublicKey \<Rightarrow> True | WrongSigner \<Rightarrow> True
     | ActorAuthorMismatch \<Rightarrow> True | TopicMismatch \<Rightarrow> True | GenerationMismatch _ _ \<Rightarrow> True
     | RejectedOp _ \<Rightarrow> True | _ \<Rightarrow> False)"

definition slot_taken :: "memory_inner \<Rightarrow> operation \<Rightarrow> u64 \<Rightarrow> op_id option" where
  "slot_taken inner op seq =
    (case actor_index inner (b_topic_id (body op)) (b_actor_id (body op)) seq of
       None \<Rightarrow> None
     | Some holder \<Rightarrow> if holder \<noteq> o_id op \<and> dep_resolvable_locked inner holder then Some holder else None)"

definition position_impossible :: "memory_inner \<Rightarrow> operation \<Rightarrow> bool result" where
  "position_impossible inner op =
    (let b = body op in
     case b_actor_prev b of
       None \<Rightarrow> Ok (b_actor_seq b \<noteq> 1)
     | Some prev \<Rightarrow>
         if b_actor_seq b < 2 \<or> prev |\<notin>| b_deps b then Ok True
         else
           rbind (case fmlookup (mi_meta inner) prev of
               Some m \<Rightarrow>
                 if dep_resolvable_locked inner prev
                 then if m_topic_id m \<noteq> b_topic_id b \<or> m_actor_id m \<noteq> b_actor_id b then Ok True
                   else rbind (checked_next (m_actor_seq m)) (\<lambda>n. Ok (n \<noteq> b_actor_seq b))
                 else Ok False
             | None \<Rightarrow> Ok False) (\<lambda>contradicted.
           if contradicted then Ok True
           else Ok (case slot_taken inner op (b_actor_seq b - 1) of None \<Rightarrow> False | Some holder \<Rightarrow> holder \<noteq> prev)))"

definition verdict_of :: "memory_inner \<Rightarrow> operation \<Rightarrow> error \<Rightarrow> pending_verdict result" where
  "verdict_of inner op err =
    rbind (if is_permanent_rejection err then Ok True
      else case err of
          NotTopicMember \<Rightarrow> Ok True | EventTypeMismatch _ _ \<Rightarrow> Ok True | InvalidGenesis \<Rightarrow> Ok True | InvalidOpId \<Rightarrow> Ok True
        | ActorPrevMismatch \<Rightarrow> position_impossible inner op | ActorSeqGap _ _ \<Rightarrow> position_impossible inner op
        | ActorFork \<Rightarrow> Ok (slot_taken inner op (b_actor_seq (body op)) \<noteq> None)
        | _ \<Rightarrow> Ok False) (\<lambda>immutable. Ok (if immutable then VReject else VRetain))"

definition missing_deps_projected :: "memory_inner \<Rightarrow> operation \<Rightarrow> (op_id, operation) btree_map \<Rightarrow> bool \<Rightarrow> op_id btree_set" where
  "missing_deps_projected inner op overlay reset =
    ffilter (\<lambda>dep. \<not> contains_key overlay dep \<and> (reset \<or> \<not> dep_resolvable_locked inner dep)) (b_deps (body op))"

definition check_pending_payload :: "op_body \<Rightarrow> topic_state option \<Rightarrow> unit result" where
  "check_pending_payload b state =
    (case b_payload b of
       Genesis _ \<Rightarrow>
         if b_actor_seq b \<noteq> 1 \<or> b_actor_prev b \<noteq> None \<or> b_deps b \<noteq> {||} \<or> state \<noteq> None then Err InvalidGenesis else Ok ()
     | Event envelope \<Rightarrow>
         if b_deps b = {||} \<or> b_generation b = 0 then Err InvalidOpId
         else (case state of None \<Rightarrow> Ok () | Some s \<Rightarrow> ensure_event_type (t_event_type_id s) (ev_type_id envelope))
     | Control _ \<Rightarrow> if b_deps b = {||} \<or> b_generation b = 0 then Err InvalidOpId else Ok ())"

definition check_pending_prev :: "memory_inner \<Rightarrow> batch_overlay \<Rightarrow> op_body \<Rightarrow> op_id btree_set \<Rightarrow> unit result" where
  "check_pending_prev inner overlay b missing =
    (if b_actor_seq b = 1 \<and> b_actor_prev b \<noteq> None then Err ActorPrevMismatch
     else if b_actor_seq b \<ge> 2 \<and> b_actor_prev b = None then Err ActorPrevMismatch
     else case b_actor_prev b of
       None \<Rightarrow> Ok ()
     | Some prev \<Rightarrow>
         if prev |\<notin>| b_deps b then Err ActorPrevMismatch
         else if prev |\<in>| missing then Ok ()
         else rbind (header_projected inner (bo_meta overlay) prev) (\<lambda>h.
           if h_topic_id h \<noteq> b_topic_id b \<or> h_actor_id h \<noteq> b_actor_id b then Err ActorPrevMismatch
           else rbind (checked_next (h_actor_seq h)) (\<lambda>n.
             if n \<noteq> b_actor_seq b then Err (ActorSeqGap n (b_actor_seq b)) else Ok ())))"

text \<open>\<open>Some Duplicate\<close> ends the validation; \<open>None\<close> goes on.\<close>

definition check_pending_tip :: "memory_inner \<Rightarrow> batch_overlay \<Rightarrow> operation \<Rightarrow> op_admission option result" where
  "check_pending_tip inner overlay op =
    (let b = body op in
     case overlay_tip inner overlay b of
       None \<Rightarrow> Ok None
     | Some (seq, tip_id) \<Rightarrow>
         rbind (checked_next seq) (\<lambda>next_seq.
           if b_actor_seq b \<le> seq
           then if is_admitted_duplicate inner op then Ok (Some Duplicate) else Err (ActorSeqGap next_seq (b_actor_seq b))
           else if b_actor_prev b = Some tip_id \<and> b_actor_seq b \<noteq> next_seq then Err (ActorSeqGap next_seq (b_actor_seq b))
           else Ok None))"

definition check_pending_dep :: "memory_inner \<Rightarrow> batch_overlay \<Rightarrow> op_body \<Rightarrow> op_id btree_set \<Rightarrow> op_id \<Rightarrow> unit \<Rightarrow> unit result" where
  "check_pending_dep inner overlay b missing dep _ =
    (if dep |\<in>| missing then Ok ()
     else rbind (header_projected inner (bo_meta overlay) dep) (\<lambda>h.
       if h_topic_id h \<noteq> b_topic_id b then Err TopicMismatch
       else if h_generation h \<ge> b_generation b
       then rbind (checked_next (h_generation h)) (\<lambda>n. Err (GenerationMismatch n (b_generation b)))
       else Ok ()))"

definition validate_pending_op ::
  "externals \<Rightarrow> memory_inner \<Rightarrow> operation \<Rightarrow> op_id btree_set \<Rightarrow> batch_overlay \<Rightarrow> topic_state option \<Rightarrow> op_admission result" where
  "validate_pending_op x inner op missing overlay state =
    (let b = body op in
     if fcard missing > MAX_PENDING_MISSING_DEPS then Err (Storage ''pending op has too many missing deps'')
     else if b_actor_id b \<noteq> actor_id_for (x_blake3 x) (b_topic_id b) (b_author b) then Err ActorAuthorMismatch
     else if b_actor_seq b = 0 then Err (ActorSeqGap 1 0)
     else
       let slot = overlay_slot inner overlay b in
       if slot \<noteq> None \<and> slot \<noteq> Some (o_id op) then Err ActorFork
       else if slot = Some (o_id op) \<and> is_admitted_duplicate inner op then Ok Duplicate
       else rbind (check_pending_payload b state) (\<lambda>_.
         rbind (check_pending_prev inner overlay b missing) (\<lambda>_.
         rbind (check_pending_tip inner overlay op) (\<lambda>answer.
         case answer of
           Some r \<Rightarrow> Ok r
         | None \<Rightarrow> rbind (fold_res (check_pending_dep inner overlay b missing) (iter_set (b_deps b)) ()) (\<lambda>_. Ok Admit)))))"

definition pending_meta_for :: "operation \<Rightarrow> op_id btree_set \<Rightarrow> op_meta" where
  "pending_meta_for op missing = meta_of_op op clock_new False missing"

end
