(* ===== verification/Oplog_Projection.thy ===== *)
theory Oplog_Projection
  imports Oplog_Overlay
begin

text \<open>
  The membership at an operation's causal frontier, \<open>project_membership\<close> of \<open>oplog/admission.rs\<close>: a
  walk from the dependencies down to states already known, a fold over the controls met, and the
  workspace it charges on the way.
\<close>

section \<open>Workspace\<close>

definition WALK_BYTES :: nat where "WALK_BYTES = 64"
definition SEEN_BYTES :: nat where "SEEN_BYTES = 80"
definition HOLD_BYTES :: nat where "HOLD_BYTES = 64 * 1024"
definition MAX_WORKSPACE_BYTES :: nat where "MAX_WORKSPACE_BYTES = 256 * 1024 * 1024"
definition PEER_BYTES :: nat where "PEER_BYTES = 72"
definition CONTROL_BYTES :: nat where "CONTROL_BYTES = 264"
definition STATE_BASE_BYTES :: nat where "STATE_BASE_BYTES = 512"
definition MAX_PROJECTION_BYTES :: nat where "MAX_PROJECTION_BYTES = 16 * 1024 * 1024"
definition MAX_CACHED_PROJECTIONS :: nat where "MAX_CACHED_PROJECTIONS = 4096"

definition state_bytes :: "topic_state \<Rightarrow> nat" where
  "state_bytes state =
    (let peers = fcard (t_members state) + fcard (selected_peers (t_replication_policy state)) +
           (case t_policy_control state of None \<Rightarrow> 0 | Some (_, policy) \<Rightarrow> fcard (selected_peers policy))
     in STATE_BASE_BYTES + length (t_event_type_id state) + PEER_BYTES * peers +
        CONTROL_BYTES * fcard (fmdom (t_membership_controls state)))"

definition fold_bytes :: "operation \<Rightarrow> nat" where
  "fold_bytes op =
    (case b_payload (body op) of
       Genesis g \<Rightarrow> length (g_event_type_id g) +
         PEER_BYTES * (fcard (g_initial_peers g) + 2 * fcard (selected_peers (g_replication_policy g)))
     | Control (SetReplicationPolicy policy) \<Rightarrow> 2 * PEER_BYTES * fcard (selected_peers policy)
     | Control _ \<Rightarrow> CONTROL_BYTES + PEER_BYTES
     | Event _ \<Rightarrow> 0)"

type_synonym projections = "(op_id, topic_state) btree_map"

definition projection_bytes :: "projections \<Rightarrow> nat" where
  "projection_bytes states = sum_list (map (\<lambda>(_, state). state_bytes state) (iter_map states))"

text \<open>
  The bytes a projection uses and those it holds of the store. \<open>hold\<close> is the store's answer to the
  next step of \<open>HOLD_BYTES\<close>, given what is held.
\<close>

record workspace =
  ws_held :: nat
  ws_used :: nat

type_synonym hold = "nat \<Rightarrow> unit result"

function ws_hold :: "hold \<Rightarrow> workspace \<Rightarrow> workspace result" where
  "ws_hold hold ws =
    (if ws_used ws \<le> ws_held ws then Ok ws
     else rbind (hold (ws_held ws)) (\<lambda>_. ws_hold hold (ws\<lparr>ws_held := ws_held ws + HOLD_BYTES\<rparr>)))"
  by pat_completeness auto
termination by (relation "measure (\<lambda>(_, ws). ws_used ws - ws_held ws)") (simp_all add: HOLD_BYTES_def)

declare ws_hold.simps [simp del]

definition ws_charge :: "hold \<Rightarrow> nat \<Rightarrow> workspace \<Rightarrow> workspace result" where
  "ws_charge hold bytes ws =
    (let ws = ws\<lparr>ws_used := min (ws_used ws + bytes) (2 ^ 64 - 1)\<rparr> in
     if ws_used ws > MAX_WORKSPACE_BYTES
     then Err (MemoryPressure MdWorkspace (of_nat (ws_used ws)) (of_nat MAX_WORKSPACE_BYTES))
     else ws_hold hold ws)"

section \<open>Projection\<close>

type_synonym walked = "op_id btree_set \<times> operation list \<times> nat \<times> workspace"

definition project_visit ::
  "externals \<Rightarrow> hold \<Rightarrow> memory_inner \<Rightarrow> topic_id \<Rightarrow> (op_id, operation) btree_map \<Rightarrow> (op_id, op_meta) btree_map \<Rightarrow> projections
    \<Rightarrow> op_id \<Rightarrow> walked \<Rightarrow> (op_id btree_set \<times> walked) result" where
  "project_visit x hold inner topic ops metas projections i = (\<lambda>(known, folded, grows, ws).
    rbind (ws_charge hold SEEN_BYTES ws) (\<lambda>ws.
    if contains_key projections i then Ok ({||}, finsert i known, folded, grows, ws)
    else rbind (meta_projected inner metas i) (\<lambda>m.
      if m_topic_id m \<noteq> topic then Err TopicMismatch
      else rbind (ws_charge hold (WALK_BYTES * fcard (m_deps m)) ws) (\<lambda>ws.
        rbind (op_projected inner ops i) (\<lambda>op.
        case b_payload (body op) of
          Event _ \<Rightarrow> Ok (m_deps m, known, folded, grows, ws)
        | _ \<Rightarrow>
            rbind (ok_or (x_op_size x op) Encode) (\<lambda>size.
            rbind (ws_charge hold (3 * size) ws) (\<lambda>ws.
              Ok (m_deps m, known, folded @ [op], grows + fold_bytes op, ws))))))))"

definition walkable :: "memory_inner \<Rightarrow> (op_id, op_meta) btree_map \<Rightarrow> projections \<Rightarrow> op_id btree_set" where
  "walkable inner metas projections = fmdom projections |\<union>| fmdom metas |\<union>| fmdom (mi_meta inner)"

lemma project_visit_walkable:
  assumes "project_visit x hold inner topic ops metas projections i w = Ok r"
  shows "i |\<in>| walkable inner metas projections"
  using assms
  by (cases w) (auto simp: project_visit_def walkable_def meta_projected_def contains_key_def rbind_eq_Ok ok_or_eq_Ok fmlookup_dom_iff
    split: if_splits option.splits)

function project_walk ::
  "externals \<Rightarrow> hold \<Rightarrow> memory_inner \<Rightarrow> topic_id \<Rightarrow> (op_id, operation) btree_map \<Rightarrow> (op_id, op_meta) btree_map \<Rightarrow> projections
    \<Rightarrow> op_id list \<Rightarrow> op_id btree_set \<Rightarrow> walked \<Rightarrow> walked result" where
  "project_walk x hold inner topic ops metas projections [] seen w = Ok w"
| "project_walk x hold inner topic ops metas projections (i # walk) seen w =
    (if i |\<in>| seen then project_walk x hold inner topic ops metas projections walk seen w
     else rbind (project_visit x hold inner topic ops metas projections i w) (\<lambda>r.
       project_walk x hold inner topic ops metas projections (rev (iter_set (fst r)) @ walk) (finsert i seen) (snd r)))"
  by pat_completeness auto
termination
proof (relation "measures [\<lambda>(_, _, inner, _, _, metas, projections, _, seen, _). fcard (walkable inner metas projections |-| seen),
    \<lambda>(_, _, _, _, _, _, _, walk, _). length walk]")
  fix x :: externals and hold :: hold and inner :: memory_inner and topic :: topic_id and ops metas projections
    and walk :: "op_id list" and i seen and w :: walked and r
  assume "i |\<notin>| seen" "project_visit x hold inner topic ops metas projections i w = Ok r"
  then have "fcard (walkable inner metas projections |-| finsert i seen) < fcard (walkable inner metas projections |-| seen)"
    by (intro pfsubset_fcard_mono) (auto dest: project_visit_walkable)
  then show "((x, hold, inner, topic, ops, metas, projections, rev (iter_set (fst r)) @ walk, finsert i seen, snd r),
      (x, hold, inner, topic, ops, metas, projections, i # walk, seen, w))
    \<in> measures [\<lambda>(_, _, inner, _, _, metas, projections, _, seen, _). fcard (walkable inner metas projections |-| seen),
        \<lambda>(_, _, _, _, _, _, _, walk, _). length walk]" by simp
qed simp_all

definition fold_control :: "operation \<Rightarrow> topic_state \<Rightarrow> topic_state result" where
  "fold_control op state =
    (case b_payload (body op) of
       Genesis _ \<Rightarrow> if o_id op \<noteq> t_genesis state then Err InvalidGenesis else Ok state
     | Control control \<Rightarrow> Ok (apply_control state op control)
     | Event _ \<Rightarrow> Ok state)"

definition keep_projection :: "op_id btree_set \<Rightarrow> op_id btree_set \<Rightarrow> topic_state \<Rightarrow> projections \<Rightarrow> projections" where
  "keep_projection deps known state projections =
    (case iter_set deps of
       [dep] \<Rightarrow>
         let projections = fmfilter (\<lambda>i. i |\<notin>| known) projections
         in if projection_bytes projections + state_bytes state \<le> MAX_PROJECTION_BYTES
            then fmupd dep state projections else projections
     | _ \<Rightarrow> projections)"

definition project_membership ::
  "externals \<Rightarrow> hold \<Rightarrow> memory_inner \<Rightarrow> topic_id \<Rightarrow> op_id btree_set \<Rightarrow> (op_id, operation) btree_map \<Rightarrow> (op_id, op_meta) btree_map
    \<Rightarrow> projections \<Rightarrow> (topic_state \<times> projections) result" where
  "project_membership x hold inner topic deps ops metas projections =
    (case (case iter_set deps of [dep] \<Rightarrow> fmlookup projections dep | _ \<Rightarrow> None) of
       Some state \<Rightarrow> Ok (state, projections)
     | None \<Rightarrow>
         rbind (ws_charge hold (WALK_BYTES * fcard deps) \<lparr>ws_held = 0, ws_used = 0\<rparr>) (\<lambda>ws.
         rbind (project_walk x hold inner topic ops metas projections (rev (iter_set deps)) {||} ({||}, [], 0, ws))
           (\<lambda>(known, folded, grows, ws).
         rbind (if known = {||}
           then rbind (ws_charge hold (STATE_BASE_BYTES + 2 * grows) ws) (\<lambda>_. materialize_topic_state folded {||})
           else rbind (ws_charge hold (projection_bytes (fmfilter (\<lambda>i. i |\<in>| known) projections) + grows) ws) (\<lambda>_.
             rbind (merge_states known projections) (fold_res fold_control folded))) (\<lambda>state.
         Ok (state, keep_projection deps known state projections)))))"

end
