(* ===== verification/Oplog_Batch.thy ===== *)
theory Oplog_Batch
  imports Oplog_Projection
begin

text \<open>
  Validating received operations and building the batch an admission commits: \<open>build_batch\<close> of
  \<open>oplog/admission.rs\<close> and the checks it calls. Nothing here writes.
\<close>

section \<open>Validating one operation\<close>

datatype stored_op = Absent | Repair | Complete

definition stored_op_state :: "memory_inner \<Rightarrow> operation \<Rightarrow> stored_op" where
  "stored_op_state inner op =
    (let has_op = contains_key (mi_ops inner) (o_id op); has_meta = contains_key (mi_meta inner) (o_id op); b = body op in
     if has_op \<and> has_meta then Complete
     else if has_op \<or> has_meta then Repair
     else if actor_index inner (b_topic_id b) (b_actor_id b) (b_actor_seq b) = Some (o_id op) \<or>
       store_children inner (o_id op) \<noteq> {||} then Repair
     else Absent)"

definition covers_controls :: "memory_inner \<Rightarrow> operation \<Rightarrow> topic_state \<Rightarrow> (op_id, op_meta) btree_map \<Rightarrow> bool result" where
  "covers_controls inner op state metas =
    (if b_deps (body op) = {||} then Ok False
     else rbind (meta_for_projected inner metas op) (\<lambda>m.
       let covered = (\<lambda>key. case key of ControlKey _ actor seq _ \<Rightarrow> clock_get (m_observed_clock m) actor \<ge> seq)
       in Ok (list_all (\<lambda>(_, key, _). covered key) (iter_map (t_membership_controls state)) \<and>
         (case t_policy_control state of None \<Rightarrow> True | Some (key, _) \<Rightarrow> covered key))))"

text \<open>Whether the author is a member at the operation's causal frontier.\<close>

definition author_is_member ::
  "externals \<Rightarrow> hold \<Rightarrow> memory_inner \<Rightarrow> operation \<Rightarrow> batch_overlay \<Rightarrow> op_id btree_set \<Rightarrow> topic_state \<Rightarrow> projections
    \<Rightarrow> (bool \<times> projections) result" where
  "author_is_member x hold inner op overlay heads state projections =
    (let b = body op in
     rbind (if b_deps b = heads then Ok True else covers_controls inner op state (bo_meta overlay)) (\<lambda>covered.
       if covered then Ok (b_author b |\<in>| t_members state, projections)
       else rbind (project_membership x hold inner (b_topic_id b) (b_deps b) (bo_ops overlay) (bo_meta overlay) projections)
         (\<lambda>(state, projections). Ok (b_author b |\<in>| t_members state, projections))))"

definition require_member :: "(bool \<times> projections) result \<Rightarrow> projections result" where
  "require_member r = rbind r (\<lambda>(is_member, projections). if is_member then Ok projections else Err NotTopicMember)"

definition check_payload ::
  "externals \<Rightarrow> hold \<Rightarrow> memory_inner \<Rightarrow> operation \<Rightarrow> batch_overlay \<Rightarrow> op_id btree_set \<Rightarrow> topic_state option \<Rightarrow> projections
    \<Rightarrow> projections result" where
  "check_payload x hold inner op overlay heads state projections =
    (let b = body op in
     case b_payload b of
       Genesis g \<Rightarrow>
         if b_actor_seq b \<noteq> 1 \<or> b_actor_prev b \<noteq> None \<or> b_deps b \<noteq> {||} \<or>
           length (g_event_type_id g) > MAX_TYPE_BYTES \<or> state \<noteq> None
         then Err InvalidGenesis else Ok projections
     | Event envelope \<Rightarrow>
         rbind (ok_or state TopicNotFound) (\<lambda>state.
         rbind (ensure_event_type (t_event_type_id state) (ev_type_id envelope)) (\<lambda>_.
           require_member (author_is_member x hold inner op overlay heads state projections)))
     | Control _ \<Rightarrow>
         rbind (ok_or state TopicNotFound) (\<lambda>state.
           require_member (author_is_member x hold inner op overlay heads state projections)))"

definition check_generation :: "memory_inner \<Rightarrow> (op_id, op_meta) btree_map \<Rightarrow> op_body \<Rightarrow> unit result" where
  "check_generation inner metas b =
    rbind (deps_generation (header_projected inner metas) (b_deps b)) (\<lambda>generation.
      if b_generation b \<noteq> generation then Err (GenerationMismatch generation (b_generation b)) else Ok ())"

definition validate_op_projected ::
  "externals \<Rightarrow> hold \<Rightarrow> memory_inner \<Rightarrow> operation \<Rightarrow> batch_overlay \<Rightarrow> op_id btree_set \<Rightarrow> topic_state option \<Rightarrow> projections
    \<Rightarrow> (op_admission \<times> projections) result" where
  "validate_op_projected x hold inner op overlay heads state projections =
    (let b = body op; slot = overlay_slot inner overlay b in
     if b_actor_id b \<noteq> actor_id_for (x_blake3 x) (b_topic_id b) (b_author b) then Err ActorAuthorMismatch
     else if (case b_actor_prev b of None \<Rightarrow> False | Some prev \<Rightarrow> prev |\<notin>| b_deps b) then Err ActorPrevMismatch
     else if slot \<noteq> None \<and> slot \<noteq> Some (o_id op) then Err ActorFork
     else if slot = Some (o_id op) \<and> is_admitted_duplicate inner op then Ok (Duplicate, projections)
     else rbind (check_payload x hold inner op overlay heads state projections) (\<lambda>projections.
       rbind (next_actor_position (overlay_tip inner overlay b)) (\<lambda>(expected_seq, expected_prev).
       if b_actor_seq b \<noteq> expected_seq
       then if b_actor_seq b < expected_seq \<and> is_admitted_duplicate inner op then Ok (Duplicate, projections)
         else Err (ActorSeqGap expected_seq (b_actor_seq b))
       else if b_actor_prev b \<noteq> expected_prev then Err ActorPrevMismatch
       else rbind (check_generation inner (bo_meta overlay) b) (\<lambda>_. Ok (Admit, projections)))))"

section \<open>Refilling a damaged record\<close>

definition check_repair_payload ::
  "externals \<Rightarrow> hold \<Rightarrow> memory_inner \<Rightarrow> operation \<Rightarrow> topic_state option \<Rightarrow> (op_id, operation) btree_map \<Rightarrow> (op_id, op_meta) btree_map
    \<Rightarrow> projections \<Rightarrow> projections result" where
  "check_repair_payload x hold inner op state ops metas projections =
    (let b = body op;
         member = require_member (rbind (project_membership x hold inner (b_topic_id b) (b_deps b) ops metas projections)
           (\<lambda>(state, projections). Ok (b_author b |\<in>| t_members state, projections))) in
     case b_payload b of
       Genesis g \<Rightarrow>
         if \<not> is_structural_genesis op \<or> length (g_event_type_id g) > MAX_TYPE_BYTES \<or>
           (case state of None \<Rightarrow> False | Some s \<Rightarrow> t_genesis s \<noteq> o_id op)
         then Err InvalidGenesis else Ok projections
     | Event envelope \<Rightarrow>
         rbind (ok_or state TopicNotFound) (\<lambda>state.
         rbind (ensure_event_type (t_event_type_id state) (ev_type_id envelope)) (\<lambda>_. member))
     | Control _ \<Rightarrow> rbind (ok_or state TopicNotFound) (\<lambda>_. member))"

definition check_repair_prev :: "memory_inner \<Rightarrow> (op_id, op_meta) btree_map \<Rightarrow> op_body \<Rightarrow> unit result" where
  "check_repair_prev inner metas b =
    (case b_actor_prev b of
       None \<Rightarrow> if b_actor_seq b = 1 then Ok () else Err ActorPrevMismatch
     | Some prev \<Rightarrow>
         if b_actor_seq b \<ge> 2 \<and> prev |\<in>| b_deps b
         then rbind (header_projected inner metas prev) (\<lambda>h.
           if h_topic_id h \<noteq> b_topic_id b \<or> h_actor_id h \<noteq> b_actor_id b then Err ActorPrevMismatch
           else rbind (checked_next (h_actor_seq h)) (\<lambda>n. if n \<noteq> b_actor_seq b then Err ActorPrevMismatch else Ok ()))
         else Err ActorPrevMismatch)"

definition check_repair_generation :: "memory_inner \<Rightarrow> (op_id, op_meta) btree_map \<Rightarrow> op_body \<Rightarrow> unit result" where
  "check_repair_generation inner metas b =
    rbind (fold_res (\<lambda>i generation.
      rbind (header_projected inner metas i) (\<lambda>h.
        if h_topic_id h \<noteq> b_topic_id b then Err TopicMismatch
        else rbind (checked_next (h_generation h)) (\<lambda>g. Ok (max generation g)))) (iter_set (b_deps b)) 0) (\<lambda>generation.
      if b_generation b \<noteq> generation then Err (GenerationMismatch generation (b_generation b)) else Ok ())"

text \<open>Equality of metadata compares clocks by their entries.\<close>

definition meta_eq :: "op_meta \<Rightarrow> op_meta \<Rightarrow> bool" where
  "meta_eq a b \<longleftrightarrow> clock_eq (m_observed_clock a) (m_observed_clock b) \<and>
    a\<lparr>m_observed_clock := clock_new\<rparr> = b\<lparr>m_observed_clock := clock_new\<rparr>"

definition validate_repair ::
  "externals \<Rightarrow> hold \<Rightarrow> memory_inner \<Rightarrow> operation \<Rightarrow> topic_state option \<Rightarrow> (op_id, operation) btree_map \<Rightarrow> (op_id, op_meta) btree_map
    \<Rightarrow> projections \<Rightarrow> (op_meta \<times> projections) result" where
  "validate_repair x hold inner op state ops metas projections =
    (let b = body op in
     if b_actor_id b \<noteq> actor_id_for (x_blake3 x) (b_topic_id b) (b_author b) then Err ActorAuthorMismatch
     else if (case actor_index inner (b_topic_id b) (b_actor_id b) (b_actor_seq b) of None \<Rightarrow> False | Some i \<Rightarrow> i \<noteq> o_id op)
     then Err ActorFork
     else rbind (check_repair_payload x hold inner op state ops metas projections) (\<lambda>projections.
       rbind (check_repair_prev inner metas b) (\<lambda>_.
       rbind (check_repair_generation inner metas b) (\<lambda>_.
       rbind (meta_for_projected inner metas op) (\<lambda>m.
         if (case fmlookup (mi_meta inner) (o_id op) of None \<Rightarrow> False | Some stored \<Rightarrow> \<not> meta_eq stored m)
         then Err InvalidOpId else Ok (m, projections))))))"

section \<open>Building a batch\<close>

record build =
  bl_heads :: "op_id btree_set"
  bl_state :: "topic_state option"
  bl_state_changed :: bool
  bl_overlay :: batch_overlay
  bl_admitted :: "op_id list"
  bl_pending :: "(operation \<times> op_id btree_set) list"
  bl_accepted :: "op_id btree_set"
  bl_projections :: projections
  bl_tips :: "op_id btree_set"

definition accept_op :: "operation \<Rightarrow> op_meta \<Rightarrow> build \<Rightarrow> build" where
  "accept_op op m bl = bl\<lparr>
    bl_overlay := (bl_overlay bl)\<lparr>bo_meta := fmupd (o_id op) m (bo_meta (bl_overlay bl)),
      bo_ops := fmupd (o_id op) op (bo_ops (bl_overlay bl))\<rparr>,
    bl_accepted := finsert (o_id op) (bl_accepted bl), bl_admitted := bl_admitted bl @ [o_id op]\<rparr>"

definition genesis_topic_state :: "operation \<Rightarrow> topic_genesis \<Rightarrow> op_id btree_set \<Rightarrow> topic_state" where
  "genesis_topic_state op g heads =
    \<lparr>t_topic_id = b_topic_id (body op), t_event_type_id = g_event_type_id g, t_genesis = o_id op, t_heads = heads,
     t_members = g_initial_peers g, t_replication_policy = g_replication_policy g, t_membership_controls = fmempty,
     t_policy_control = None\<rparr>"

definition next_state :: "operation \<Rightarrow> topic_state option \<Rightarrow> topic_state option result" where
  "next_state op state =
    (case b_payload (body op) of
       Genesis g \<Rightarrow> Ok (Some (genesis_topic_state op g {||}))
     | Event _ \<Rightarrow> Ok state
     | Control control \<Rightarrow> rbind (ok_or state TopicNotFound) (\<lambda>state. Ok (Some (apply_control state op control))))"

definition is_event :: "operation \<Rightarrow> bool" where
  "is_event op = (case b_payload (body op) of Event _ \<Rightarrow> True | _ \<Rightarrow> False)"

definition heads_after :: "op_id btree_set \<Rightarrow> operation \<Rightarrow> op_id btree_set" where
  "heads_after heads op = finsert (o_id op) (heads |-| b_deps (body op))"

definition append_op :: "memory_inner \<Rightarrow> operation \<Rightarrow> build \<Rightarrow> build result" where
  "append_op inner op bl =
    rbind (meta_for_projected inner (bo_meta (bl_overlay bl)) op) (\<lambda>m.
    rbind (next_state op (bl_state bl)) (\<lambda>state.
      let topic = b_topic_id (body op); overlay = bl_overlay bl in
      Ok (accept_op op m (bl\<lparr>bl_tips := b_deps (body op), bl_heads := heads_after (bl_heads bl) op, bl_state := state,
        bl_state_changed := (bl_state_changed bl \<or> \<not> is_event op),
        bl_overlay := overlay\<lparr>bo_index := fmupd (topic, m_actor_id m, m_actor_seq m) (o_id op) (bo_index overlay),
          bo_tips := fmupd (topic, m_actor_id m) (m_actor_seq m, o_id op) (bo_tips overlay)\<rparr>\<rparr>))))"

definition build_op :: "externals \<Rightarrow> hold \<Rightarrow> memory_inner \<Rightarrow> op_id btree_set \<Rightarrow> bool \<Rightarrow> operation \<Rightarrow> build \<Rightarrow> build result" where
  "build_op x hold inner verified reset op bl =
    rbind (validate_frame x op) (\<lambda>_.
    rbind (if o_id op |\<in>| verified then Ok () else op_validate x op) (\<lambda>_.
    let stored = if reset then Absent else stored_op_state inner op; overlay = bl_overlay bl in
    if stored = Complete then (if bl_state bl = None then Err AdmissionConflict else Ok bl)
    else
      let missing = missing_deps_projected inner op (bo_ops overlay) reset in
      if stored = Repair
      then if missing = {||}
        then rbind (validate_repair x hold inner op (bl_state bl) (bo_ops overlay) (bo_meta overlay) (bl_projections bl))
          (\<lambda>(m, projections). Ok (accept_op op m (bl\<lparr>bl_projections := projections\<rparr>)))
        else Ok (bl\<lparr>bl_pending := bl_pending bl @ [(op, missing)]\<rparr>)
      else if missing \<noteq> {||}
      then rbind (validate_pending_op x inner op missing overlay (bl_state bl)) (\<lambda>answer.
        Ok (if answer = Duplicate then bl else bl\<lparr>bl_pending := bl_pending bl @ [(op, missing)]\<rparr>))
      else rbind (validate_op_projected x hold inner op overlay (bl_heads bl) (bl_state bl) (bl_projections bl))
        (\<lambda>(answer, projections).
          if answer = Duplicate then Ok (bl\<lparr>bl_projections := projections\<rparr>)
          else append_op inner op (bl\<lparr>bl_projections := projections\<rparr>))))"

definition take_entry :: "op_id \<Rightarrow> (op_id, operation) btree_map \<times> (op_id, op_meta) btree_map \<times> (operation \<times> op_meta) list
    \<Rightarrow> ((op_id, operation) btree_map \<times> (op_id, op_meta) btree_map \<times> (operation \<times> op_meta) list) result" where
  "take_entry i = (\<lambda>(ops, metas, entries).
    case (fmlookup ops i, fmlookup metas i) of
      (Some op, Some m) \<Rightarrow> Ok (fmdrop i ops, fmdrop i metas, entries @ [(op, m)])
    | _ \<Rightarrow> Err (Storage ''admitted op left the batch overlay''))"

type_synonym receive_effects = "peer_id option \<Rightarrow> (operation \<times> op_meta) list \<Rightarrow> topic_state \<Rightarrow> admission_effects result"

record built_batch =
  bb_accepted :: "op_id btree_set"
  bb_batch :: admitted_batch
  bb_pending :: "(operation \<times> op_id btree_set) list"
  bb_projections :: projections
  bb_tips :: "op_id btree_set"

definition finish_batch ::
  "receive_effects option \<Rightarrow> peer_id option \<Rightarrow> topic_id \<Rightarrow> op_id btree_set \<Rightarrow> topic_state option \<Rightarrow> build \<Rightarrow> built_batch result" where
  "finish_batch effects source topic expected_heads expected_state bl =
    rbind (fold_res take_entry (bl_admitted bl) (bo_ops (bl_overlay bl), bo_meta (bl_overlay bl), [])) (\<lambda>(_, _, entries).
    let state = map_option (\<lambda>s. s\<lparr>t_heads := bl_heads bl\<rparr>) (bl_state bl) in
    rbind (case (effects, state) of
        (Some compute, Some s) \<Rightarrow> if entries \<noteq> [] then compute source entries s else Ok \<lparr>ef_sync_obligations = []\<rparr>
      | _ \<Rightarrow> Ok \<lparr>ef_sync_obligations = []\<rparr>) (\<lambda>effects.
    Ok \<lparr>bb_accepted = bl_accepted bl,
      bb_batch = \<lparr>ab_topic_id = topic, ab_expected_heads = expected_heads, ab_expected_topic_state = expected_state,
        ab_entries = entries, ab_heads = bl_heads bl, ab_topic_state = (if bl_state_changed bl then state else None),
        ab_effects = effects\<rparr>,
      bb_pending = bl_pending bl, bb_projections = bl_projections bl, bb_tips = bl_tips bl\<rparr>))"

definition usable_projections :: "topic_id \<Rightarrow> topic_state option \<Rightarrow> projections \<Rightarrow> projections" where
  "usable_projections topic expected states =
    fmfilter (\<lambda>i. case (expected, fmlookup states i) of
        (Some e, Some s) \<Rightarrow> t_topic_id s = topic \<and> t_genesis s = t_genesis e | _ \<Rightarrow> False) states"

definition wrong_branch :: "(topic_id \<times> op_id) option \<Rightarrow> topic_id \<Rightarrow> topic_state option \<Rightarrow> operation list \<Rightarrow> bool" where
  "wrong_branch receive_genesis topic expected_state ops =
    (case receive_genesis of
       None \<Rightarrow> False
     | Some (bound, genesis) \<Rightarrow> bound = topic \<and>
         (case expected_state of
            Some s \<Rightarrow> Some (t_genesis s)
          | None \<Rightarrow> map_option o_id (find is_structural_genesis ops)) \<noteq> Some genesis)"

definition build_start :: "op_id btree_set \<Rightarrow> topic_state option \<Rightarrow> bool \<Rightarrow> projections \<Rightarrow> build" where
  "build_start heads state reset projections =
    \<lparr>bl_heads = heads, bl_state = state, bl_state_changed = False,
     bl_overlay = \<lparr>bo_ops = fmempty, bo_meta = fmempty, bo_tips = fmempty, bo_index = fmempty, bo_reset = reset\<rparr>,
     bl_admitted = [], bl_pending = [], bl_accepted = {||}, bl_projections = projections, bl_tips = {||}\<rparr>"

definition build_batch ::
  "externals \<Rightarrow> hold \<Rightarrow> (topic_id \<times> op_id) option \<Rightarrow> projections \<Rightarrow> memory_inner \<Rightarrow> peer_id option \<Rightarrow> operation list
    \<Rightarrow> op_id btree_set \<Rightarrow> bool \<Rightarrow> receive_effects option \<Rightarrow> built_batch option result" where
  "build_batch x hold receive_genesis cached inner source ops verified reset effects =
    rbind (topological_ops ops) (\<lambda>ops.
    case ops of
      [] \<Rightarrow> Ok None
    | first # _ \<Rightarrow>
        let topic = b_topic_id (body first) in
        if list_ex (\<lambda>op. b_topic_id (body op) \<noteq> topic) ops then Err TopicMismatch
        else
          let expected_state = if reset then None else topic_state_locked inner topic;
              expected_heads = (case expected_state of None \<Rightarrow> {||} | Some s \<Rightarrow> t_heads s) in
          if wrong_branch receive_genesis topic expected_state ops then Err StaleIncarnation
          else rbind (fold_res (build_op x hold inner verified reset) ops
              (build_start expected_heads expected_state reset (usable_projections topic expected_state cached))) (\<lambda>bl.
            rbind (finish_batch effects source topic expected_heads expected_state bl) (\<lambda>built. Ok (Some built))))"

end
