(* ===== verification/History.thy ===== *)
theory History
  imports Membership
begin

text \<open>
  Causal histories of a topic as sets of operations: what a valid history is, that its clocks and
  generations describe its order, and that its heads determine it. The op log maintains one such
  history per topic.
\<close>

section \<open>Histories\<close>

definition ids :: "operation set \<Rightarrow> op_id set" where
  "ids H = o_id ` H"

definition causes :: "operation set \<Rightarrow> (op_id \<times> op_id) set" where
  "causes H = {(d, o_id op) | d op. op \<in> H \<and> d |\<in>| b_deps (body op)}"

text \<open>The operations of \<open>H\<close> with an id of \<open>I\<close>, and everything they depend on.\<close>

definition past :: "operation set \<Rightarrow> op_id set \<Rightarrow> operation set" where
  "past H I = {op \<in> H. \<exists>i \<in> I. (o_id op, i) \<in> (causes H)\<^sup>*}"

abbreviation deps_past :: "operation set \<Rightarrow> operation \<Rightarrow> operation set" where
  "deps_past H op \<equiv> past H (fset (b_deps (body op)))"

definition frontier :: "operation set \<Rightarrow> op_id set" where
  "frontier H = {o_id op | op. op \<in> H \<and> (\<forall>q \<in> H. o_id op |\<notin>| b_deps (body q))}"

definition op_slot :: "operation \<Rightarrow> actor_id \<times> u64" where
  "op_slot op = (b_actor_id (body op), b_actor_seq (body op))"

definition is_genesis :: "operation \<Rightarrow> bool" where
  "is_genesis op = (case b_payload (body op) of Genesis _ \<Rightarrow> True | _ \<Rightarrow> False)"

text \<open>One more than the highest generation of the dependencies.\<close>

definition gen_ok :: "operation set \<Rightarrow> operation \<Rightarrow> bool" where
  "gen_ok H op \<longleftrightarrow>
    (\<forall>q \<in> H. o_id q |\<in>| b_deps (body op) \<longrightarrow> unat (b_generation (body q)) < unat (b_generation (body op))) \<and>
    (if b_deps (body op) = {||} then b_generation (body op) = 0
     else \<exists>q \<in> H. o_id q |\<in>| b_deps (body op) \<and> unat (b_generation (body op)) = unat (b_generation (body q)) + 1)"

text \<open>An actor's operations form a chain, and each depends on the one before it.\<close>

definition pos_ok :: "operation set \<Rightarrow> operation \<Rightarrow> bool" where
  "pos_ok H op \<longleftrightarrow>
    (case b_actor_prev (body op) of
       None \<Rightarrow> b_actor_seq (body op) = 1
     | Some p \<Rightarrow> p |\<in>| b_deps (body op) \<and> (\<exists>q \<in> H. o_id q = p \<and> b_actor_id (body q) = b_actor_id (body op) \<and>
         unat (b_actor_seq (body op)) = unat (b_actor_seq (body q)) + 1))"

text \<open>The author is a member in the state its dependencies make, and an event has the topic's type.\<close>

definition authorized :: "operation set \<Rightarrow> operation \<Rightarrow> bool" where
  "authorized H op \<longleftrightarrow>
    (case b_payload (body op) of
       Genesis _ \<Rightarrow> True
     | Event ev \<Rightarrow> \<exists>s. materialized (deps_past H op) {||} s \<and> b_author (body op) |\<in>| t_members s \<and> ev_type_id ev = t_event_type_id s
     | Control _ \<Rightarrow> \<exists>s. materialized (deps_past H op) {||} s \<and> b_author (body op) |\<in>| t_members s)"

definition op_ok :: "externals \<Rightarrow> topic_id \<Rightarrow> operation set \<Rightarrow> operation \<Rightarrow> bool" where
  "op_ok x t H op \<longleftrightarrow> b_topic_id (body op) = t \<and> op_validate x op = Ok () \<and>
    b_actor_id (body op) = actor_id_for (x_blake3 x) t (b_author (body op)) \<and>
    fset (b_deps (body op)) \<subseteq> ids H \<and> is_genesis op = (b_deps (body op) = {||}) \<and>
    gen_ok H op \<and> pos_ok H op \<and> authorized H op"

definition hist_ok :: "externals \<Rightarrow> topic_id \<Rightarrow> operation set \<Rightarrow> bool" where
  "hist_ok x t H \<longleftrightarrow> finite H \<and> inj_on o_id H \<and> inj_on op_slot H \<and> (\<forall>op \<in> H. op_ok x t H op) \<and>
    (\<forall>a \<in> H. \<forall>b \<in> H. is_genesis a \<longrightarrow> is_genesis b \<longrightarrow> a = b)"

lemma hist_okD:
  assumes "hist_ok x t H"
  shows "finite H" "inj_on o_id H" "inj_on op_slot H" "op \<in> H \<Longrightarrow> op_ok x t H op"
    "a \<in> H \<Longrightarrow> b \<in> H \<Longrightarrow> is_genesis a \<Longrightarrow> is_genesis b \<Longrightarrow> a = b"
  using assms by (simp_all add: hist_ok_def)

lemma op_okD:
  assumes "op_ok x t H op"
  shows "b_topic_id (body op) = t" "op_validate x op = Ok ()"
    "b_actor_id (body op) = actor_id_for (x_blake3 x) t (b_author (body op))"
    "fset (b_deps (body op)) \<subseteq> ids H" "is_genesis op = (b_deps (body op) = {||})"
    "gen_ok H op" "pos_ok H op" "authorized H op"
  using assms by (simp_all add: op_ok_def)

lemma hist_ok_empty [simp]: "hist_ok x t {}"
  by (simp add: hist_ok_def)

section \<open>Pasts\<close>

lemma ids_iff: "i \<in> ids H \<longleftrightarrow> (\<exists>op \<in> H. o_id op = i)"
  by (auto simp: ids_def)

lemma causes_iff: "(d, i) \<in> causes H \<longleftrightarrow> (\<exists>op \<in> H. o_id op = i \<and> d |\<in>| b_deps (body op))"
  by (auto simp: causes_def)

lemma past_sub: "past H I \<subseteq> H"
  by (auto simp: past_def)

lemma past_mono: "I \<subseteq> J \<Longrightarrow> past H I \<subseteq> past H J"
  by (auto simp: past_def)

lemma past_UN: "past H (\<Union>k \<in> K. f k) = (\<Union>k \<in> K. past H (f k))"
  by (auto simp: past_def)

lemma past_Un: "past H (I \<union> J) = past H I \<union> past H J"
  by (auto simp: past_def)

lemma past_empty [simp]: "past H {} = {}"
  by (simp add: past_def)

lemma past_self: "op \<in> H \<Longrightarrow> o_id op \<in> I \<Longrightarrow> op \<in> past H I"
  by (auto simp: past_def)

lemma past_dep:
  assumes "op \<in> past H I" "q \<in> H" "o_id q |\<in>| b_deps (body op)"
  shows "q \<in> past H I"
proof -
  obtain i where i: "op \<in> H" "i \<in> I" "(o_id op, i) \<in> (causes H)\<^sup>*" using assms(1) by (auto simp: past_def)
  have "(o_id q, o_id op) \<in> causes H" using i(1) assms(3) by (auto simp: causes_iff)
  then show ?thesis using i assms(2) by (auto simp: past_def intro: converse_rtrancl_into_rtrancl)
qed

lemma past_trans:
  assumes "op \<in> past H I" "o_id op \<in> J \<Longrightarrow> True" "q \<in> past H {o_id op}"
  shows "q \<in> past H I"
  using assms(1,3) by (auto simp: past_def intro: rtrancl_trans)

lemma past_unfold:
  assumes "inj_on o_id H" "op \<in> H"
  shows "past H {o_id op} = insert op (deps_past H op)"
proof (rule set_eqI)
  fix q :: operation
  have "(o_id q, o_id op) \<in> (causes H)\<^sup>* \<longleftrightarrow> o_id q = o_id op \<or> (\<exists>d. d |\<in>| b_deps (body op) \<and> (o_id q, d) \<in> (causes H)\<^sup>*)"
  proof
    assume "(o_id q, o_id op) \<in> (causes H)\<^sup>*"
    then show "o_id q = o_id op \<or> (\<exists>d. d |\<in>| b_deps (body op) \<and> (o_id q, d) \<in> (causes H)\<^sup>*)"
    proof (cases rule: rtranclE)
      case (step d)
      then obtain op' where "op' \<in> H" "o_id op' = o_id op" "d |\<in>| b_deps (body op')" by (auto simp: causes_iff)
      then have "op' = op" using assms by (auto dest: inj_onD)
      then show ?thesis using step \<open>d |\<in>| b_deps (body op')\<close> by auto
    qed simp
  next
    assume "o_id q = o_id op \<or> (\<exists>d. d |\<in>| b_deps (body op) \<and> (o_id q, d) \<in> (causes H)\<^sup>*)"
    moreover have "(d, o_id op) \<in> causes H" if "d |\<in>| b_deps (body op)" for d using that assms(2) by (auto simp: causes_iff)
    ultimately show "(o_id q, o_id op) \<in> (causes H)\<^sup>*" by (metis rtrancl.rtrancl_refl rtrancl_into_rtrancl)
  qed
  then show "q \<in> past H {o_id op} \<longleftrightarrow> q \<in> insert op (deps_past H op)"
    using assms by (auto simp: past_def dest: inj_onD)
qed

text \<open>A part of a history that contains its dependencies has the pasts of the whole.\<close>

lemma past_closed:
  assumes inj: "inj_on o_id H" and sub: "G \<subseteq> H" and closed: "\<And>op. op \<in> G \<Longrightarrow> fset (b_deps (body op)) \<subseteq> ids G" and I: "I \<subseteq> ids G"
  shows "past H I = past G I"
proof
  have step: "(d, j) \<in> causes G \<and> d \<in> ids G" if c: "(d, j) \<in> causes H" "j \<in> ids G" for d j
  proof -
    obtain op where op: "op \<in> H" "o_id op = j" "d |\<in>| b_deps (body op)" using c(1) by (auto simp: causes_iff)
    obtain op' where op': "op' \<in> G" "o_id op' = j" using c(2) by (auto simp: ids_iff)
    have "op' = op" using inj op op' sub by (auto dest: inj_onD)
    then show ?thesis using op op' closed by (auto simp: causes_iff)
  qed
  have down: "(a, i) \<in> (causes G)\<^sup>* \<and> a \<in> ids G" if c: "(a, i) \<in> (causes H)\<^sup>*" "i \<in> ids G" for a i
    using c by (induction rule: converse_rtrancl_induct) (auto dest: step intro: converse_rtrancl_into_rtrancl)
  show "past H I \<subseteq> past G I"
  proof
    fix op assume "op \<in> past H I"
    then obtain i where i: "op \<in> H" "i \<in> I" "(o_id op, i) \<in> (causes H)\<^sup>*" by (auto simp: past_def)
    from down[OF i(3)] i(2) I have b: "(o_id op, i) \<in> (causes G)\<^sup>*" "o_id op \<in> ids G" by auto
    then have "op \<in> G" using i(1) inj sub by (auto simp: ids_iff dest: inj_onD)
    then show "op \<in> past G I" using b i(2) by (auto simp: past_def)
  qed
  have "causes G \<subseteq> causes H" using sub by (auto simp: causes_def)
  then show "past G I \<subseteq> past H I" using sub by (auto simp: past_def dest: rtrancl_mono[THEN subsetD])
qed

lemma past_idem: "past H (ids (past H I)) = past H I"
proof
  show "past H (ids (past H I)) \<subseteq> past H I"
    by (auto simp: past_def ids_def intro: rtrancl_trans)
  show "past H I \<subseteq> past H (ids (past H I))"
    by (auto simp: ids_def intro: past_self subsetD[OF past_sub])
qed

section \<open>Generations\<close>

lemma causes_gen:
  assumes h: "hist_ok x t H" and c: "(d, i) \<in> causes H"
  obtains p q where "p \<in> H" "q \<in> H" "o_id p = d" "o_id q = i" "unat (b_generation (body p)) < unat (b_generation (body q))"
proof -
  obtain q where q: "q \<in> H" "o_id q = i" "d |\<in>| b_deps (body q)" using c by (auto simp: causes_iff)
  note ok = op_okD[OF hist_okD(4)[OF h q(1)]]
  have "d \<in> ids H" using ok(4) q(3) by blast
  then obtain p where p: "p \<in> H" "o_id p = d" by (auto simp: ids_iff)
  then have "unat (b_generation (body p)) < unat (b_generation (body q))" using ok(6) q(3) by (auto simp: gen_ok_def)
  then show thesis using that p q by blast
qed

lemma causes_trancl_gen:
  assumes h: "hist_ok x t H" and c: "(d, i) \<in> (causes H)\<^sup>+"
  shows "\<exists>p q. p \<in> H \<and> q \<in> H \<and> o_id p = d \<and> o_id q = i \<and> unat (b_generation (body p)) < unat (b_generation (body q))"
  using c
proof (induction rule: trancl_induct)
  case (base i)
  then show ?case by (rule causes_gen[OF h]) blast
next
  case (step j i)
  obtain p q where pq: "p \<in> H" "q \<in> H" "o_id p = d" "o_id q = j" "unat (b_generation (body p)) < unat (b_generation (body q))"
    using step.IH by blast
  obtain q' r where r: "q' \<in> H" "r \<in> H" "o_id q' = j" "o_id r = i" "unat (b_generation (body q')) < unat (b_generation (body r))"
    by (rule causes_gen[OF h step.hyps(2)])
  have "q' = q" using hist_okD(2)[OF h] pq r by (auto dest: inj_onD)
  then show ?case using pq r by fastforce
qed

lemma causes_acyclic: "hist_ok x t H \<Longrightarrow> acyclic (causes H)"
  unfolding acyclic_def
proof (intro allI notI)
  fix i assume h: "hist_ok x t H" and "(i, i) \<in> (causes H)\<^sup>+"
  from causes_trancl_gen[OF this] obtain p q where "p \<in> H" "q \<in> H" "o_id p = i" "o_id q = i"
    "unat (b_generation (body p)) < unat (b_generation (body q))" by blast
  moreover have "p = q" using hist_okD(2)[OF h] calculation by (auto dest: inj_onD)
  ultimately show False by simp
qed

lemma past_root:
  assumes h: "hist_ok x t H" and op: "op \<in> H"
  shows "\<exists>r \<in> past H {o_id op}. is_genesis r"
  using op
proof (induction "unat (b_generation (body op))" arbitrary: op rule: less_induct)
  case less
  note ok = op_okD[OF hist_okD(4)[OF h less.prems]]
  show ?case
  proof (cases "b_deps (body op) = {||}")
    case True
    then show ?thesis using ok(5) less.prems by (auto intro!: bexI[of _ op] past_self)
  next
    case False
    then obtain d where d: "d |\<in>| b_deps (body op)" by auto
    then have "d \<in> ids H" using ok(4) by blast
    then obtain q where q: "q \<in> H" "o_id q = d" by (auto simp: ids_iff)
    have "unat (b_generation (body q)) < unat (b_generation (body op))" using ok(6) q d by (auto simp: gen_ok_def)
    from less.hyps[OF this q(1)] obtain r where r: "r \<in> past H {o_id q}" "is_genesis r" by blast
    have "q \<in> past H {o_id op}" by (rule past_dep[of op]) (use less.prems q d in \<open>auto intro: past_self\<close>)
    then show ?thesis using r past_trans[of q H "{o_id op}" "{}" r] by auto
  qed
qed

section \<open>Heads\<close>

lemma past_frontier:
  assumes h: "hist_ok x t H"
  shows "past H (frontier H) = H"
proof
  show "past H (frontier H) \<subseteq> H" by (rule past_sub)
  show "H \<subseteq> past H (frontier H)"
  proof
    let ?top = "Max ((\<lambda>op. unat (b_generation (body op))) ` H)"
    fix op assume "op \<in> H"
    then show "op \<in> past H (frontier H)"
    proof (induction "?top - unat (b_generation (body op))" arbitrary: op rule: less_induct)
      case less
      show ?case
      proof (cases "o_id op \<in> frontier H")
        case True
        then show ?thesis using less.prems by (auto intro: past_self)
      next
        case False
        then obtain q where q: "q \<in> H" "o_id op |\<in>| b_deps (body q)" using less.prems by (auto simp: frontier_def)
        have "unat (b_generation (body op)) < unat (b_generation (body q))"
          using op_okD(6)[OF hist_okD(4)[OF h q(1)]] less.prems q by (auto simp: gen_ok_def)
        moreover have "unat (b_generation (body q)) \<le> ?top" using hist_okD(1)[OF h] q(1) by (intro Max_ge) auto
        ultimately have "q \<in> past H (frontier H)" using less.hyps[OF _ q(1)] by simp
        then show ?thesis using past_dep[OF _ less.prems q(2)] by blast
      qed
    qed
  qed
qed

text \<open>Ids are hashes of content that includes the ids of the dependencies: the heads name the history.\<close>

lemma frontier_determines:
  assumes h1: "hist_ok x t H" and h2: "hist_ok x t' G" and inj: "inj_on o_id (H \<union> G)" and f: "frontier H = frontier G"
  shows "H = G"
proof -
  have sub: "A \<subseteq> B" if A: "hist_ok x s A" and B: "hist_ok x s' B" and i2: "inj_on o_id (A \<union> B)" and f2: "frontier A = frontier B" for A B s s'
  proof
    fix op assume "op \<in> A"
    then have "op \<in> past A (frontier A)" using past_frontier[OF A] by blast
    then obtain i where i: "i \<in> frontier B" "(o_id op, i) \<in> (causes A)\<^sup>*" using f2 by (auto simp: past_def)
    have "i \<in> ids B" using i(1) by (auto simp: frontier_def ids_iff)
    with i(2) have "o_id op \<in> ids B"
    proof (induction rule: converse_rtrancl_induct)
      case (step d j)
      obtain p where p: "p \<in> A" "o_id p = j" "d |\<in>| b_deps (body p)" using step.hyps(1) by (auto simp: causes_iff)
      obtain q where q: "q \<in> B" "o_id q = j" using step by (auto simp: ids_iff)
      have "p = q" using i2 p q by (auto dest: inj_onD)
      then show ?case using op_okD(4)[OF hist_okD(4)[OF B q(1)]] p(3) by auto
    qed
    then obtain q where "q \<in> B" "o_id q = o_id op" by (auto simp: ids_iff)
    then show "op \<in> B" using i2 \<open>op \<in> A\<close> by (auto dest: inj_onD)
  qed
  have "H \<subseteq> G" by (rule sub[OF h1 h2 inj f])
  moreover have "G \<subseteq> H" by (rule sub[OF h2 h1]) (use inj f in \<open>auto simp: Un_commute\<close>)
  ultimately show ?thesis by blast
qed

section \<open>Positions and clocks\<close>

lemma seq_positive:
  assumes "hist_ok x t H" "op \<in> H"
  shows "1 \<le> unat (b_actor_seq (body op))"
  using op_okD(7)[OF hist_okD(4)[OF assms]] by (auto simp: pos_ok_def split: option.splits)

lemma past_chain:
  assumes h: "hist_ok x t H" and op: "op \<in> H" and s: "1 \<le> s" "s \<le> unat (b_actor_seq (body op))"
  shows "\<exists>q \<in> past H {o_id op}. b_actor_id (body q) = b_actor_id (body op) \<and> unat (b_actor_seq (body q)) = s"
  using op s(2)
proof (induction "unat (b_actor_seq (body op))" arbitrary: op rule: less_induct)
  case less
  show ?case
  proof (cases "s = unat (b_actor_seq (body op))")
    case True
    then show ?thesis using less.prems by (auto intro!: bexI[of _ op] past_self)
  next
    case False
    note ok = op_okD[OF hist_okD(4)[OF h less.prems(1)]]
    from False s(1) less.prems(2) have "b_actor_seq (body op) \<noteq> 1" by auto
    then obtain p where p: "b_actor_prev (body op) = Some p" using ok(7) by (auto simp: pos_ok_def split: option.splits)
    then obtain q where q: "q \<in> H" "o_id q = p" "p |\<in>| b_deps (body op)" "b_actor_id (body q) = b_actor_id (body op)"
      "unat (b_actor_seq (body op)) = unat (b_actor_seq (body q)) + 1" using ok(7) by (auto simp: pos_ok_def)
    then have "unat (b_actor_seq (body q)) < unat (b_actor_seq (body op))" "s \<le> unat (b_actor_seq (body q))"
      using False less.prems(2) by auto
    from less.hyps[OF this(1) q(1) this(2)] obtain r where r: "r \<in> past H {o_id q}"
      "b_actor_id (body r) = b_actor_id (body op)" "unat (b_actor_seq (body r)) = s" using q(4) by auto
    have "q \<in> past H {o_id op}" by (rule past_dep[of op]) (use less.prems q in \<open>auto intro: past_self\<close>)
    then have "r \<in> past H {o_id op}" using r(1) past_trans by blast
    then show ?thesis using r by blast
  qed
qed

text \<open>A clock that counts a set of operations.\<close>

definition clock_is :: "operation set \<Rightarrow> actor_clock \<Rightarrow> bool" where
  "clock_is A c \<longleftrightarrow>
    (\<forall>op \<in> A. b_actor_seq (body op) \<le> clock_get c (b_actor_id (body op))) \<and>
    (\<forall>a. clock_get c a = 0 \<or> (\<exists>op \<in> A. b_actor_id (body op) = a \<and> b_actor_seq (body op) = clock_get c a))"

lemma clock_is_empty [simp]: "clock_is {} clock_new"
  by (simp add: clock_is_def)

lemma clock_is_merge:
  assumes "clock_is A c" "clock_is B d"
  shows "clock_is (A \<union> B) (clock_merge c d)"
  using assms unfolding clock_is_def by (auto simp: max_def)

lemma clock_is_observe:
  assumes "clock_is A c"
  shows "clock_is (insert op A) (clock_observe c (b_actor_id (body op)) (b_actor_seq (body op)))"
  using assms unfolding clock_is_def by (auto simp: max_def)

lemma clock_is_get: "clock_is A c \<Longrightarrow> clock_is A d \<Longrightarrow> clock_get c a = clock_get d a"
  unfolding clock_is_def by (metis nle_le word_le_0_iff)

text \<open>
  What a clock of an operation's past covers lies in that past: an actor's positions are filled by one
  operation each, and each depends on the one before.
\<close>

lemma covered_past:
  assumes h: "hist_ok x t H" and I: "I \<subseteq> ids H" and c: "clock_is (past H I) c"
    and q: "q \<in> H" "b_actor_seq (body q) \<le> clock_get c (b_actor_id (body q))"
  shows "q \<in> past H I"
proof -
  have pos: "1 \<le> unat (b_actor_seq (body q))" by (rule seq_positive[OF h q(1)])
  then have "clock_get c (b_actor_id (body q)) \<noteq> 0" using q(2) by (metis not_one_le_zero unat_0 word_le_0_iff)
  then obtain p where p: "p \<in> past H I" "b_actor_id (body p) = b_actor_id (body q)"
    "b_actor_seq (body p) = clock_get c (b_actor_id (body q))" using c unfolding clock_is_def by blast
  have "unat (b_actor_seq (body q)) \<le> unat (b_actor_seq (body p))" using q(2) p(3) by (simp add: word_le_nat_alt)
  from past_chain[OF h _ pos this] p(1) obtain r where r: "r \<in> past H {o_id p}" "b_actor_id (body r) = b_actor_id (body q)"
    "unat (b_actor_seq (body r)) = unat (b_actor_seq (body q))" using p(2) past_sub by (metis subsetD)
  have "op_slot r = op_slot q" using r(2,3) by (simp add: op_slot_def word_unat_eq_iff)
  then have "r = q" using hist_okD(3)[OF h] r(1) q(1) past_sub by (metis inj_onD subsetD)
  then show ?thesis using r(1) past_trans[OF p(1)] by blast
qed

section \<open>State at a frontier\<close>

lemma materialized_past:
  assumes h: "hist_ok x t H" and m: "materialized H hs s" and I: "i \<in> I" "i \<in> ids H"
    and members: "\<And>p k b op. fmlookup (t_membership_controls s) p = Some (k, b) \<Longrightarrow> op \<in> H \<Longrightarrow> control_key op = k \<Longrightarrow> op \<in> past H I"
    and policy: "\<And>k pol op. t_policy_control s = Some (k, pol) \<Longrightarrow> op \<in> H \<Longrightarrow> control_key op = k \<Longrightarrow> op \<in> past H I"
  shows "materialized (past H I) {||} (s\<lparr>t_heads := {||}\<rparr>)"
proof -
  let ?A = "past H I"
  have sub: "?A \<subseteq> H" by (rule past_sub)
  obtain op g where g: "genesis_op H op g" "t_genesis s = o_id op" "t_topic_id s = b_topic_id (body op)"
    "t_event_type_id s = g_event_type_id g" "members_ok (g_initial_peers g) (t_membership_controls s) (t_members s)"
    "t_replication_policy s = (case t_policy_control s of None \<Rightarrow> g_replication_policy g | Some (_, pol) \<Rightarrow> pol)"
    and lm: "\<And>p. is_latest (member_offers H p) (fmlookup (t_membership_controls s) p)"
    and lp: "is_latest (policy_offers H) (t_policy_control s)"
    using m by (auto simp: materialized_def)
  obtain r where r: "r \<in> past H {i}" "is_genesis r" using past_root[OF h] I(2) by (auto simp: ids_iff)
  have "op \<in> H" "is_genesis op" using g(1) by (auto simp: genesis_op_def is_genesis_def)
  then have "r = op" using hist_okD(5)[OF h] r past_sub by blast
  then have "op \<in> ?A" using r(1) past_mono[of "{i}" I H] I(1) by auto
  then have "genesis_op ?A op g" using g(1) sub unfolding genesis_op_def by blast
  moreover have "is_latest (member_offers ?A p) (fmlookup (t_membership_controls s) p)" for p
  proof (cases "fmlookup (t_membership_controls s) p")
    case None
    then have "member_offers H p = {}" using lm[of p] by (simp add: is_latest_def)
    moreover have "member_offers ?A p \<subseteq> member_offers H p" using sub unfolding member_offers_def by blast
    ultimately show ?thesis using None by (simp add: is_latest_def)
  next
    case (Some kb)
    obtain k b where kb: "kb = (k, b)" by (cases kb)
    have l: "(k, b) \<in> member_offers H p" "\<And>k' b'. (k', b') \<in> member_offers H p \<Longrightarrow> k' \<le> k"
      using lm[of p] by (auto simp: is_latest_def Some kb)
    have "(k, b) \<in> member_offers ?A p" using l(1) members[of p k b] Some kb by (auto simp: member_offers_def)
    moreover have "member_offers ?A p \<subseteq> member_offers H p" using sub by (auto simp: member_offers_def)
    ultimately show ?thesis using l(2) by (auto simp: is_latest_def Some kb)
  qed
  moreover have "is_latest (policy_offers ?A) (t_policy_control s)"
  proof (cases "t_policy_control s")
    case None
    then have "policy_offers H = {}" using lp by (simp add: is_latest_def)
    then show ?thesis using sub None by (auto simp: is_latest_def policy_offers_def)
  next
    case (Some kb)
    obtain k b where kb: "kb = (k, b)" by (cases kb)
    have l: "(k, b) \<in> policy_offers H" "\<And>k' b'. (k', b') \<in> policy_offers H \<Longrightarrow> k' \<le> k"
      using lp by (auto simp: is_latest_def Some kb)
    have "(k, b) \<in> policy_offers ?A" using l(1) policy[of k b] Some kb by (auto simp: policy_offers_def)
    moreover have "policy_offers ?A \<subseteq> policy_offers H" using sub by (auto simp: policy_offers_def)
    ultimately show ?thesis using l(2) by (auto simp: is_latest_def Some kb)
  qed
  ultimately show ?thesis unfolding materialized_def using g(2-6) by auto
qed

section \<open>Growing a history\<close>

lemma op_ok_insert:
  assumes inj: "inj_on o_id (insert new H)" and new: "o_id new \<notin> ids H" and closed: "\<And>q. q \<in> H \<Longrightarrow> fset (b_deps (body q)) \<subseteq> ids H"
    and ok: "op_ok x t H op"
  shows "op_ok x t (insert new H) op"
proof -
  note d = op_okD[OF ok]
  have nd: "o_id new |\<notin>| b_deps (body op)" using new d(4) by blast
  have "past (insert new H) (fset (b_deps (body op))) = deps_past H op"
    by (rule past_closed[OF inj _ _ d(4)]) (use closed in auto)
  then have "authorized (insert new H) op" using d(8) unfolding authorized_def by (simp only:)
  moreover have "gen_ok (insert new H) op" using d(6) nd by (auto simp: gen_ok_def split: if_splits)
  moreover have "pos_ok (insert new H) op" using d(7) by (auto simp: pos_ok_def split: option.splits)
  moreover have "fset (b_deps (body op)) \<subseteq> ids (insert new H)" using d(4) by (auto simp: ids_def)
  ultimately show ?thesis using d by (simp add: op_ok_def)
qed

lemma hist_ok_insert:
  assumes h: "hist_ok x t H" and new: "o_id op \<notin> ids H" "op_slot op \<notin> op_slot ` H" and ok: "op_ok x t H op"
    and root: "is_genesis op \<Longrightarrow> H = {}"
  shows "hist_ok x t (insert op H)"
proof -
  have inj: "inj_on o_id (insert op H)" "inj_on op_slot (insert op H)"
    using new hist_okD(2,3)[OF h] by (auto simp: ids_def inj_on_insert)
  have "op_ok x t (insert op H) q" if "q \<in> insert op H" for q
    by (rule op_ok_insert[OF inj(1) new(1)]) (use that ok hist_okD(4)[OF h] in \<open>auto dest: op_okD(4)\<close>)
  moreover have "a = b" if "a \<in> insert op H" "b \<in> insert op H" "is_genesis a" "is_genesis b" for a b
    using that root hist_okD(5)[OF h, of a b] by auto
  ultimately show ?thesis using inj hist_okD(1)[OF h] by (auto simp: hist_ok_def)
qed

lemma frontier_insert:
  assumes h: "hist_ok x t H" and new: "o_id op \<notin> ids H" and deps: "fset (b_deps (body op)) \<subseteq> ids H"
  shows "frontier (insert op H) = insert (o_id op) (frontier H - fset (b_deps (body op)))"
proof -
  have "o_id op |\<notin>| b_deps (body q)" if "q \<in> insert op H" for q
    using that new deps op_okD(4)[OF hist_okD(4)[OF h, of q]] by auto
  then show ?thesis by (auto simp: frontier_def)
qed

end
