(* ===== verification/Projection_Sound.thy ===== *)
theory Projection_Sound
  imports Oplog_Batch History
begin

text \<open>
  The membership projection of \<open>oplog/admission.rs\<close> against histories: the state it answers for a set of
  dependencies is the one a replay of everything below them gives, however much of it comes from
  projections that were kept.
\<close>

section \<open>Reading a history\<close>

text \<open>Reads through an overlay and a store that answer for every operation of a history.\<close>

definition sees :: "memory_inner \<Rightarrow> (op_id, operation) btree_map \<Rightarrow> (op_id, op_meta) btree_map \<Rightarrow> operation set \<Rightarrow> bool" where
  "sees inner ops metas H \<longleftrightarrow> (\<forall>op \<in> H. op_projected inner ops (o_id op) = Ok op \<and>
    (\<exists>m. meta_projected inner metas (o_id op) = Ok m \<and> meta_matches op m \<and> m_topic_id m = b_topic_id (body op) \<and>
      clock_is (deps_past H op) (m_observed_clock m)))"

lemma seesD:
  assumes "sees inner ops metas H" "op \<in> H"
  shows "op_projected inner ops (o_id op) = Ok op"
    "\<exists>m. meta_projected inner metas (o_id op) = Ok m \<and> meta_matches op m \<and> m_topic_id m = b_topic_id (body op) \<and>
      clock_is (deps_past H op) (m_observed_clock m)"
  using assms by (auto simp: sees_def)

lemma meta_matchesD:
  assumes "meta_matches op m"
  shows "m_id m = o_id op" "m_actor_id m = b_actor_id (body op)" "m_actor_seq m = b_actor_seq (body op)"
    "m_actor_prev m = b_actor_prev (body op)" "m_deps m = b_deps (body op)" "m_generation m = b_generation (body op)"
  using assms by (simp_all add: meta_matches_def Let_def)

text \<open>Kept projections are states at the operations they are kept under.\<close>

definition proj_ok :: "operation set \<Rightarrow> projections \<Rightarrow> bool" where
  "proj_ok V P \<longleftrightarrow> (\<forall>i s. fmlookup P i = Some s \<longrightarrow> materialized (past V {i}) {||} s)"

lemma hist_past:
  assumes h: "hist_ok x t H" and V: "H \<subseteq> V" "inj_on o_id V" and I: "I \<subseteq> ids H"
  shows "past V I = past H I"
  by (rule past_closed[OF V(2,1) _ I]) (use hist_okD(4)[OF h] in \<open>auto dest: op_okD(4)\<close>)

lemma past_cover: "op \<in> H \<Longrightarrow> o_id op \<in> I \<Longrightarrow> past H {o_id op} \<subseteq> past H I"
  by (auto simp: past_def)

lemma past_single: "past H I = (\<Union>i \<in> I. past H {i})"
  by (auto simp: past_def)

section \<open>Events do not matter\<close>

lemma not_event: "\<not> is_event op \<longleftrightarrow> (\<forall>ev. b_payload (body op) \<noteq> Event ev)"
  by (auto simp: is_event_def split: topic_payload.splits)

lemma materialized_events:
  assumes m: "materialized S h s" and sub: "S \<subseteq> T" and ev: "\<And>op. op \<in> T - S \<Longrightarrow> is_event op \<and> b_topic_id (body op) = t_topic_id s"
  shows "materialized T h s"
proof -
  have pay: "op \<in> S" if "op \<in> T" "b_payload (body op) = Genesis g \<or> b_payload (body op) = Control c" for op g c
  proof (rule ccontr)
    assume "op \<notin> S"
    then have "is_event op" using ev that(1) by blast
    then show False using that(2) by (auto simp: is_event_def)
  qed
  have off: "member_offers T p = member_offers S p" "policy_offers T = policy_offers S" for p
    using sub pay unfolding member_offers_def policy_offers_def by (auto 0 4)
  have lift: "genesis_op T op g" if "genesis_op S op g" "t_topic_id s = b_topic_id (body op)" for op g
    using that sub ev pay unfolding genesis_op_def by (metis DiffI subsetD)
  show ?thesis using m lift unfolding materialized_def off by blast
qed

lemma materialized_topic: "materialized S h s \<Longrightarrow> op \<in> S \<Longrightarrow> b_topic_id (body op) = t_topic_id s"
  unfolding materialized_def genesis_op_def by metis

lemma materialized_genesis:
  assumes "materialized S h s" "op \<in> S" "b_payload (body op) = Genesis g"
  shows "t_genesis s = o_id op"
  using assms unfolding materialized_def genesis_op_def by metis

lemma materialized_nonempty:
  assumes "materialized S h s"
  obtains op where "op \<in> S" "t_genesis s = o_id op"
  using assms unfolding materialized_def genesis_op_def by blast

section \<open>The walk\<close>

definition walk_inv ::
  "operation set \<Rightarrow> op_id set \<Rightarrow> projections \<Rightarrow> op_id list \<Rightarrow> op_id btree_set \<Rightarrow> op_id btree_set \<Rightarrow> operation list \<Rightarrow> bool" where
  "walk_inv H D P walk seen known folded \<longleftrightarrow>
    set walk \<subseteq> ids (past H D) \<and> fset seen \<subseteq> ids (past H D) \<and> D \<subseteq> fset seen \<union> set walk \<and>
    (\<forall>i. i |\<in>| known \<longleftrightarrow> i |\<in>| seen \<and> contains_key P i) \<and>
    set folded = {op \<in> H. o_id op |\<in>| seen \<and> \<not> contains_key P (o_id op) \<and> \<not> is_event op} \<and>
    (\<forall>op \<in> H. o_id op |\<in>| seen \<longrightarrow> \<not> contains_key P (o_id op) \<longrightarrow> fset (b_deps (body op)) \<subseteq> fset seen \<union> set walk)"

lemma walk_invD:
  assumes "walk_inv H D P walk seen known folded"
  shows "set walk \<subseteq> ids (past H D)" "fset seen \<subseteq> ids (past H D)" "D \<subseteq> fset seen \<union> set walk"
    "i |\<in>| known \<longleftrightarrow> i |\<in>| seen \<and> contains_key P i"
    "set folded = {op \<in> H. o_id op |\<in>| seen \<and> \<not> contains_key P (o_id op) \<and> \<not> is_event op}"
    "op \<in> H \<Longrightarrow> o_id op |\<in>| seen \<Longrightarrow> \<not> contains_key P (o_id op) \<Longrightarrow> fset (b_deps (body op)) \<subseteq> fset seen \<union> set walk"
  using assms by (simp_all add: walk_inv_def)

lemma walk_visit:
  assumes h: "hist_ok x t H" and s: "sees inner ops metas H" and inv: "walk_inv H D P (i # walk) seen known folded" and i: "i |\<notin>| seen"
    and run: "project_visit x hold inner topic ops metas P i (known, folded, grows, ws) = Ok (deps, known', folded', grows', ws')"
  shows "walk_inv H D P (rev (iter_set deps) @ walk) (finsert i seen) known' folded'"
proof -
  have "i \<in> ids (past H D)" using inv by (simp add: walk_inv_def)
  then obtain op where op: "op \<in> past H D" "o_id op = i" by (auto simp: ids_iff)
  then have opH: "op \<in> H" using past_sub by blast
  have only: "o_id q = i \<longleftrightarrow> q = op" if "q \<in> H" for q using hist_okD(2)[OF h] that op(2) opH by (auto dest: inj_onD)
  show ?thesis
  proof (cases "contains_key P i")
    case True
    then have "deps = {||}" "known' = finsert i known" "folded' = folded" using run by (auto simp: project_visit_def rbind_eq_Ok)
    moreover have "set folded = {q \<in> H. o_id q |\<in>| finsert i seen \<and> \<not> contains_key P (o_id q) \<and> \<not> is_event q}"
      using walk_invD(5)[OF inv] True by auto
    moreover have "fset (b_deps (body q)) \<subseteq> fset (finsert i seen) \<union> set walk"
      if "q \<in> H" "o_id q |\<in>| finsert i seen" "\<not> contains_key P (o_id q)" for q
      using walk_invD(6)[OF inv that(1)] that True by auto
    moreover have "j |\<in>| finsert i known \<longleftrightarrow> j |\<in>| finsert i seen \<and> contains_key P j" for j
      using walk_invD(4)[OF inv, of j] True by auto
    ultimately show ?thesis using walk_invD(1-3)[OF inv] unfolding walk_inv_def by simp
  next
    case False
    obtain m where m: "meta_projected inner metas i = Ok m" "m_deps m = b_deps (body op)"
      using seesD(2)[OF s opH] op(2) by (auto dest: meta_matchesD)
    have r: "deps = b_deps (body op)" "known' = known" "folded' = (if is_event op then folded else folded @ [op])"
      using run False m seesD(1)[OF s opH] op(2)
      by (cases "b_payload (body op)"; auto simp: project_visit_def rbind_eq_Ok is_event_def split: if_splits)+
    have "fset (b_deps (body op)) \<subseteq> ids (past H D)"
    proof
      fix d assume d: "d \<in> fset (b_deps (body op))"
      then have "d \<in> ids H" using op_okD(4)[OF hist_okD(4)[OF h opH]] by blast
      then obtain q where "q \<in> H" "o_id q = d" by (auto simp: ids_iff)
      then show "d \<in> ids (past H D)" using past_dep[OF op(1)] d by (auto simp: ids_iff)
    qed
    moreover have "set folded' = {q \<in> H. o_id q |\<in>| finsert i seen \<and> \<not> contains_key P (o_id q) \<and> \<not> is_event q}"
    proof (rule set_eqI)
      fix q
      show "q \<in> set folded' \<longleftrightarrow> q \<in> {q \<in> H. o_id q |\<in>| finsert i seen \<and> \<not> contains_key P (o_id q) \<and> \<not> is_event q}"
        using walk_invD(5)[OF inv] only[of q] op(2) opH False i by (cases "q = op") (auto simp: r(3))
    qed
    moreover have "fset (b_deps (body q)) \<subseteq> fset (finsert i seen) \<union> set (rev (iter_set deps) @ walk)"
      if "q \<in> H" "o_id q |\<in>| finsert i seen" "\<not> contains_key P (o_id q)" for q
    proof (cases "o_id q = i")
      case True
      then have "q = op" using only[OF that(1)] by simp
      then show ?thesis by (auto simp: r(1))
    next
      case False
      then show ?thesis using walk_invD(6)[OF inv that(1)] that by auto
    qed
    moreover have "j |\<in>| known' \<longleftrightarrow> j |\<in>| finsert i seen \<and> contains_key P j" for j
      using walk_invD(4)[OF inv, of j] False by (auto simp: r(2))
    ultimately show ?thesis using walk_invD(1-3)[OF inv] unfolding walk_inv_def by (simp add: r(1)) blast
  qed
qed

lemma walk_sound:
  assumes "hist_ok x t H" "sees inner ops metas H" "walk_inv H D P walk seen (fst w) (fst (snd w))"
    and "project_walk x hold inner topic ops metas P walk seen w = Ok (known, folded, grows, ws)"
  shows "\<exists>seen. walk_inv H D P [] seen known folded"
  using assms
proof (induction x hold inner topic ops metas P walk seen w rule: project_walk.induct)
  case (2 x hold inner topic ops metas P i walk seen w)
  show ?case
  proof (cases "i |\<in>| seen")
    case True
    then have "walk_inv H D P walk seen (fst w) (fst (snd w))" using "2.prems"(3) by (auto simp: walk_inv_def)
    then show ?thesis using "2.IH"(1)[OF True "2.prems"(1,2)] "2.prems"(4) True by simp
  next
    case False
    obtain kn fo gr w' where w: "w = (kn, fo, gr, w')" by (cases w)
    obtain deps kn' fo' gr' w'' where r: "project_visit x hold inner topic ops metas P i w = Ok (deps, kn', fo', gr', w'')"
      using "2.prems"(4) False by (auto simp: rbind_eq_Ok)
    have "walk_inv H D P (rev (iter_set deps) @ walk) (finsert i seen) kn' fo'"
      by (rule walk_visit[OF "2.prems"(1,2) _ False r[unfolded w]]) (use "2.prems"(3) in \<open>simp add: w\<close>)
    then show ?thesis using "2.IH"(2)[OF False r "2.prems"(1,2)] "2.prems"(4) False r by simp
  qed
qed auto

lemma walk_done:
  assumes inv: "walk_inv H D P [] seen known folded"
  shows "past H D = past H (fset known) \<union> {op \<in> H. o_id op |\<in>| seen \<and> \<not> contains_key P (o_id op)}" (is "_ = _ \<union> ?rest")
proof
  note seen = walk_invD(2)[OF inv] and known = walk_invD(4)[OF inv] and deps = walk_invD(6)[OF inv, simplified]
  have D: "D \<subseteq> fset seen" using walk_invD(3)[OF inv] by simp
  have covered: "a |\<in>| seen \<or> (\<exists>k. k |\<in>| known \<and> (a, k) \<in> (causes H)\<^sup>*)" if "(a, d) \<in> (causes H)\<^sup>*" "d |\<in>| seen" for a d
    using that
  proof (induction rule: converse_rtrancl_induct)
    case (step a b)
    then obtain op where op: "op \<in> H" "o_id op = b" "a |\<in>| b_deps (body op)" by (auto simp: causes_iff)
    from step consider k where "k |\<in>| known" "(b, k) \<in> (causes H)\<^sup>*" | "b |\<in>| seen" "\<not> contains_key P b" | "b |\<in>| known"
      using known by blast
    then show ?case
    proof cases
      case 1
      then show ?thesis using step.hyps(1) by (meson converse_rtrancl_into_rtrancl)
    next
      case 2
      then show ?thesis using deps[OF op(1)] op by blast
    next
      case 3
      then show ?thesis using step.hyps(1) by blast
    qed
  qed auto
  show "past H D \<subseteq> past H (fset known) \<union> ?rest"
  proof
    fix op assume "op \<in> past H D"
    then obtain d where d: "op \<in> H" "(o_id op, d) \<in> (causes H)\<^sup>*" "d |\<in>| seen" using D unfolding past_def by blast
    then consider "o_id op |\<in>| seen" "\<not> contains_key P (o_id op)" | "o_id op |\<in>| known"
      | k where "k |\<in>| known" "(o_id op, k) \<in> (causes H)\<^sup>*" using covered known by blast
    then show "op \<in> past H (fset known) \<union> ?rest" by cases (use d(1) in \<open>auto simp: past_def\<close>)
  qed
  have "past H (fset known) \<subseteq> past H (ids (past H D))" using seen known by (intro past_mono) auto
  moreover have "?rest \<subseteq> past H (ids (past H D))" using seen by (auto intro: past_self)
  ultimately show "past H (fset known) \<union> ?rest \<subseteq> past H D" by (simp add: past_idem)
qed

section \<open>The state\<close>

lemma fold_controls:
  assumes "materialized S {||} s" "fold_res fold_control ops s = Ok s'" "inj_on o_id (S \<union> set ops)"
    and "\<And>op. op \<in> set ops \<Longrightarrow> b_topic_id (body op) = t_topic_id s \<and> \<not> is_event op"
  shows "materialized (S \<union> set ops) {||} s'"
  using assms
proof (induction ops arbitrary: S s)
  case (Cons op ops)
  obtain s1 where s1: "fold_control op s = Ok s1" "fold_res fold_control ops s1 = Ok s'" using Cons.prems(2) by (auto simp: rbind_eq_Ok)
  have inj: "inj_on o_id (insert op S)" using Cons.prems(3) by (rule inj_on_subset) auto
  have t: "b_topic_id (body op) = t_topic_id s" "\<not> is_event op" using Cons.prems(4) by auto
  have "materialized (insert op S) {||} s1 \<and> t_topic_id s1 = t_topic_id s"
  proof (cases "b_payload (body op)")
    case (Genesis g)
    then have e: "s1 = s" "o_id op = t_genesis s" using s1(1) by (auto simp: fold_control_def split: if_splits)
    obtain q where "q \<in> S" "t_genesis s = o_id q" by (rule materialized_nonempty[OF Cons.prems(1)])
    then have "insert op S = S" using e(2) inj by (metis inj_onD insertCI insert_absorb)
    then show ?thesis using Cons.prems(1) e(1) by simp
  next
    case (Control c)
    then show ?thesis using apply_control_materialized[OF Cons.prems(1) inj t(1)] s1(1)
      materialized_topic[of "insert op S" "{||}" s1 op] t(1) by (auto simp: fold_control_def)
  qed (use t(2) in \<open>simp add: is_event_def\<close>)
  moreover have "S \<union> set (op # ops) = insert op S \<union> set ops" by auto
  ultimately show ?case using Cons.IH[of "insert op S" s1] Cons.prems(3,4) s1(2) by auto
qed simp

lemma merge_kept:
  assumes h: "hist_ok x t H" and K: "K \<noteq> {||}" "\<And>i. i |\<in>| K \<Longrightarrow> i \<in> ids H \<and> (\<exists>s. fmlookup P i = Some s \<and> materialized (past H {i}) {||} s)"
    and run: "merge_states K P = Ok s"
  shows "materialized (past H (fset K)) {||} s"
proof -
  obtain st where st: "fmlookup P i = Some (st i) \<and> materialized (past H {i}) {||} (st i)" if "i |\<in>| K" for i
    using K(2) by metis
  obtain d ds where ds: "iter_set K = d # ds" using K(1) by (metis iter_set_Nil_iff list.exhaust)
  have setK: "fset K = insert d (set ds)" using set_iter_set[of K] by (simp add: ds)
  obtain r where r: "r \<in> past H {d}" "is_genesis r" using past_root[OF h] K(2)[of d] setK by (auto simp: ids_iff)
  then obtain gr where gr: "b_payload (body r) = Genesis gr" by (auto simp: is_genesis_def split: topic_payload.splits)
  have gen: "t_genesis (st i) = o_id r" if i: "i |\<in>| K" for i
  proof -
    obtain r' where r': "r' \<in> past H {i}" "is_genesis r'" using past_root[OF h] K(2)[OF i] by (auto simp: ids_iff)
    have "r' = r" using hist_okD(5)[OF h] r r' past_sub by blast
    then show ?thesis using materialized_genesis[OF _ r'(1)] st[OF i] gr by blast
  qed
  have inj: "inj_on o_id (past H {d} \<union> (\<Union>i \<in> set ds. past H {i}))"
    by (rule inj_on_subset[OF hist_okD(2)[OF h]]) (use past_sub in blast)
  have "\<exists>m. fold_res (\<lambda>i merged.
        rbind (ok_or (fmlookup P i) (MissingDependency i)) (\<lambda>incoming.
          case merged of
            None \<Rightarrow> Ok (Some incoming)
          | Some current \<Rightarrow> rbind (merge_state current incoming) (\<lambda>s. Ok (Some s)))) ds (Some (st d)) = Ok (Some m) \<and>
      materialized (past H {d} \<union> (\<Union>i \<in> set ds. past H {i})) {||} m"
    by (rule merge_loop[where st = st and heads = "\<lambda>_. {||}" and g = "o_id r", OF _ _ _ inj])
      (use st gen setK in auto)
  moreover have "past H (fset K) = past H {d} \<union> (\<Union>i \<in> set ds. past H {i})" using past_single[of H "fset K"] by (simp add: setK)
  moreover have "fmlookup P d = Some (st d)" using st setK by auto
  ultimately show ?thesis using run by (auto simp: merge_states_def ds ok_or_def)
qed

lemma projected_state:
  assumes h: "hist_ok x t H" and inv: "walk_inv H D P [] seen known folded"
    and P: "\<And>i s. fmlookup P i = Some s \<Longrightarrow> i \<in> ids H \<Longrightarrow> materialized (past H {i}) {||} s"
    and run: "(if known = {||} then materialize_topic_state folded {||}
      else rbind (merge_states known P) (fold_res fold_control folded)) = Ok s"
  shows "materialized (past H D) {||} s"
proof -
  note seen = walk_invD(2)[OF inv] and known = walk_invD(4)[OF inv] and folded = walk_invD(5)[OF inv]
  have top: "b_topic_id (body op) = t" if "op \<in> H" for op using op_okD(1)[OF hist_okD(4)[OF h that]] .
  have inH: "i \<in> ids H" if "i |\<in>| seen" for i using seen that past_sub by (fastforce simp: ids_iff)
  have m: "materialized (past H (fset known) \<union> set folded) {||} s"
  proof (cases "known = {||}")
    case True
    then show ?thesis using run by (auto dest: materialize_sound)
  next
    case False
    then obtain s0 where s0: "merge_states known P = Ok s0" "fold_res fold_control folded s0 = Ok s" using run by (auto simp: rbind_eq_Ok)
    have m0: "materialized (past H (fset known)) {||} s0"
      by (rule merge_kept[OF h False _ s0(1)]) (use known inH P in \<open>auto simp: contains_key_def\<close>)
    obtain q where q: "q \<in> past H (fset known)" by (rule materialized_nonempty[OF m0])
    then have "q \<in> H" using past_sub by blast
    then have "t_topic_id s0 = t" using materialized_topic[OF m0 q] top by simp
    moreover have "inj_on o_id (past H (fset known) \<union> set folded)"
      by (rule inj_on_subset[OF hist_okD(2)[OF h]]) (use folded past_sub in auto)
    ultimately show ?thesis by (intro fold_controls[OF m0 s0(2)]) (use folded top in auto)
  qed
  obtain op where op: "op \<in> past H (fset known) \<union> set folded" by (rule materialized_nonempty[OF m])
  then have "op \<in> H" using past_sub folded by blast
  then have ts: "t_topic_id s = t" using materialized_topic[OF m op] top by simp
  have split: "past H D = past H (fset known) \<union> {op \<in> H. o_id op |\<in>| seen \<and> \<not> contains_key P (o_id op)}" by (rule walk_done[OF inv])
  show ?thesis
    by (rule materialized_events[OF m]) (use folded ts top in \<open>auto simp: split\<close>)
qed

text \<open>The projection at dependencies inside the history, and the projections it leaves.\<close>

lemma iter_set_single: "iter_set S = [d] \<longleftrightarrow> S = {|d|}"
proof
  assume "iter_set S = [d]"
  then have "fset S = {d}" using set_iter_set[of S] by simp
  then show "S = {|d|}" by auto
qed (simp add: iter_set_def sorted_list_of_fset.rep_eq)

lemma project_membership_sound:
  assumes h: "hist_ok x t H" and V: "H \<subseteq> V" "inj_on o_id V" and s: "sees inner ops metas H" and P: "proj_ok V P"
    and deps: "fset deps \<subseteq> ids H"
    and run: "project_membership x hold inner topic deps ops metas P = Ok (state, P')"
  shows "materialized (past H (fset deps)) {||} state" "proj_ok V P'"
proof -
  have kept: "materialized (past H {i}) {||} s" if "fmlookup P i = Some s" "i \<in> ids H" for i s
  proof -
    have "past V {i} = past H {i}" by (rule hist_past[OF h V]) (simp add: that(2))
    then show ?thesis using P that(1) by (metis proj_ok_def)
  qed
  have "materialized (past H (fset deps)) {||} state \<and> proj_ok V P'"
  proof (cases "(case iter_set deps of [dep] \<Rightarrow> fmlookup P dep | _ \<Rightarrow> None)")
    case (Some s)
    then obtain dep where d: "iter_set deps = [dep]" "fmlookup P dep = Some s" by (auto split: list.splits)
    then have "deps = {|dep|}" by (simp add: iter_set_single)
    then show ?thesis using run Some kept[OF d(2)] deps P by (simp add: project_membership_def)
  next
    case None
    obtain ws r where w0: "project_walk x hold inner topic ops metas P (rev (iter_set deps)) {||} ({||}, [], 0, ws) = Ok r"
      "(case r of (known, folded, grows, ws) \<Rightarrow>
         rbind (if known = {||}
           then rbind (ws_charge hold (STATE_BASE_BYTES + 2 * grows) ws) (\<lambda>_. materialize_topic_state folded {||})
           else rbind (ws_charge hold (projection_bytes (fmfilter (\<lambda>i. i |\<in>| known) P) + grows) ws) (\<lambda>_.
             rbind (merge_states known P) (fold_res fold_control folded))) (\<lambda>state.
         Ok (state, keep_projection deps known state P))) = Ok (state, P')"
      using run unfolding project_membership_def None option.simps rbind_eq_Ok by blast
    obtain known folded grows where r: "r = (known, folded, grows)" by (cases r)
    have w: "project_walk x hold inner topic ops metas P (rev (iter_set deps)) {||} ({||}, [], 0, ws) = Ok (known, folded, grows)"
      "(if known = {||} then materialize_topic_state folded {||} else rbind (merge_states known P) (fold_res fold_control folded)) = Ok state"
      "P' = keep_projection deps known state P"
      using w0 by (cases grows; auto simp: r rbind_eq_Ok split: if_splits)+
    have "ids (past H (fset deps)) \<supseteq> fset deps" using deps by (auto simp: ids_def intro: past_self)
    then have start: "walk_inv H (fset deps) P (rev (iter_set deps)) {||} {||} []" by (simp add: walk_inv_def)
    obtain gr w' where "grows = (gr, w')" by (cases grows)
    from walk_sound[OF h s, of "fset deps" P _ "{||}" "({||}, [], 0, ws)", OF _ w(1)[unfolded this]] start
    obtain seen where inv: "walk_inv H (fset deps) P [] seen known folded" by auto
    have m: "materialized (past H (fset deps)) {||} state" by (rule projected_state[OF h inv kept w(2)])
    have "materialized (past V {i}) {||} s" if "fmlookup P' i = Some s" for i s
    proof (cases "fmlookup P i = Some s")
      case True
      then show ?thesis using P by (simp add: proj_ok_def)
    next
      case False
      then have "deps = {|i|} \<and> s = state" using that
        by (auto simp: w(3) keep_projection_def Let_def iter_set_single split: list.splits if_splits)
      then show ?thesis using m hist_past[OF h V deps] by auto
    qed
    then show ?thesis using m by (simp add: proj_ok_def)
  qed
  then show "materialized (past H (fset deps)) {||} state" "proj_ok V P'" by simp_all
qed

end
