(* ===== verification/Validation_Sound.thy ===== *)
theory Validation_Sound
  imports Projection_Sound
begin

text \<open>
  What the validation of one operation establishes: read through an overlay and a store that show a
  history, an operation it admits extends that history, and the metadata computed for it counts the
  operation's past.
\<close>

section \<open>Metadata\<close>

lemma observe_dep_seen:
  assumes s: "sees inner ops metas H" and q: "q \<in> H" "b_topic_id (body q) = t"
  obtains d where "clock_is (deps_past H q) d"
    "observe_dep inner metas t (o_id q) c = Ok (clock_observe (clock_merge c d) (b_actor_id (body q)) (b_actor_seq (body q)))"
proof -
  obtain m where m: "meta_projected inner metas (o_id q) = Ok m" "meta_matches q m" "m_topic_id m = b_topic_id (body q)"
    "clock_is (deps_past H q) (m_observed_clock m)" using seesD(2)[OF s q(1)] by blast
  have "observe_dep inner metas t (o_id q) c = Ok (clock_observe (clock_merge c (m_observed_clock m)) (b_actor_id (body q)) (b_actor_seq (body q)))"
    using m(1,3) meta_matchesD(2,3)[OF m(2)] q(2)
    by (auto simp: observe_dep_def meta_projected_def memory_observation_def header_of_meta_def ok_or_def split: option.splits)
  then show thesis using that m(4) by blast
qed

lemma observe_deps:
  assumes h: "hist_ok x t H" and s: "sees inner ops metas H"
  shows "set ds \<subseteq> ids H \<Longrightarrow> clock_is (past H I) c \<Longrightarrow>
    \<exists>c'. fold_res (observe_dep inner metas t) ds c = Ok c' \<and> clock_is (past H (I \<union> set ds)) c'"
proof (induction ds arbitrary: I c)
  case (Cons d ds)
  obtain q where q: "q \<in> H" "o_id q = d" using Cons.prems(1) by (auto simp: ids_iff)
  have t: "b_topic_id (body q) = t" using op_okD(1)[OF hist_okD(4)[OF h q(1)]] .
  obtain e where e: "clock_is (deps_past H q) e"
    "observe_dep inner metas t d c = Ok (clock_observe (clock_merge c e) (b_actor_id (body q)) (b_actor_seq (body q)))"
    using observe_dep_seen[OF s q(1) t] q(2) by metis
  have "clock_is (insert q (past H I \<union> deps_past H q)) (clock_observe (clock_merge c e) (b_actor_id (body q)) (b_actor_seq (body q)))"
    by (rule clock_is_observe[OF clock_is_merge[OF Cons.prems(2) e(1)]])
  moreover have "insert q (past H I \<union> deps_past H q) = past H (I \<union> {d})"
    unfolding q(2)[symmetric] past_Un past_unfold[OF hist_okD(2)[OF h] q(1)] by blast
  ultimately have "clock_is (past H (I \<union> {d})) (clock_observe (clock_merge c e) (b_actor_id (body q)) (b_actor_seq (body q)))" by simp
  then obtain c' where "fold_res (observe_dep inner metas t) ds (clock_observe (clock_merge c e) (b_actor_id (body q)) (b_actor_seq (body q))) = Ok c'"
    "clock_is (past H (I \<union> {d} \<union> set ds)) c'" using Cons.IH Cons.prems(1) by force
  then show ?case using e(2) by (auto simp: Un_assoc)
qed auto

lemma meta_for_seen:
  assumes h: "hist_ok x t H" and s: "sees inner ops metas H" and op: "fset (b_deps (body op)) \<subseteq> ids H" "b_topic_id (body op) = t"
  obtains c where "meta_for_projected inner metas op = Ok (meta_of_op op c True {||})" "clock_is (deps_past H op) c"
  using observe_deps[OF h s, of "iter_set (b_deps (body op))" "{}" clock_new] op
  by (auto simp: meta_for_projected_def)

lemma meta_of_op_matches:
  "meta_matches op (meta_of_op op c True {||})" "m_topic_id (meta_of_op op c r d) = b_topic_id (body op)"
  "m_observed_clock (meta_of_op op c r d) = c" "m_actor_id (meta_of_op op c r d) = b_actor_id (body op)"
  "m_actor_seq (meta_of_op op c r d) = b_actor_seq (body op)" "m_deps (meta_of_op op c r d) = b_deps (body op)"
  "m_generation (meta_of_op op c r d) = b_generation (body op)" "m_id (meta_of_op op c r d) = o_id op"
  by (simp_all add: meta_matches_def meta_of_op_def Let_def)

section \<open>Generations\<close>

lemma checked_next_Ok: "checked_next v = Ok n \<Longrightarrow> unat n = unat v + 1"
  by (auto simp: checked_next_def ok_or_eq_Ok dest: checked_add_SomeD)

lemma unat_max: "unat (max a b) = max (unat a) (unat b)" for a b :: u64
  by (simp add: max_def word_le_nat_alt)

lemma deps_generation_fold:
  assumes "fold_res (\<lambda>i generation.
      rbind (header i) (\<lambda>h. rbind (checked_next (h_generation h)) (\<lambda>g. Ok (max generation g)))) ds g0 = Ok g"
  shows "unat g0 \<le> unat g \<and> (\<forall>d \<in> set ds. \<exists>h. header d = Ok h \<and> unat (h_generation h) + 1 \<le> unat g) \<and>
    (unat g = unat g0 \<or> (\<exists>d \<in> set ds. \<exists>h. header d = Ok h \<and> unat g = unat (h_generation h) + 1))"
  using assms
proof (induction ds arbitrary: g0)
  case (Cons d ds)
  obtain h n where h: "header d = Ok h" "checked_next (h_generation h) = Ok n"
    and rest: "fold_res (\<lambda>i generation.
      rbind (header i) (\<lambda>h. rbind (checked_next (h_generation h)) (\<lambda>g. Ok (max generation g)))) ds (max g0 n) = Ok g"
    using Cons.prems by (auto simp: rbind_eq_Ok)
  note n = checked_next_Ok[OF h(2)]
  show ?case using Cons.IH[OF rest] h(1) n by (auto simp: unat_max)
qed simp

lemma header_seen:
  assumes s: "sees inner ops metas H" and q: "q \<in> H"
  shows "header_projected inner metas (o_id q) = Ok \<lparr>h_topic_id = b_topic_id (body q), h_actor_id = b_actor_id (body q),
    h_actor_seq = b_actor_seq (body q), h_actor_prev = b_actor_prev (body q), h_generation = b_generation (body q)\<rparr>"
proof -
  obtain m where m: "meta_projected inner metas (o_id q) = Ok m" "meta_matches q m" "m_topic_id m = b_topic_id (body q)"
    using seesD(2)[OF s q] by blast
  have "header_projected inner metas (o_id q) = Ok (header_of_meta m)"
    using m(1) by (auto simp: header_projected_def meta_projected_def memory_header_def ok_or_def split: option.splits)
  then show ?thesis using meta_matchesD[OF m(2)] m(3) by (simp add: header_of_meta_def)
qed

lemma generation_seen:
  assumes h: "hist_ok x t H" and s: "sees inner ops metas H" and deps: "fset (b_deps (body op)) \<subseteq> ids H"
    and run: "deps_generation (header_projected inner metas) (b_deps (body op)) = Ok (b_generation (body op))"
  shows "gen_ok H op"
proof -
  let ?g = "unat (b_generation (body op))"
  have hd: "h_generation hd = b_generation (body q)" if "q \<in> H" "header_projected inner metas (o_id q) = Ok hd" for q hd
    using header_seen[OF s that(1)] that(2) by simp
  note f = deps_generation_fold[OF run[unfolded deps_generation_def]]
  have all: "unat (b_generation (body q)) < ?g" if q: "q \<in> H" "o_id q |\<in>| b_deps (body op)" for q
    using f q hd[OF q(1)] by fastforce
  have ex: "\<exists>q \<in> H. o_id q |\<in>| b_deps (body op) \<and> ?g = unat (b_generation (body q)) + 1" if ne: "b_deps (body op) \<noteq> {||}"
  proof -
    obtain d where d: "d |\<in>| b_deps (body op)" using ne by auto
    then have "d \<in> ids H" using deps by blast
    then obtain p where p: "p \<in> H" "o_id p = d" by (auto simp: ids_iff)
    have "0 < ?g" using all[OF p(1)] p(2) d by simp
    then obtain e he where e: "e |\<in>| b_deps (body op)" "header_projected inner metas e = Ok he" "?g = unat (h_generation he) + 1"
      using f by auto
    then have "e \<in> ids H" using deps by blast
    then obtain q where "q \<in> H" "o_id q = e" by (auto simp: ids_iff)
    then show ?thesis using e hd[of q he] by auto
  qed
  have "b_generation (body op) = 0" if "b_deps (body op) = {||}"
    using run that by (simp add: deps_generation_def)
  then show ?thesis using all ex by (simp add: gen_ok_def)
qed

section \<open>A view of a history\<close>

definition is_tip :: "operation set \<Rightarrow> actor_id \<Rightarrow> (u64 \<times> op_id) option \<Rightarrow> bool" where
  "is_tip H a r \<longleftrightarrow>
    (case r of
       None \<Rightarrow> \<forall>op \<in> H. b_actor_id (body op) \<noteq> a
     | Some (n, i) \<Rightarrow> (\<exists>op \<in> H. b_actor_id (body op) = a \<and> b_actor_seq (body op) = n \<and> o_id op = i) \<and>
         (\<forall>op \<in> H. b_actor_id (body op) = a \<longrightarrow> b_actor_seq (body op) \<le> n))"

definition slot_holder :: "operation set \<Rightarrow> op_body \<Rightarrow> op_id option \<Rightarrow> bool" where
  "slot_holder H b r \<longleftrightarrow> (\<forall>i. r = Some i \<longleftrightarrow> (\<exists>op \<in> H. op_slot op = (b_actor_id b, b_actor_seq b) \<and> o_id op = i))"

definition state_of :: "operation set \<Rightarrow> topic_state option \<Rightarrow> bool" where
  "state_of H r \<longleftrightarrow> (case r of None \<Rightarrow> H = {} | Some s \<Rightarrow> materialized H (t_heads s) s)"

text \<open>An overlay over a store, with heads and state, that shows the history \<open>H\<close> of a topic.\<close>

definition view_ok ::
  "externals \<Rightarrow> operation set \<Rightarrow> topic_id \<Rightarrow> memory_inner \<Rightarrow> batch_overlay \<Rightarrow> op_id btree_set \<Rightarrow> topic_state option \<Rightarrow> operation set \<Rightarrow> bool"
where
  "view_ok x V t inner ov heads state H \<longleftrightarrow> hist_ok x t H \<and> H \<subseteq> V \<and> sees inner (bo_ops ov) (bo_meta ov) H \<and>
    (\<forall>b. b_topic_id b = t \<longrightarrow> slot_holder H b (overlay_slot inner ov b) \<and> is_tip H (b_actor_id b) (overlay_tip inner ov b)) \<and>
    fset heads = frontier H \<and> state_of H state"

lemma view_okD:
  assumes "view_ok x V t inner ov heads state H"
  shows "hist_ok x t H" "H \<subseteq> V" "sees inner (bo_ops ov) (bo_meta ov) H"
    "b_topic_id b = t \<Longrightarrow> slot_holder H b (overlay_slot inner ov b)"
    "b_topic_id b = t \<Longrightarrow> is_tip H (b_actor_id b) (overlay_tip inner ov b)"
    "fset heads = frontier H" "state_of H state"
  using assms by (simp_all add: view_ok_def)

lemma materialized_heads: "materialized H h s \<Longrightarrow> materialized H h' (s\<lparr>t_heads := h'\<rparr>)"
  unfolding materialized_def by simp

lemma materialized_any_heads: "materialized H h s \<Longrightarrow> materialized H (t_heads s) s"
  unfolding materialized_def by simp

section \<open>Membership\<close>

lemma covered_state:
  assumes v: "view_ok x V t inner ov heads (Some state) H" and op: "fset (b_deps (body op)) \<subseteq> ids H" "b_topic_id (body op) = t"
    and run: "covers_controls inner op state (bo_meta ov) = Ok True"
  shows "materialized (deps_past H op) {||} (state\<lparr>t_heads := {||}\<rparr>)"
proof -
  note h = view_okD(1)[OF v] and s = view_okD(3)[OF v]
  have m: "materialized H (t_heads state) state" using view_okD(7)[OF v] by (simp add: state_of_def)
  obtain c where c: "meta_for_projected inner (bo_meta ov) op = Ok (meta_of_op op c True {||})" "clock_is (deps_past H op) c"
    by (rule meta_for_seen[OF h s op])
  have ne: "b_deps (body op) \<noteq> {||}" using run by (auto simp: covers_controls_def split: if_splits)
  then obtain d where d: "d |\<in>| b_deps (body op)" by auto
  have keys: "ck_actor_seq k \<le> clock_get c (ck_actor_id k)"
    if "fmlookup (t_membership_controls state) p = Some (k, b) \<or> t_policy_control state = Some (k, pol)" for p k b pol
  proof -
    let ?covered = "\<lambda>key. case key of ControlKey _ actor seq _ \<Rightarrow> clock_get (m_observed_clock (meta_of_op op c True {||})) actor \<ge> seq"
    have all: "list_all (\<lambda>(_, key, _). ?covered key) (iter_map (t_membership_controls state))"
      and pol: "case t_policy_control state of None \<Rightarrow> True | Some (key, _) \<Rightarrow> ?covered key"
      using run ne c(1) by (simp_all add: covers_controls_def Let_def)
    have "?covered k" if m: "fmlookup (t_membership_controls state) p = Some (k, b)"
      using bspec[OF all[unfolded list_all_iff], of "(p, k, b)"] m by simp
    then have "?covered k" using that pol by auto
    then show ?thesis by (cases k) (simp add: meta_of_op_matches(3))
  qed
  have covered: "q \<in> deps_past H op" if "q \<in> H" "control_key q = k"
    "fmlookup (t_membership_controls state) p = Some (k, b) \<or> t_policy_control state = Some (k, pol)" for q p k b pol
    using keys[OF that(3)] that(1,2) by (intro covered_past[OF h op(1) c(2)]) (auto simp: control_key_def Let_def)
  show ?thesis
    by (rule materialized_past[OF h m d]) (use op(1) d covered in \<open>blast+\<close>)
qed

lemma heads_state:
  assumes v: "view_ok x V t inner ov heads (Some state) H" and op: "b_deps (body op) = heads"
  shows "materialized (deps_past H op) {||} (state\<lparr>t_heads := {||}\<rparr>)"
  using view_okD(6,7)[OF v] past_frontier[OF view_okD(1)[OF v]] op by (simp add: state_of_def materialized_heads)

lemma author_sound:
  assumes v: "view_ok x V t inner ov heads (Some state) H" and V: "inj_on o_id V" and P: "proj_ok V P"
    and op: "fset (b_deps (body op)) \<subseteq> ids H" "b_topic_id (body op) = t"
    and run: "author_is_member x hold inner op ov heads state P = Ok (True, P')"
  shows "proj_ok V P'" "\<exists>s. materialized (deps_past H op) {||} s \<and> b_author (body op) |\<in>| t_members s"
proof -
  note h = view_okD(1)[OF v]
  have "proj_ok V P' \<and> (\<exists>s. materialized (deps_past H op) {||} s \<and> b_author (body op) |\<in>| t_members s)"
  proof (cases "b_deps (body op) = heads \<or> covers_controls inner op state (bo_meta ov) = Ok True")
    case True
    then have "materialized (deps_past H op) {||} (state\<lparr>t_heads := {||}\<rparr>)"
      using heads_state[OF v] covered_state[OF v op] by blast
    moreover have "P' = P" "b_author (body op) |\<in>| t_members state"
      using run True by (auto simp: author_is_member_def Let_def split: if_splits)
    ultimately show ?thesis using P by (intro conjI exI[of _ "state\<lparr>t_heads := {||}\<rparr>"]) auto
  next
    case False
    then obtain s where s: "project_membership x hold inner t (b_deps (body op)) (bo_ops ov) (bo_meta ov) P = Ok (s, P')"
      "b_author (body op) |\<in>| t_members s"
      using run op(2) by (auto simp: author_is_member_def Let_def rbind_eq_Ok split: if_splits)
    then show ?thesis using project_membership_sound[OF h view_okD(2)[OF v] V view_okD(3)[OF v] P op(1) s(1)] by blast
  qed
  then show "proj_ok V P'" "\<exists>s. materialized (deps_past H op) {||} s \<and> b_author (body op) |\<in>| t_members s" by simp_all
qed

section \<open>One operation\<close>

lemma frontier_nonempty: "hist_ok x t H \<Longrightarrow> H \<noteq> {} \<Longrightarrow> frontier H \<noteq> {}"
  using past_frontier[of x t H] by auto

lemma member_has_deps:
  assumes v: "view_ok x V t inner ov heads (Some state) H"
    and run: "author_is_member x hold inner op ov heads state P = Ok r"
  shows "b_deps (body op) \<noteq> {||}"
proof
  assume e: "b_deps (body op) = {||}"
  have "H \<noteq> {}" using view_okD(7)[OF v] materialized_nonempty[of H "t_heads state" state] by (auto simp: state_of_def)
  then have "heads \<noteq> {||}" using frontier_nonempty[OF view_okD(1)[OF v]] view_okD(6)[OF v] by auto
  then show False
    using run e by (auto simp: author_is_member_def Let_def covers_controls_def project_membership_def rbind_eq_Ok
      materialize_topic_state_def ok_or_def)
qed

lemma event_type_at:
  assumes h: "hist_ok x t H" and m: "materialized H hs s" and p: "materialized (past H I) {||} s'"
  shows "t_event_type_id s' = t_event_type_id s"
proof -
  obtain op g where g: "genesis_op H op g" "t_event_type_id s = g_event_type_id g" using m by (auto simp: materialized_def)
  obtain op' g' where g': "genesis_op (past H I) op' g'" "t_event_type_id s' = g_event_type_id g'" using p by (auto simp: materialized_def)
  have "op \<in> H" "op' \<in> H" "is_genesis op" "is_genesis op'" using g(1) g'(1) past_sub[of H I] unfolding genesis_op_def is_genesis_def by auto
  then have "op' = op" using hist_okD(5)[OF h] by blast
  moreover have "b_payload (body op) = Genesis g" "b_payload (body op') = Genesis g'" using g(1) g'(1) unfolding genesis_op_def by blast+
  ultimately show ?thesis using g(2) g'(2) by simp
qed

lemma payload_sound:
  assumes v: "view_ok x V t inner ov heads state H" and V: "inj_on o_id V" and P: "proj_ok V P"
    and op: "fset (b_deps (body op)) \<subseteq> ids H" "b_topic_id (body op) = t"
    and run: "check_payload x hold inner op ov heads state P = Ok P'"
  shows "proj_ok V P'" "is_genesis op = (b_deps (body op) = {||})" "authorized H op" "is_genesis op \<Longrightarrow> H = {}"
    "b_payload (body op) = Genesis g \<Longrightarrow> length (g_event_type_id g) \<le> MAX_TYPE_BYTES"
proof -
  have "proj_ok V P' \<and> is_genesis op = (b_deps (body op) = {||}) \<and> authorized H op \<and> (is_genesis op \<longrightarrow> H = {}) \<and>
    (\<forall>g. b_payload (body op) = Genesis g \<longrightarrow> length (g_event_type_id g) \<le> MAX_TYPE_BYTES)"
  proof (cases "b_payload (body op)")
    case (Genesis g)
    then show ?thesis using run P view_okD(7)[OF v]
      by (auto simp: check_payload_def Let_def is_genesis_def authorized_def state_of_def split: if_splits)
  next
    case (Event ev)
    then obtain s where s: "state = Some s" "t_event_type_id s = ev_type_id ev" "author_is_member x hold inner op ov heads s P = Ok (True, P')"
      using run by (auto simp: check_payload_def Let_def require_member_def ensure_event_type_def rbind_eq_Ok ok_or_eq_Ok split: if_splits)
    note v' = v[unfolded s(1)]
    note a = author_sound[OF v' V P op s(3)]
    have "materialized H (t_heads s) s" using view_okD(7)[OF v'] by (simp add: state_of_def)
    note et = event_type_at[OF view_okD(1)[OF v'] this]
    obtain s' where s': "materialized (deps_past H op) {||} s'" "b_author (body op) |\<in>| t_members s'" using a(2) by blast
    then have "authorized H op" unfolding authorized_def Event using et[OF s'(1)] s(2) by auto
    then show ?thesis using a(1) member_has_deps[OF v' s(3)] Event by (simp add: is_genesis_def)
  next
    case (Control c)
    then obtain s where s: "state = Some s" "author_is_member x hold inner op ov heads s P = Ok (True, P')"
      using run by (auto simp: check_payload_def Let_def require_member_def rbind_eq_Ok ok_or_eq_Ok split: if_splits)
    note v' = v[unfolded s(1)]
    note a = author_sound[OF v' V P op s(2)]
    then show ?thesis using member_has_deps[OF v' s(2)] Control by (simp add: is_genesis_def authorized_def)
  qed
  then show "proj_ok V P'" "is_genesis op = (b_deps (body op) = {||})" "authorized H op" "is_genesis op \<Longrightarrow> H = {}"
    "b_payload (body op) = Genesis g \<Longrightarrow> length (g_event_type_id g) \<le> MAX_TYPE_BYTES" by blast+
qed

text \<open>A position after the tip of its actor.\<close>

lemma next_position:
  assumes h: "hist_ok x t H" and tip: "is_tip H (b_actor_id (body op)) tip"
    and nxt: "next_actor_position tip = Ok (b_actor_seq (body op), b_actor_prev (body op))"
    and prev: "\<And>p. b_actor_prev (body op) = Some p \<Longrightarrow> p |\<in>| b_deps (body op)"
  shows "pos_ok H op" "op_slot op \<notin> op_slot ` H"
proof -
  have "pos_ok H op \<and> op_slot op \<notin> op_slot ` H"
  proof (cases tip)
    case None
    then show ?thesis using tip nxt by (auto simp: is_tip_def next_actor_position_def pos_ok_def op_slot_def)
  next
    case (Some ni)
    obtain n i where ni: "ni = (n, i)" by (cases ni)
    have c: "checked_next n = Ok (b_actor_seq (body op))" "b_actor_prev (body op) = Some i"
      using nxt by (auto simp: Some ni next_actor_position_def rbind_eq_Ok)
    note u = checked_next_Ok[OF c(1)]
    obtain q where q: "q \<in> H" "b_actor_id (body q) = b_actor_id (body op)" "b_actor_seq (body q) = n" "o_id q = i"
      and top: "\<forall>q \<in> H. b_actor_id (body q) = b_actor_id (body op) \<longrightarrow> b_actor_seq (body q) \<le> n"
      using tip by (auto simp: is_tip_def Some ni)
    have "op_slot op \<noteq> op_slot r" if "r \<in> H" for r
      using top that u by (auto simp: op_slot_def word_le_nat_alt)
    then show ?thesis using q u c(2) prev[OF c(2)] by (auto simp: pos_ok_def)
  qed
  then show "pos_ok H op" "op_slot op \<notin> op_slot ` H" by simp_all
qed

lemma admitted_extends:
  assumes v: "view_ok x V t inner ov heads state H" and V: "inj_on o_id V" "op \<in> V" and P: "proj_ok V P"
    and op: "fset (b_deps (body op)) \<subseteq> ids H" "b_topic_id (body op) = t" "op_validate x op = Ok ()"
    and run: "validate_op_projected x hold inner op ov heads state P = Ok (Admit, P')"
  shows "proj_ok V P'" "op_ok x t H op" "o_id op \<notin> ids H" "op_slot op \<notin> op_slot ` H" "is_genesis op \<Longrightarrow> H = {}"
    "hist_ok x t (insert op H)"
proof -
  note h = view_okD(1)[OF v]
  obtain P1 where r: "b_actor_id (body op) = actor_id_for (x_blake3 x) (b_topic_id (body op)) (b_author (body op))"
    "check_payload x hold inner op ov heads state P = Ok P1" "P' = P1"
    "next_actor_position (overlay_tip inner ov (body op)) = Ok (b_actor_seq (body op), b_actor_prev (body op))"
    "deps_generation (header_projected inner (bo_meta ov)) (b_deps (body op)) = Ok (b_generation (body op))"
    "\<And>p. b_actor_prev (body op) = Some p \<Longrightarrow> p |\<in>| b_deps (body op)"
    using run by (auto simp: validate_op_projected_def Let_def rbind_eq_Ok check_generation_def split: if_splits option.splits)
  note pay = payload_sound[OF v V(1) P op(1,2) r(2)]
  note pos = next_position[OF h view_okD(5)[OF v op(2)] r(4,6)]
  show "proj_ok V P'" using pay(1) r(3) by simp
  show ok: "op_ok x t H op"
    using op r(1) pay(2,3) pos(1) generation_seen[OF h view_okD(3)[OF v] op(1) r(5)] by (simp add: op_ok_def)
  show new: "o_id op \<notin> ids H"
  proof
    assume "o_id op \<in> ids H"
    then obtain q where "q \<in> H" "o_id q = o_id op" by (auto simp: ids_iff)
    then have "q = op" using V view_okD(2)[OF v] by (auto dest: inj_onD)
    then show False using pos(2) \<open>q \<in> H\<close> by blast
  qed
  show "op_slot op \<notin> op_slot ` H" by (rule pos(2))
  show "is_genesis op \<Longrightarrow> H = {}" by (rule pay(4))
  then show "hist_ok x t (insert op H)" by (intro hist_ok_insert[OF h new pos(2) ok])
qed

end
