(* ===== verification/Batch_Sound.thy ===== *)
theory Batch_Sound
  imports Validation_Sound Memory_Reach
begin

text \<open>
  A batch built from received operations extends the stored history of its topic: the overlay it is
  validated through always shows the stored history with the entries accepted so far.
\<close>

section \<open>The stored history of a topic\<close>

definition stored_hist :: "memory_inner \<Rightarrow> topic_id \<Rightarrow> operation set" where
  "stored_hist inner t = {op. fmlookup (mi_ops inner) (o_id op) = Some op \<and> b_topic_id (body op) = t}"

text \<open>
  What the op log keeps of every topic: its operations form a valid history, their clocks count their
  pasts, and the topic's state is the replay of the history.
\<close>

definition topic_ok :: "externals \<Rightarrow> operation set \<Rightarrow> memory_inner \<Rightarrow> topic_id \<Rightarrow> bool" where
  "topic_ok x V inner t \<longleftrightarrow> hist_ok x t (stored_hist inner t) \<and> stored_hist inner t \<subseteq> V \<and>
    (\<forall>op m. op \<in> stored_hist inner t \<longrightarrow> fmlookup (mi_meta inner) (o_id op) = Some m \<longrightarrow>
      clock_is (deps_past (stored_hist inner t) op) (m_observed_clock m)) \<and>
    state_of (stored_hist inner t) (fmlookup (mi_topics inner) t)"

lemma topic_okD:
  assumes "topic_ok x V inner t"
  shows "hist_ok x t (stored_hist inner t)" "stored_hist inner t \<subseteq> V"
    "op \<in> stored_hist inner t \<Longrightarrow> fmlookup (mi_meta inner) (o_id op) = Some m \<Longrightarrow>
      clock_is (deps_past (stored_hist inner t) op) (m_observed_clock m)"
    "state_of (stored_hist inner t) (fmlookup (mi_topics inner) t)"
  using assms by (simp_all add: topic_ok_def)

lemma stored_op:
  assumes ok: "indexed_ok inner" and i: "fmlookup (mi_ops inner) i = Some op"
  obtains m where "o_id op = i" "fmlookup (mi_meta inner) i = Some m" "meta_matches op m" "m_topic_id m = b_topic_id (body op)"
proof -
  note p = indexed_okD(1)[OF ok]
  obtain m where m: "fmlookup (mi_meta inner) i = Some m" using paired_None[OF p, of i] i by auto
  have "o_id op = i \<and> b_topic_id (body op) = m_topic_id m \<and> meta_matches op m" using p i m unfolding paired_def by blast
  then show thesis using that m by simp
qed

lemma stored_meta:
  assumes ok: "indexed_ok inner" and i: "fmlookup (mi_meta inner) i = Some m"
  obtains op where "o_id op = i" "op \<in> stored_hist inner (m_topic_id m)" "meta_matches op m"
proof -
  obtain op where op: "fmlookup (mi_ops inner) i = Some op" using paired_None[OF indexed_okD(1)[OF ok], of i] i by auto
  obtain m' where "o_id op = i" "fmlookup (mi_meta inner) i = Some m'" "meta_matches op m'" "m_topic_id m' = b_topic_id (body op)"
    by (rule stored_op[OF ok op])
  then show thesis using that i op by (auto simp: stored_hist_def)
qed

lemma stored_hist_meta:
  assumes ok: "indexed_ok inner" and op: "op \<in> stored_hist inner t"
  obtains m where "fmlookup (mi_meta inner) (o_id op) = Some m" "meta_matches op m" "m_topic_id m = t"
proof -
  have "fmlookup (mi_ops inner) (o_id op) = Some op" "b_topic_id (body op) = t" using op by (auto simp: stored_hist_def)
  then show thesis using stored_op[OF ok] that by metis
qed

lemma stored_slot:
  assumes ok: "indexed_ok inner"
  shows "fmlookup (mi_actor_by_seq inner) (t, a, s) = Some i \<longleftrightarrow>
    (\<exists>op \<in> stored_hist inner t. op_slot op = (a, s) \<and> o_id op = i)"
proof
  assume "fmlookup (mi_actor_by_seq inner) (t, a, s) = Some i"
  then obtain m where m: "fmlookup (mi_meta inner) i = Some m" "seq_slot m = (t, a, s)"
    using indexed_okD(4)[OF ok] unfolding slots_indexed_def by blast
  obtain op where "o_id op = i" "op \<in> stored_hist inner (m_topic_id m)" "meta_matches op m" by (rule stored_meta[OF ok m(1)])
  then show "\<exists>op \<in> stored_hist inner t. op_slot op = (a, s) \<and> o_id op = i"
    using m(2) by (auto simp: seq_slot_def op_slot_def meta_matchesD)
next
  assume "\<exists>op \<in> stored_hist inner t. op_slot op = (a, s) \<and> o_id op = i"
  then obtain op where op: "op \<in> stored_hist inner t" "op_slot op = (a, s)" "o_id op = i" by blast
  obtain m where "fmlookup (mi_meta inner) (o_id op) = Some m" "meta_matches op m" "m_topic_id m = t"
    by (rule stored_hist_meta[OF ok op(1)])
  then have "fmlookup (mi_meta inner) i = Some m" "seq_slot m = (t, a, s)" using op(2,3) by (auto simp: seq_slot_def op_slot_def meta_matchesD)
  then show "fmlookup (mi_actor_by_seq inner) (t, a, s) = Some i" using indexed_okD(4)[OF ok] unfolding slots_indexed_def by blast
qed

lemma stored_tip:
  assumes ok: "indexed_ok inner"
  shows "is_tip (stored_hist inner t) a (fmlookup (mi_actor_tip inner) (t, a))"
proof -
  have c: "chain_at (mi_actor_by_seq inner) (mi_actor_tip inner) t a" using indexed_okD(5)[OF ok] by (simp add: chained_def)
  have slot: "fmlookup (mi_actor_by_seq inner) (t, a, b_actor_seq (body op)) = Some (o_id op)"
    if "op \<in> stored_hist inner t" "b_actor_id (body op) = a" for op
    using stored_slot[OF ok, of t a "b_actor_seq (body op)" "o_id op"] that by (auto simp: op_slot_def)
  show ?thesis
  proof (cases "fmlookup (mi_actor_tip inner) (t, a)")
    case None
    then show ?thesis using c slot by (fastforce simp: chain_at_def is_tip_def)
  next
    case (Some ni)
    obtain n i where ni: "ni = (n, i)" by (cases ni)
    then have n: "fmlookup (mi_actor_by_seq inner) (t, a, n) = Some i"
      "\<And>s. fmlookup (mi_actor_by_seq inner) (t, a, s) \<noteq> None \<longleftrightarrow> 1 \<le> s \<and> s \<le> n"
      using c Some by (simp_all add: chain_at_def)
    have "b_actor_seq (body op) \<le> n" if "op \<in> stored_hist inner t" "b_actor_id (body op) = a" for op
      using n(2)[of "b_actor_seq (body op)"] slot[OF that] by auto
    moreover have "\<exists>op \<in> stored_hist inner t. b_actor_id (body op) = a \<and> b_actor_seq (body op) = n \<and> o_id op = i"
      using n(1) stored_slot[OF ok, of t a n i] by (auto simp: op_slot_def)
    ultimately show ?thesis by (auto simp: is_tip_def Some ni)
  qed
qed

lemma stored_frontier:
  assumes ok: "indexed_ok inner" and d: "deps_closed (mi_meta inner)"
  shows "frontier_of (mi_meta inner) t = frontier (stored_hist inner t)"
proof (rule set_eqI)
  fix i
  have dep: "(\<forall>j m. fmlookup (mi_meta inner) j = Some m \<longrightarrow> i |\<notin>| m_deps m) \<longleftrightarrow> (\<forall>q \<in> stored_hist inner t. i |\<notin>| b_deps (body q))"
    if i: "fmlookup (mi_meta inner) i = Some n" "m_topic_id n = t" for n
  proof -
    have "\<exists>j m. fmlookup (mi_meta inner) j = Some m \<and> i |\<in>| m_deps m" if q: "q \<in> stored_hist inner t" "i |\<in>| b_deps (body q)" for q
    proof -
      obtain m where "fmlookup (mi_meta inner) (o_id q) = Some m" "meta_matches q m" by (rule stored_hist_meta[OF ok q(1)])
      then show ?thesis using q(2) meta_matchesD(5) by metis
    qed
    moreover have "\<exists>q \<in> stored_hist inner t. i |\<in>| b_deps (body q)" if m: "fmlookup (mi_meta inner) j = Some m" "i |\<in>| m_deps m" for j m
    proof -
      obtain n' where "fmlookup (mi_meta inner) i = Some n'" "m_topic_id n' = m_topic_id m" by (rule deps_closedD[OF d m])
      moreover obtain q where "q \<in> stored_hist inner (m_topic_id m)" "meta_matches q m" by (rule stored_meta[OF ok m(1)])
      ultimately show ?thesis using i m(2) meta_matchesD(5)[of q m] by auto
    qed
    ultimately show ?thesis by blast
  qed
  show "i \<in> frontier_of (mi_meta inner) t \<longleftrightarrow> i \<in> frontier (stored_hist inner t)"
  proof
    assume "i \<in> frontier_of (mi_meta inner) t"
    then obtain n where n: "fmlookup (mi_meta inner) i = Some n" "m_topic_id n = t"
      "\<forall>j m. fmlookup (mi_meta inner) j = Some m \<longrightarrow> i |\<notin>| m_deps m" by (auto simp: frontier_of_def with_meta_def)
    obtain op where "o_id op = i" "op \<in> stored_hist inner (m_topic_id n)" by (rule stored_meta[OF ok n(1)])
    then show "i \<in> frontier (stored_hist inner t)" using dep[OF n(1,2)] n(2,3) by (auto simp: frontier_def)
  next
    assume "i \<in> frontier (stored_hist inner t)"
    then obtain op where op: "op \<in> stored_hist inner t" "o_id op = i" "\<forall>q \<in> stored_hist inner t. i |\<notin>| b_deps (body q)"
      by (auto simp: frontier_def)
    obtain m where "fmlookup (mi_meta inner) (o_id op) = Some m" "meta_matches op m" "m_topic_id m = t" by (rule stored_hist_meta[OF ok op(1)])
    then show "i \<in> frontier_of (mi_meta inner) t" using dep[of m] op(2,3) by (auto simp: frontier_of_def with_meta_def)
  qed
qed

abbreviation no_overlay :: "bool \<Rightarrow> batch_overlay" where
  "no_overlay reset \<equiv> \<lparr>bo_ops = fmempty, bo_meta = fmempty, bo_tips = fmempty, bo_index = fmempty, bo_reset = reset\<rparr>"

lemma stored_view:
  assumes ok: "store_ok x inner" and t: "topic_ok x V inner t"
  shows "view_ok x V t inner (no_overlay False) (get_or {||} (mi_heads inner) t) (topic_state_locked inner t) (stored_hist inner t)"
proof -
  note ix = store_okD(3)[OF ok] and core = store_okD(1)[OF ok]
  have "sees inner fmempty fmempty (stored_hist inner t)"
    unfolding sees_def
  proof (intro ballI conjI)
    fix op assume op: "op \<in> stored_hist inner t"
    then show "op_projected inner fmempty (o_id op) = Ok op" by (simp add: op_projected_def stored_hist_def ok_or_def)
    obtain m where "fmlookup (mi_meta inner) (o_id op) = Some m" "meta_matches op m" "m_topic_id m = t" by (rule stored_hist_meta[OF ix op])
    then show "\<exists>m. meta_projected inner fmempty (o_id op) = Ok m \<and> meta_matches op m \<and> m_topic_id m = b_topic_id (body op) \<and>
      clock_is (deps_past (stored_hist inner t) op) (m_observed_clock m)"
      using topic_okD(3)[OF t op] op by (auto simp: meta_projected_def ok_or_def stored_hist_def)
  qed
  moreover have "slot_holder (stored_hist inner t) b (overlay_slot inner (no_overlay False) b)" if "b_topic_id b = t" for b
  proof -
    have "overlay_slot inner (no_overlay False) b = fmlookup (mi_actor_by_seq inner) (t, b_actor_id b, b_actor_seq b)"
      using that by (simp add: overlay_slot_def stored_actor_index_def actor_index_def split: option.split)
    then show ?thesis using stored_slot[OF ix, of t "b_actor_id b" "b_actor_seq b"] by (simp add: slot_holder_def)
  qed
  moreover have "is_tip (stored_hist inner t) (b_actor_id b) (overlay_tip inner (no_overlay False) b)" if "b_topic_id b = t" for b
    using stored_tip[OF ix, of t "b_actor_id b"] that by (simp add: overlay_tip_def stored_actor_tip_def actor_tip_def)
  moreover have "fset (get_or {||} (mi_heads inner) t) = frontier (stored_hist inner t)"
    using core_okD(3)[OF core, of t] stored_frontier[OF ix core_okD(2)[OF core]] by simp
  moreover have "state_of (stored_hist inner t) (topic_state_locked inner t)"
    using topic_okD(4)[OF t] by (auto simp: state_of_def topic_state_locked_def materialized_heads split: option.splits)
  ultimately show ?thesis using topic_okD(1,2)[OF t] by (simp add: view_ok_def)
qed

lemma empty_view: "view_ok x V t inner (no_overlay True) {||} None {}"
  by (simp add: view_ok_def sees_def slot_holder_def is_tip_def overlay_slot_def overlay_tip_def stored_actor_index_def
    stored_actor_tip_def frontier_def state_of_def)

section \<open>Accepting an operation\<close>

lemma next_state_of:
  assumes h: "hist_ok x t H" and op: "op_ok x t H op" "is_genesis op \<Longrightarrow> H = {}" "inj_on o_id (insert op H)"
    and s: "state_of H state" and run: "next_state op state = Ok state'"
  shows "state_of (insert op H) state'"
proof (cases "b_payload (body op)")
  case (Genesis g)
  then have H: "H = {}" and s': "state' = Some (genesis_topic_state op g {||})"
    using op(2) run by (auto simp: is_genesis_def next_state_def)
  have "genesis_op {op} op g" using Genesis by (simp add: genesis_op_def)
  moreover have "member_offers {op} p = {}" "policy_offers {op} = {}" for p
    using Genesis by (auto simp: member_offers_def policy_offers_def)
  ultimately have "materialized {op} {||} (genesis_topic_state op g {||})"
    unfolding materialized_def by (auto simp: genesis_topic_state_def members_ok_def is_latest_def)
  then show ?thesis using H s' by (simp add: state_of_def genesis_topic_state_def)
next
  case (Event ev)
  then have "b_deps (body op) \<noteq> {||}" using op_okD(5)[OF op(1)] by (simp add: is_genesis_def)
  then obtain s where s': "state = Some s" "state' = Some s"
    using run s op_okD(4)[OF op(1)] Event by (cases state) (auto simp: state_of_def next_state_def ids_def)
  have m: "materialized H (t_heads s) s" using s by (simp add: state_of_def s'(1))
  obtain q where q: "q \<in> H" by (rule materialized_nonempty[OF m])
  have "b_topic_id (body op) = t_topic_id s"
    using materialized_topic[OF m q] op_okD(1)[OF hist_okD(4)[OF h q]] op_okD(1)[OF op(1)] by simp
  then have "materialized (insert op H) (t_heads s) s"
    by (intro materialized_events[OF m]) (auto simp: is_event_def Event)
  then show ?thesis by (simp add: state_of_def s'(2))
next
  case (Control c)
  then obtain s where s': "state = Some s" "state' = Some (apply_control s op c)"
    using run by (auto simp: next_state_def rbind_eq_Ok ok_or_eq_Ok)
  have m: "materialized H (t_heads s) s" using s by (simp add: state_of_def s'(1))
  obtain q where q: "q \<in> H" by (rule materialized_nonempty[OF m])
  have "b_topic_id (body op) = t_topic_id s"
    using materialized_topic[OF m q] op_okD(1)[OF hist_okD(4)[OF h q]] op_okD(1)[OF op(1)] by simp
  from apply_control_materialized[OF m op(3) this Control] show ?thesis
    by (simp add: state_of_def s'(2) materialized_any_heads)
qed

text \<open>The overlay with one more operation.\<close>

definition overlay_add :: "operation \<Rightarrow> op_meta \<Rightarrow> batch_overlay \<Rightarrow> batch_overlay" where
  "overlay_add op m ov = ov\<lparr>bo_ops := fmupd (o_id op) op (bo_ops ov), bo_meta := fmupd (o_id op) m (bo_meta ov),
    bo_index := fmupd (b_topic_id (body op), b_actor_id (body op), b_actor_seq (body op)) (o_id op) (bo_index ov),
    bo_tips := fmupd (b_topic_id (body op), b_actor_id (body op)) (b_actor_seq (body op), o_id op) (bo_tips ov)\<rparr>"

lemma deps_past_insert:
  assumes h: "hist_ok x t H" and inj: "inj_on o_id (insert op H)" and deps: "fset (b_deps (body q)) \<subseteq> ids H"
  shows "deps_past (insert op H) q = deps_past H q"
  by (rule past_closed[OF inj _ _ deps]) (use hist_okD(4)[OF h] in \<open>auto dest: op_okD(4)\<close>)

lemma sees_add:
  assumes h: "hist_ok x t H" and s: "sees inner (bo_ops ov) (bo_meta ov) H"
    and op: "o_id op \<notin> ids H" "op_ok x t H op" and m: "meta_matches op m" "m_topic_id m = b_topic_id (body op)" "clock_is (deps_past H op) (m_observed_clock m)"
    and inj: "inj_on o_id (insert op H)"
  shows "sees inner (bo_ops (overlay_add op m ov)) (bo_meta (overlay_add op m ov)) (insert op H)"
  unfolding sees_def
proof
  fix q assume q: "q \<in> insert op H"
  show "op_projected inner (bo_ops (overlay_add op m ov)) (o_id q) = Ok q \<and>
    (\<exists>n. meta_projected inner (bo_meta (overlay_add op m ov)) (o_id q) = Ok n \<and> meta_matches q n \<and> m_topic_id n = b_topic_id (body q) \<and>
      clock_is (deps_past (insert op H) q) (m_observed_clock n))"
  proof (cases "q = op")
    case True
    then show ?thesis using m deps_past_insert[OF h inj op_okD(4)[OF op(2)]]
      by (simp add: overlay_add_def op_projected_def meta_projected_def)
  next
    case False
    then have qH: "q \<in> H" using q by simp
    then have ne: "o_id q \<noteq> o_id op" using op(1) by (auto simp: ids_iff)
    have "deps_past (insert op H) q = deps_past H q" by (rule deps_past_insert[OF h inj op_okD(4)[OF hist_okD(4)[OF h qH]]])
    then show ?thesis using seesD[OF s qH] ne by (simp add: overlay_add_def op_projected_def meta_projected_def)
  qed
qed

lemma slot_add:
  assumes s: "slot_holder H b (overlay_slot inner ov b)" and op: "b_topic_id b = b_topic_id (body op)" "op_slot op \<notin> op_slot ` H"
  shows "slot_holder (insert op H) b (overlay_slot inner (overlay_add op m ov) b)"
proof (cases "op_slot op = (b_actor_id b, b_actor_seq b)")
  case True
  have "overlay_slot inner ov b = None"
  proof (rule ccontr)
    assume "overlay_slot inner ov b \<noteq> None"
    then obtain i where "overlay_slot inner ov b = Some i" by blast
    then obtain q where "q \<in> H" "op_slot q = op_slot op" using s True unfolding slot_holder_def by metis
    then show False using op(2) by (metis image_eqI)
  qed
  then have "overlay_slot inner (overlay_add op m ov) b = Some (o_id op)"
    using True op(1) by (auto simp: overlay_slot_def overlay_add_def op_slot_def split: option.splits)
  moreover have "op_slot q \<noteq> op_slot op" if "q \<in> H" for q using op(2) that by (metis image_eqI)
  ultimately show ?thesis using True by (auto simp: slot_holder_def)
next
  case False
  then have "overlay_slot inner (overlay_add op m ov) b = overlay_slot inner ov b"
    by (auto simp: overlay_slot_def overlay_add_def op_slot_def split: option.splits)
  then show ?thesis using s False by (auto simp: slot_holder_def)
qed

lemma tip_add:
  assumes s: "is_tip H (b_actor_id b) (overlay_tip inner ov b)" and b: "b_topic_id b = b_topic_id (body op)"
    and later: "\<And>q. q \<in> H \<Longrightarrow> b_actor_id (body q) = b_actor_id (body op) \<Longrightarrow> b_actor_seq (body q) \<le> b_actor_seq (body op)"
  shows "is_tip (insert op H) (b_actor_id b) (overlay_tip inner (overlay_add op m ov) b)"
proof (cases "b_actor_id b = b_actor_id (body op)")
  case True
  then show ?thesis using later b by (auto simp: overlay_tip_def overlay_add_def is_tip_def)
next
  case False
  then have "overlay_tip inner (overlay_add op m ov) b = overlay_tip inner ov b"
    by (auto simp: overlay_tip_def overlay_add_def split: option.splits)
  then show ?thesis using s False by (auto simp: is_tip_def split: option.splits)
qed

lemma view_add:
  assumes v: "view_ok x V t inner ov heads state H" and V: "op \<in> V"
    and op: "op_ok x t H op" "o_id op \<notin> ids H" "op_slot op \<notin> op_slot ` H" "is_genesis op \<Longrightarrow> H = {}" "hist_ok x t (insert op H)"
    and m: "meta_matches op m" "m_topic_id m = b_topic_id (body op)" "clock_is (deps_past H op) (m_observed_clock m)"
    and s: "next_state op state = Ok state'"
  shows "view_ok x V t inner (overlay_add op m ov) (heads_after heads op) state' (insert op H)"
proof -
  note h = view_okD(1)[OF v] and inj = hist_okD(2)[OF op(5)] and t = op_okD(1)[OF op(1)]
  have later: "b_actor_seq (body q) \<le> b_actor_seq (body op)" if q: "q \<in> H" "b_actor_id (body q) = b_actor_id (body op)" for q
  proof (rule ccontr)
    assume "\<not> ?thesis"
    then have "unat (b_actor_seq (body op)) \<le> unat (b_actor_seq (body q))" by (simp add: word_le_nat_alt)
    from past_chain[OF h q(1) seq_positive[OF op(5)] this] obtain r where r: "r \<in> past H {o_id q}"
      "b_actor_id (body r) = b_actor_id (body q)" "unat (b_actor_seq (body r)) = unat (b_actor_seq (body op))" by auto
    then have "op_slot r = op_slot op" using q(2) by (simp add: op_slot_def word_unat_eq_iff)
    then show False using op(3) r(1) past_sub by (metis image_eqI subsetD)
  qed
  show ?thesis
    unfolding view_ok_def
  proof (intro conjI allI impI)
    show "insert op H \<subseteq> V" using V view_okD(2)[OF v] by simp
    show "sees inner (bo_ops (overlay_add op m ov)) (bo_meta (overlay_add op m ov)) (insert op H)"
      by (rule sees_add[OF h view_okD(3)[OF v] op(2,1) m inj])
    show "slot_holder (insert op H) b (overlay_slot inner (overlay_add op m ov) b)" if "b_topic_id b = t" for b
      by (rule slot_add[OF view_okD(4)[OF v that] _ op(3)]) (use that t in auto)
    show "is_tip (insert op H) (b_actor_id b) (overlay_tip inner (overlay_add op m ov) b)" if "b_topic_id b = t" for b
      by (rule tip_add[OF view_okD(5)[OF v that] _ later]) (use that t in auto)
    show "fset (heads_after heads op) = frontier (insert op H)"
      using frontier_insert[OF h op(2) op_okD(4)[OF op(1)]] view_okD(6)[OF v] by (simp add: heads_after_def)
    show "state_of (insert op H) state'" by (rule next_state_of[OF h op(1,4) inj view_okD(7)[OF v] s])
  qed (use op(5) in auto)
qed

end
