(* ===== verification/Build_Sound.thy ===== *)
theory Build_Sound
  imports Batch_Sound
begin

text \<open>
  The loop of \<open>build_batch\<close>: every accepted operation extends the history shown so far, and the batch it
  builds carries the history's new frontier and state. Records of a sound store are never half
  present, so the branch that refills damaged ones is not taken.
\<close>

section \<open>Dependencies\<close>

lemma observed_topics:
  "fold_res (observe_dep inner metas t) ds c = Ok c' \<Longrightarrow> d \<in> set ds \<Longrightarrow> \<exists>m. meta_projected inner metas d = Ok m \<and> m_topic_id m = t"
proof (induction ds arbitrary: c)
  case (Cons e ds)
  obtain c1 where c1: "observe_dep inner metas t e c = Ok c1" "fold_res (observe_dep inner metas t) ds c1 = Ok c'"
    using Cons.prems(1) by (auto simp: rbind_eq_Ok)
  have "\<exists>m. meta_projected inner metas e = Ok m \<and> m_topic_id m = t"
    using c1(1) by (auto simp: observe_dep_def meta_projected_def memory_observation_def header_of_meta_def rbind_eq_Ok ok_or_eq_Ok
      split: option.splits if_splits)
  then show ?case using Cons.IH[OF c1(2)] Cons.prems(2) by auto
qed simp

lemma meta_for_topics:
  assumes "meta_for_projected inner metas op = Ok m" "d |\<in>| b_deps (body op)"
  shows "\<exists>n. meta_projected inner metas d = Ok n \<and> m_topic_id n = b_topic_id (body op)"
  using assms observed_topics[of inner metas "b_topic_id (body op)" "iter_set (b_deps (body op))"]
  by (auto simp: meta_for_projected_def rbind_eq_Ok)

section \<open>The loop\<close>

definition build_inv ::
  "externals \<Rightarrow> operation set \<Rightarrow> topic_id \<Rightarrow> memory_inner \<Rightarrow> bool \<Rightarrow> operation set \<Rightarrow> topic_state option \<Rightarrow> build
    \<Rightarrow> (operation \<times> op_meta) list \<Rightarrow> bool" where
  "build_inv x V t inner reset H s bl es \<longleftrightarrow>
    view_ok x V t inner (bl_overlay bl) (bl_heads bl) (bl_state bl) (H \<union> fst ` set es) \<and>
    (\<forall>i op. fmlookup (bo_ops (bl_overlay bl)) i = Some op \<longleftrightarrow> (\<exists>m. (op, m) \<in> set es \<and> o_id op = i)) \<and>
    (\<forall>i m. fmlookup (bo_meta (bl_overlay bl)) i = Some m \<longleftrightarrow> (\<exists>op. (op, m) \<in> set es \<and> o_id op = i)) \<and>
    bo_reset (bl_overlay bl) = reset \<and>
    bl_admitted bl = map (o_id \<circ> fst) es \<and> distinct (bl_admitted bl) \<and> bl_accepted bl = fset_of_list (bl_admitted bl) \<and>
    (\<forall>(op, m) \<in> set es. meta_matches op m \<and> m_topic_id m = t \<and> o_id op \<notin> ids H) \<and>
    proj_ok V (bl_projections bl) \<and>
    (\<forall>(op, _) \<in> set (bl_pending bl). op \<in> V \<and> op_validate x op = Ok () \<and> b_deps (body op) \<noteq> {||}) \<and>
    (\<not> bl_state_changed bl \<longrightarrow> bl_state bl = s)"

lemma build_invD:
  assumes "build_inv x V t inner reset H s bl es"
  shows "view_ok x V t inner (bl_overlay bl) (bl_heads bl) (bl_state bl) (H \<union> fst ` set es)"
    "fmlookup (bo_ops (bl_overlay bl)) i = Some op \<longleftrightarrow> (\<exists>m. (op, m) \<in> set es \<and> o_id op = i)"
    "fmlookup (bo_meta (bl_overlay bl)) i = Some m \<longleftrightarrow> (\<exists>op. (op, m) \<in> set es \<and> o_id op = i)"
    "bo_reset (bl_overlay bl) = reset" "bl_admitted bl = map (o_id \<circ> fst) es" "distinct (bl_admitted bl)"
    "bl_accepted bl = fset_of_list (bl_admitted bl)"
    "(op, m) \<in> set es \<Longrightarrow> meta_matches op m \<and> m_topic_id m = t \<and> o_id op \<notin> ids H"
    "proj_ok V (bl_projections bl)" "(op, d) \<in> set (bl_pending bl) \<Longrightarrow> op \<in> V \<and> op_validate x op = Ok () \<and> b_deps (body op) \<noteq> {||}"
    "\<not> bl_state_changed bl \<Longrightarrow> bl_state bl = s"
  using assms by (auto simp: build_inv_def)

text \<open>The history a batch starts from: the stored one, or none when the topic is reset.\<close>

definition base_hist :: "memory_inner \<Rightarrow> topic_id \<Rightarrow> bool \<Rightarrow> operation set" where
  "base_hist inner t reset = (if reset then {} else stored_hist inner t)"

lemma deps_in_history:
  assumes ok: "store_ok x inner" and inv: "build_inv x V t inner reset (base_hist inner t reset) s bl es"
    and op: "b_topic_id (body op) = t" "missing_deps_projected inner op (bo_ops (bl_overlay bl)) reset = {||}"
    and run: "\<not> reset \<Longrightarrow> \<exists>m. meta_for_projected inner (bo_meta (bl_overlay bl)) op = Ok m"
  shows "fset (b_deps (body op)) \<subseteq> ids (base_hist inner t reset \<union> fst ` set es)"
proof
  fix d assume d: "d \<in> fset (b_deps (body op))"
  show "d \<in> ids (base_hist inner t reset \<union> fst ` set es)"
  proof (cases reset)
    case True
    then have "contains_key (bo_ops (bl_overlay bl)) d" using op(2) d by (auto simp: missing_deps_projected_def)
    then obtain q where "fmlookup (bo_ops (bl_overlay bl)) d = Some q" by (auto simp: contains_key_def)
    then show ?thesis unfolding build_invD(2)[OF inv] by (force simp: ids_def)
  next
    case False
    then obtain m n where m: "meta_projected inner (bo_meta (bl_overlay bl)) d = Ok n" "m_topic_id n = t"
      using run meta_for_topics[of inner "bo_meta (bl_overlay bl)" op] d op(1) by blast
    show ?thesis
    proof (cases "fmlookup (bo_meta (bl_overlay bl)) d")
      case None
      then have n: "fmlookup (mi_meta inner) d = Some n" using m(1) by (simp add: meta_projected_def ok_or_eq_Ok)
      obtain q where "o_id q = d" "q \<in> stored_hist inner (m_topic_id n)" by (rule stored_meta[OF store_okD(3)[OF ok] n])
      then show ?thesis using m(2) False by (auto simp: base_hist_def ids_def)
    next
      case (Some n')
      then show ?thesis unfolding build_invD(3)[OF inv] by (force simp: ids_def)
    qed
  qed
qed

lemma append_sound:
  assumes ok: "store_ok x inner" and V: "inj_on o_id V" and inv: "build_inv x V t inner reset (base_hist inner t reset) s bl es"
    and op: "op \<in> V" "b_topic_id (body op) = t" "op_validate x op = Ok ()"
      "missing_deps_projected inner op (bo_ops (bl_overlay bl)) reset = {||}"
    and valid: "validate_op_projected x hold inner op (bl_overlay bl) (bl_heads bl) (bl_state bl) (bl_projections bl) = Ok (Admit, P)"
    and run: "append_op inner op (bl\<lparr>bl_projections := P\<rparr>) = Ok bl'"
  shows "\<exists>m. build_inv x V t inner reset (base_hist inner t reset) s bl' (es @ [(op, m)])"
proof -
  let ?H = "base_hist inner t reset \<union> fst ` set es" and ?ov = "bl_overlay bl"
  note v = build_invD(1)[OF inv]
  obtain m0 state where r: "meta_for_projected inner (bo_meta ?ov) op = Ok m0" "next_state op (bl_state bl) = Ok state"
    "bl' = accept_op op m0 (bl\<lparr>bl_projections := P, bl_tips := b_deps (body op), bl_heads := heads_after (bl_heads bl) op, bl_state := state,
        bl_state_changed := (bl_state_changed bl \<or> \<not> is_event op),
        bl_overlay := ?ov\<lparr>bo_index := fmupd (t, m_actor_id m0, m_actor_seq m0) (o_id op) (bo_index ?ov),
          bo_tips := fmupd (t, m_actor_id m0) (m_actor_seq m0, o_id op) (bo_tips ?ov)\<rparr>\<rparr>)"
    using run op(2) by (auto simp: append_op_def rbind_eq_Ok Let_def)
  have deps: "fset (b_deps (body op)) \<subseteq> ids ?H" by (rule deps_in_history[OF ok inv op(2,4)]) (use r(1) in blast)
  obtain c where c: "m0 = meta_of_op op c True {||}" "clock_is (deps_past ?H op) c"
    using meta_for_seen[OF view_okD(1,3)[OF v] deps op(2)] r(1) by (metis sum.inject(2))
  note e = admitted_extends[OF v V op(1) build_invD(9)[OF inv] deps op(2,3) valid]
  have m0: "meta_matches op m0" "m_topic_id m0 = b_topic_id (body op)" "clock_is (deps_past ?H op) (m_observed_clock m0)"
    using c by (simp_all add: meta_of_op_matches)
  have v': "view_ok x V t inner (overlay_add op m0 ?ov) (heads_after (bl_heads bl) op) state (insert op ?H)"
    by (rule view_add[OF v op(1) e(2-6) m0 r(2)])
  have ov: "bl_overlay bl' = overlay_add op m0 ?ov"
    using op(2) by (simp add: r(3) accept_op_def overlay_add_def c(1) meta_of_op_matches)
  have new: "o_id op \<noteq> o_id q" if "(q, n) \<in> set es" for q n using e(3) that by (force simp: ids_def)
  have "build_inv x V t inner reset (base_hist inner t reset) s bl' (es @ [(op, m0)])"
    unfolding build_inv_def
  proof (intro conjI allI)
    show "view_ok x V t inner (bl_overlay bl') (bl_heads bl') (bl_state bl') (base_hist inner t reset \<union> fst ` set (es @ [(op, m0)]))"
      using v' ov by (simp add: r(3) accept_op_def insert_commute Un_insert_right)
    show "fmlookup (bo_ops (bl_overlay bl')) i = Some q \<longleftrightarrow> (\<exists>m. (q, m) \<in> set (es @ [(op, m0)]) \<and> o_id q = i)" for i q
      using build_invD(2)[OF inv, of i q] new by (auto simp: ov overlay_add_def)
    show "fmlookup (bo_meta (bl_overlay bl')) i = Some m \<longleftrightarrow> (\<exists>q. (q, m) \<in> set (es @ [(op, m0)]) \<and> o_id q = i)" for i m
      using build_invD(3)[OF inv, of i m] new by (auto simp: ov overlay_add_def)
    show "bl_admitted bl' = map (o_id \<circ> fst) (es @ [(op, m0)])" using build_invD(5)[OF inv] by (simp add: r(3) accept_op_def)
    have "o_id op \<notin> set (bl_admitted bl)" using build_invD(5)[OF inv] new by fastforce
    then show "distinct (bl_admitted bl')" using build_invD(6)[OF inv] by (simp add: r(3) accept_op_def)
    show "bl_accepted bl' = fset_of_list (bl_admitted bl')"
      using build_invD(7)[OF inv] by (simp add: r(3) accept_op_def funion_finsert_right)
    show "\<forall>(q, m) \<in> set (es @ [(op, m0)]). meta_matches q m \<and> m_topic_id m = t \<and> o_id q \<notin> ids (base_hist inner t reset)"
      using build_invD(8)[OF inv] m0 e(3) op(2) by (auto simp: ids_def)
    show "\<forall>(op, _) \<in> set (bl_pending bl'). op \<in> V \<and> op_validate x op = Ok () \<and> b_deps (body op) \<noteq> {||}"
      using build_invD(10)[OF inv] by (auto simp: r(3) accept_op_def)
    show "\<not> bl_state_changed bl' \<longrightarrow> bl_state bl' = s"
    proof
      assume "\<not> bl_state_changed bl'"
      then have "\<not> bl_state_changed bl" "is_event op" by (auto simp: r(3) accept_op_def)
      then show "bl_state bl' = s" using build_invD(11)[OF inv] r(2)
        by (auto simp: r(3) accept_op_def next_state_def is_event_def split: topic_payload.splits)
    qed
  qed (use build_invD(4)[OF inv] e(1) in \<open>simp_all add: r(3) accept_op_def\<close>)
  then show ?thesis by blast
qed

lemma never_half:
  assumes "store_ok x inner"
  shows "stored_op_state inner op = (if fmlookup (mi_meta inner) (o_id op) = None then Absent else Complete)"
proof -
  note ix = store_okD(3)[OF assms] and dc = core_okD(2)[OF store_okD(1)[OF assms]]
  have pair: "fmlookup (mi_ops inner) (o_id op) = None \<longleftrightarrow> fmlookup (mi_meta inner) (o_id op) = None"
    by (rule paired_None[OF indexed_okD(1)[OF ix]])
  have slot: "fmlookup (mi_meta inner) (o_id op) \<noteq> None" if "fmlookup (mi_actor_by_seq inner) k = Some (o_id op)" for k
    using indexed_okD(4)[OF ix] that unfolding slots_indexed_def by blast
  have child: "fmlookup (mi_meta inner) (o_id op) \<noteq> None" if "store_children inner (o_id op) \<noteq> {||}"
  proof -
    have "with_meta (mi_meta inner) (\<lambda>n. o_id op |\<in>| m_deps n) \<noteq> {}"
      using index_get[OF indexed_okD(3)[OF ix, unfolded children_indexed_def], of "o_id op"] that by (auto simp: store_children_def)
    then obtain j n where "fmlookup (mi_meta inner) j = Some n" "o_id op |\<in>| m_deps n" by (auto simp: with_meta_def)
    from deps_closedD[OF dc this] show ?thesis by auto
  qed
  show ?thesis using pair slot child by (auto simp: stored_op_state_def Let_def contains_key_def actor_index_def)
qed

lemma build_op_sound:
  assumes ok: "store_ok x inner" and V: "inj_on o_id V" and inv: "build_inv x V t inner reset (base_hist inner t reset) s bl es"
    and op: "op_validate x op = Ok () \<Longrightarrow> op \<in> V" "b_topic_id (body op) = t" "o_id op |\<in>| verified \<Longrightarrow> op_validate x op = Ok ()"
    and run: "build_op x hold inner verified reset op bl = Ok bl'"
  shows "\<exists>es'. build_inv x V t inner reset (base_hist inner t reset) s bl' es'"
proof -
  have valid: "op_validate x op = Ok ()" using run op(3) by (auto simp: build_op_def rbind_eq_Ok split: if_splits)
  then have inV: "op \<in> V" using op(1) by blast
  let ?stored = "if reset then Absent else stored_op_state inner op" and ?ov = "bl_overlay bl"
  let ?missing = "missing_deps_projected inner op (bo_ops ?ov) reset"
  have stored: "?stored \<noteq> Repair" using never_half[OF ok] by simp
  have run': "(if ?stored = Complete then (if bl_state bl = None then Err AdmissionConflict else Ok bl)
      else if ?missing \<noteq> {||}
      then rbind (validate_pending_op x inner op ?missing ?ov (bl_state bl)) (\<lambda>answer.
        Ok (if answer = Duplicate then bl else bl\<lparr>bl_pending := bl_pending bl @ [(op, ?missing)]\<rparr>))
      else rbind (validate_op_projected x hold inner op ?ov (bl_heads bl) (bl_state bl) (bl_projections bl))
        (\<lambda>(answer, projections).
          if answer = Duplicate then Ok (bl\<lparr>bl_projections := projections\<rparr>)
          else append_op inner op (bl\<lparr>bl_projections := projections\<rparr>))) = Ok bl'"
    using run stored unfolding build_op_def rbind_eq_Ok Let_def by (auto split: if_splits)
  show ?thesis
  proof (cases "?stored = Complete")
    case True
    then show ?thesis using run' inv by (auto split: if_splits)
  next
    case absent: False
    show ?thesis
    proof (cases "?missing = {||}")
      case False
      then have "bl' = bl \<or> bl' = bl\<lparr>bl_pending := bl_pending bl @ [(op, ?missing)]\<rparr>"
        using run' absent by (auto simp: rbind_eq_Ok split: if_splits)
      moreover have "build_inv x V t inner reset (base_hist inner t reset) s (bl\<lparr>bl_pending := bl_pending bl @ [(op, ?missing)]\<rparr>) es"
        using inv inV valid False by (auto simp: build_inv_def missing_deps_projected_def)
      ultimately show ?thesis using inv by blast
    next
      case True
      then obtain answer P where a: "validate_op_projected x hold inner op ?ov (bl_heads bl) (bl_state bl) (bl_projections bl) = Ok (answer, P)"
        "(if answer = Duplicate then Ok (bl\<lparr>bl_projections := P\<rparr>) else append_op inner op (bl\<lparr>bl_projections := P\<rparr>)) = Ok bl'"
        using run' absent by (auto simp: rbind_eq_Ok)
      show ?thesis
      proof (cases answer)
        case Admit
        then show ?thesis using append_sound[OF ok V inv inV op(2) valid True, of hold P bl'] a by auto
      next
        case Duplicate
        have "reset" if "is_admitted_duplicate inner op"
          using that absent never_half[OF ok, of op] by (auto simp: is_admitted_duplicate_def resolvable_iff[OF store_okD(3)[OF ok]] split: if_splits)
        moreover have "is_admitted_duplicate inner op"
          using a(1) Duplicate by (auto simp: validate_op_projected_def Let_def rbind_eq_Ok split: if_splits)
        ultimately have deps: "fset (b_deps (body op)) \<subseteq> ids (base_hist inner t reset \<union> fst ` set es)"
          by (intro deps_in_history[OF ok inv op(2) True]) blast
        have "P = bl_projections bl \<or> check_payload x hold inner op ?ov (bl_heads bl) (bl_state bl) (bl_projections bl) = Ok P"
          using a(1) Duplicate by (auto simp: validate_op_projected_def Let_def rbind_eq_Ok split: if_splits)
        then have "proj_ok V P"
          using payload_sound(1)[OF build_invD(1)[OF inv] V build_invD(9)[OF inv] deps op(2)] build_invD(9)[OF inv] by blast
        then have "build_inv x V t inner reset (base_hist inner t reset) s (bl\<lparr>bl_projections := P\<rparr>) es"
          using inv by (auto simp: build_inv_def)
        then show ?thesis using a(2) Duplicate by auto
      qed
    qed
  qed
qed

lemma build_fold_sound:
  assumes ok: "store_ok x inner" and V: "inj_on o_id V"
    and ops: "\<And>op. op \<in> set ops \<Longrightarrow> (op_validate x op = Ok () \<longrightarrow> op \<in> V) \<and> b_topic_id (body op) = t \<and>
      (o_id op |\<in>| verified \<longrightarrow> op_validate x op = Ok ())"
    and run: "fold_res (build_op x hold inner verified reset) ops bl = Ok bl'"
    and inv: "build_inv x V t inner reset (base_hist inner t reset) s bl es"
  shows "\<exists>es'. build_inv x V t inner reset (base_hist inner t reset) s bl' es'"
  using ops run inv
proof (induction ops arbitrary: bl es)
  case (Cons op ops)
  obtain bl1 where r: "build_op x hold inner verified reset op bl = Ok bl1" "fold_res (build_op x hold inner verified reset) ops bl1 = Ok bl'"
    using Cons.prems(2) by (auto simp: rbind_eq_Ok)
  obtain es1 where "build_inv x V t inner reset (base_hist inner t reset) s bl1 es1"
    using build_op_sound[OF ok V Cons.prems(3) _ _ _ r(1)] Cons.prems(1)[of op] by auto
  then show ?case using Cons.IH[OF _ r(2)] Cons.prems(1) by simp
qed auto

lemma take_entries:
  assumes "distinct (map (o_id \<circ> fst) es)"
    and "\<And>op m. (op, m) \<in> set es \<Longrightarrow> fmlookup ops (o_id op) = Some op \<and> fmlookup metas (o_id op) = Some m"
  shows "\<exists>ops' metas'. fold_res take_entry (map (o_id \<circ> fst) es) (ops, metas, acc) = Ok (ops', metas', acc @ es)"
  using assms
proof (induction es arbitrary: ops metas acc)
  case (Cons e es)
  obtain op m where e: "e = (op, m)" by (cases e)
  have "fmlookup (fmdrop (o_id op) ops) (o_id q) = Some q \<and> fmlookup (fmdrop (o_id op) metas) (o_id q) = Some n" if "(q, n) \<in> set es" for q n
    using Cons.prems that by (force simp: e)
  from Cons.IH[OF _ this, of "acc @ [(op, m)]"] show ?case
    using Cons.prems(1) Cons.prems(2)[of op m] by (simp add: e take_entry_def)
qed auto

lemma topological_ops_subset: "topological_ops ops = Ok out \<Longrightarrow> set out \<subseteq> set ops"
proof -
  assume run: "topological_ops ops = Ok out"
  obtain out' indeg where "set out' \<subseteq> set ops" "topological_ops ops = (if acyclic (dep_rel (o_id ` set ops) (batch_deps (batch_by_id ops))) then Ok out'
      else Err (Storage ''cycle in input op batch''))"
    by (rule topological_ops_run[of "\<lambda>out. set out \<subseteq> set ops"]) (auto dest: lookup_batch_by_id)
  then show ?thesis using run by (auto split: if_splits)
qed

lemma start_view:
  assumes "store_ok x inner" "\<And>t. topic_ok x V inner t"
  shows "fset (case topic_state_locked inner t of None \<Rightarrow> {||} | Some s \<Rightarrow> t_heads s) = frontier (stored_hist inner t)"
    "view_ok x V t inner (no_overlay False) (case topic_state_locked inner t of None \<Rightarrow> {||} | Some s \<Rightarrow> t_heads s)
      (topic_state_locked inner t) (stored_hist inner t)"
proof -
  note v = stored_view[OF assms(1) assms(2)[of t]]
  have "(case topic_state_locked inner t of None \<Rightarrow> {||} | Some s \<Rightarrow> t_heads s) = get_or {||} (mi_heads inner) t"
  proof (cases "topic_state_locked inner t")
    case None
    then have "stored_hist inner t = {}" using view_okD(7)[OF v] by (simp add: state_of_def)
    then have "fset (get_or {||} (mi_heads inner) t) = {}" using view_okD(6)[OF v] by (simp add: frontier_def)
    then show ?thesis using None by auto
  qed (auto simp: topic_state_locked_def)
  then show "fset (case topic_state_locked inner t of None \<Rightarrow> {||} | Some s \<Rightarrow> t_heads s) = frontier (stored_hist inner t)"
    "view_ok x V t inner (no_overlay False) (case topic_state_locked inner t of None \<Rightarrow> {||} | Some s \<Rightarrow> t_heads s)
      (topic_state_locked inner t) (stored_hist inner t)" using v view_okD(6)[OF v] by simp_all
qed

text \<open>What a built batch says of the history it extends.\<close>

lemma build_batch_sound:
  assumes ok: "store_ok x inner" and V: "inj_on o_id V" and topic: "\<And>t. topic_ok x V inner t" and cache: "proj_ok V cached"
    and ops: "\<And>op. op \<in> set ops \<Longrightarrow> (op_validate x op = Ok () \<longrightarrow> op \<in> V) \<and> (o_id op |\<in>| verified \<longrightarrow> op_validate x op = Ok ())"
    and run: "build_batch x hold rg cached inner source ops verified reset effects = Ok (Some built)"
  obtains t bl es where "build_inv x V t inner reset (base_hist inner t reset) (if reset then None else topic_state_locked inner t) bl es"
    "ab_topic_id (bb_batch built) = t" "ab_entries (bb_batch built) = es" "ab_heads (bb_batch built) = bl_heads bl"
    "ab_expected_topic_state (bb_batch built) = (if reset then None else topic_state_locked inner t)"
    "fset (ab_expected_heads (bb_batch built)) = frontier (base_hist inner t reset)"
    "ab_topic_state (bb_batch built) = (if bl_state_changed bl then map_option (\<lambda>s. s\<lparr>t_heads := bl_heads bl\<rparr>) (bl_state bl) else None)"
    "bb_pending built = bl_pending bl" "bb_projections built = bl_projections bl" "bb_accepted built = bl_accepted bl"
proof -
  obtain sorted where sorted: "topological_ops ops = Ok sorted" using run by (auto simp: build_batch_def rbind_eq_Ok)
  have sub: "set sorted \<subseteq> set ops" by (rule topological_ops_subset[OF sorted])
  from run obtain first rest where f: "sorted = first # rest" by (cases sorted) (auto simp: build_batch_def rbind_eq_Ok sorted)
  define t where "t = b_topic_id (body first)"
  let ?s = "if reset then None else topic_state_locked inner t" and ?H = "base_hist inner t reset"
  let ?heads = "case ?s of None \<Rightarrow> {||} | Some s \<Rightarrow> t_heads s"
  obtain bl where b: "\<not> list_ex (\<lambda>op. b_topic_id (body op) \<noteq> t) sorted"
    "fold_res (build_op x hold inner verified reset) sorted (build_start ?heads ?s reset (usable_projections t ?s cached)) = Ok bl"
    "finish_batch effects source t ?heads ?s bl = Ok built"
    using run unfolding build_batch_def sorted f t_def by (auto simp: rbind_eq_Ok Let_def split: if_splits)
  have heads: "fset ?heads = frontier ?H" and view: "view_ok x V t inner (no_overlay reset) ?heads ?s ?H"
    using start_view[OF ok topic, of t] unfolding base_hist_def by (cases reset; simp add: empty_view frontier_def)+
  have "proj_ok V (usable_projections t ?s cached)" using cache by (auto simp: proj_ok_def usable_projections_def)
  then have start: "build_inv x V t inner reset ?H ?s (build_start ?heads ?s reset (usable_projections t ?s cached)) []"
    using view by (simp add: build_inv_def build_start_def)
  have "\<And>op. op \<in> set sorted \<Longrightarrow> (op_validate x op = Ok () \<longrightarrow> op \<in> V) \<and> b_topic_id (body op) = t \<and>
      (o_id op |\<in>| verified \<longrightarrow> op_validate x op = Ok ())" using ops sub b(1) by (auto simp: list_ex_iff)
  from build_fold_sound[OF ok V this b(2) start] obtain es where inv: "build_inv x V t inner reset ?H ?s bl es" by blast
  have "fmlookup (bo_ops (bl_overlay bl)) (o_id op) = Some op \<and> fmlookup (bo_meta (bl_overlay bl)) (o_id op) = Some m"
    if "(op, m) \<in> set es" for op m using build_invD(2,3)[OF inv] that by blast
  from take_entries[of es "bo_ops (bl_overlay bl)" "bo_meta (bl_overlay bl)" "[]", OF _ this]
  obtain ops' metas' where taken: "fold_res take_entry (bl_admitted bl) (bo_ops (bl_overlay bl), bo_meta (bl_overlay bl), []) = Ok (ops', metas', es)"
    using build_invD(5,6)[OF inv] by auto
  obtain eff where "built = \<lparr>bb_accepted = bl_accepted bl,
      bb_batch = \<lparr>ab_topic_id = t, ab_expected_heads = ?heads, ab_expected_topic_state = ?s, ab_entries = es, ab_heads = bl_heads bl,
        ab_topic_state = (if bl_state_changed bl then map_option (\<lambda>s. s\<lparr>t_heads := bl_heads bl\<rparr>) (bl_state bl) else None),
        ab_effects = eff\<rparr>,
      bb_pending = bl_pending bl, bb_projections = bl_projections bl, bb_tips = bl_tips bl\<rparr>"
    using b(3) unfolding finish_batch_def taken Let_def rbind_simps prod.case rbind_eq_Ok by blast
  then show thesis using that[OF inv] heads by simp
qed

end
