(* ===== verification/Oplog_Admission.thy ===== *)
theory Oplog_Admission
  imports Oplog_Batch
begin

text \<open>
  Admission, \<open>oplog/admission.rs\<close>: one attempt, the retries of one job, and the loop that admits
  received operations and then drains the buffered ones they released. The op log's state survives
  an error, so its functions return a result and the state.
\<close>

section \<open>State\<close>

text \<open>
  The membership cache's epoch is a fresh reference after every clear; a counter stands for it. The
  branch a receiver is bound to never changes.
\<close>

record oplog =
  ol_store :: memory_inner
  ol_epoch :: nat
  ol_states :: projections
  ol_order :: "op_id list"
  ol_receive_genesis :: "(topic_id \<times> op_id) option"

text \<open>
  What surrounds a run: third-party code, the store's limits, and at every tick the answers of the
  memory budget, whether the topic's turn came in time, and what other writers of the store did
  \<^emph>\<open>before\<close> an attempt and \<^emph>\<open>between\<close> its validation and its commit.
\<close>

record world =
  w_ext :: externals
  w_fingerprint :: fingerprint
  w_quota :: "staging_quota option"
  w_namespace :: bool
  w_budget :: "nat \<Rightarrow> budget"
  w_hold :: "nat \<Rightarrow> hold"
  w_turn :: "nat \<Rightarrow> unit result"
  w_before :: "nat \<Rightarrow> oplog \<Rightarrow> oplog"
  w_between :: "nat \<Rightarrow> oplog \<Rightarrow> oplog"

type_synonym 'a run = "'a result \<times> oplog"

definition clear_cache :: "oplog \<Rightarrow> oplog" where
  "clear_cache ol = ol\<lparr>ol_epoch := ol_epoch ol + 1, ol_states := fmempty, ol_order := []\<rparr>"

definition admission_failure :: "admitted \<Rightarrow> error \<Rightarrow> error" where
  "admission_failure admitted err =
    (let (admitted, source) = (case err of
           AdmissionCommitted partial source \<Rightarrow>
             (admitted\<lparr>a_accepted := a_accepted admitted |\<union>| a_accepted partial,
                a_evictions := a_evictions admitted @ a_evictions partial\<rparr>, source)
         | _ \<Rightarrow> (admitted, err))
     in if a_accepted admitted = {||} \<and> a_evictions admitted = [] then source
        else AdmissionCommitted admitted source)"

definition is_admission_race :: "error \<Rightarrow> bool" where
  "is_admission_race err \<longleftrightarrow>
    (case err of
       AdmissionConflict \<Rightarrow> True | ActorSeqGap _ _ \<Rightarrow> True | ActorPrevMismatch \<Rightarrow> True | ActorFork \<Rightarrow> True
     | InvalidOpId \<Rightarrow> True | GenerationMismatch _ _ \<Rightarrow> True | _ \<Rightarrow> False)"

section \<open>One attempt\<close>

fun evict_projections :: "nat \<Rightarrow> projections \<Rightarrow> op_id list \<Rightarrow> projections \<times> op_id list" where
  "evict_projections bytes states [] = (states, [])"
| "evict_projections bytes states (oldest # order) =
    (if fcard (fmdom states) \<ge> MAX_CACHED_PROJECTIONS \<or> projection_bytes states + bytes > MAX_PROJECTION_BYTES
     then evict_projections bytes (fmdrop oldest states) order else (states, oldest # order))"

definition cache_projection :: "projections \<Rightarrow> op_id \<Rightarrow> oplog \<Rightarrow> oplog" where
  "cache_projection projections i ol =
    (case fmlookup projections i of
       None \<Rightarrow> ol
     | Some state \<Rightarrow>
         if contains_key (ol_states ol) i \<or> state_bytes state > MAX_PROJECTION_BYTES then ol
         else let (states, order) = evict_projections (state_bytes state) (ol_states ol) (ol_order ol)
              in ol\<lparr>ol_states := fmupd i state states, ol_order := order @ [i]\<rparr>)"

definition commit_batch :: "world \<Rightarrow> nat \<Rightarrow> reset_plan option \<Rightarrow> admitted_batch \<Rightarrow> oplog \<Rightarrow> unit run" where
  "commit_batch W k plan batch ol =
    (case plan of
       Some p \<Rightarrow>
         (case reset_topic_and_admit (w_ext W) (w_fingerprint W) (w_budget W k) (w_namespace W) (ab_topic_id batch)
             (rp_expected_state p) batch (Some (rp_eviction p)) (ol_store ol) of
            Err e \<Rightarrow> (Err e, ol)
          | Ok (_, inner) \<Rightarrow> (Ok (), clear_cache (ol\<lparr>ol_store := inner\<rparr>)))
     | None \<Rightarrow>
         if ab_entries batch = [] then (Ok (), ol)
         else (case admit_batch_locked (w_ext W) (w_fingerprint W) (w_budget W k) batch (w_quota W) (ol_store ol) of
            Err e \<Rightarrow> (Err e, ol)
          | Ok inner \<Rightarrow> (Ok (), ol\<lparr>ol_store := inner\<rparr>)))"

definition put_pending_one ::
  "world \<Rightarrow> nat \<Rightarrow> peer_id option \<Rightarrow> topic_id \<Rightarrow> operation \<times> op_id btree_set \<Rightarrow> oplog \<Rightarrow> unit run" where
  "put_pending_one W k source topic = (\<lambda>(op, missing) ol.
    let bound = (case ol_receive_genesis ol of Some (t, genesis) \<Rightarrow> if t = topic then Some genesis else None | None \<Rightarrow> None);
        source = (case source of None \<Rightarrow> b_author (body op) | Some p \<Rightarrow> p) in
    case put_pending_bound (w_ext W) (w_budget W k) (w_quota W) source op (pending_meta_for op missing) bound (ol_store ol) of
      Ok inner \<Rightarrow> (Ok (), ol\<lparr>ol_store := inner\<rparr>)
    | Err (RejectedOp _) \<Rightarrow> (Ok (), ol)
    | Err e \<Rightarrow> (Err e, ol))"

fun put_pending_all ::
  "world \<Rightarrow> nat \<Rightarrow> peer_id option \<Rightarrow> topic_id \<Rightarrow> (operation \<times> op_id btree_set) list \<Rightarrow> oplog \<Rightarrow> unit run" where
  "put_pending_all W k source topic [] ol = (Ok (), ol)"
| "put_pending_all W k source topic (p # ps) ol =
    (case put_pending_one W k source topic p ol of
       (Err e, ol) \<Rightarrow> (Err e, ol) | (Ok _, ol) \<Rightarrow> put_pending_all W k source topic ps ol)"

definition admit_ops_batch ::
  "world \<Rightarrow> nat \<Rightarrow> peer_id option \<Rightarrow> operation list \<Rightarrow> op_id btree_set \<Rightarrow> reset_plan option \<Rightarrow> receive_effects option
    \<Rightarrow> oplog \<Rightarrow> op_id btree_set run" where
  "admit_ops_batch W k source ops verified plan effects ol =
    (let ol = (if plan = None then ol else clear_cache ol) in
     case build_batch (w_ext W) (w_hold W k) (ol_receive_genesis ol) (ol_states ol) (ol_store ol) source ops verified
         (plan \<noteq> None) effects of
       Err e \<Rightarrow> (Err e, ol)
     | Ok None \<Rightarrow> (Ok {||}, ol)
     | Ok (Some built) \<Rightarrow>
         let epoch = ol_epoch ol; batch = bb_batch built; ol = w_between W k ol in
         (case commit_batch W k plan batch ol of
            (Err e, ol) \<Rightarrow> (Err e, ol)
          | (Ok _, ol) \<Rightarrow>
              (case put_pending_all W k source (ab_topic_id batch) (bb_pending built) ol of
                 (Err e, ol) \<Rightarrow> (Err (admission_failure \<lparr>a_accepted = bb_accepted built,
                    a_evictions = (case plan of None \<Rightarrow> [] | Some p \<Rightarrow> [rp_eviction p]), a_ready_remaining = False\<rparr> e), ol)
               | (Ok _, ol) \<Rightarrow>
                   (Ok (bb_accepted built),
                    if ol_epoch ol = epoch then fold (cache_projection (bb_projections built)) (iter_set (bb_tips built)) ol
                    else ol))))"

section \<open>Retries\<close>

definition MAX_ADMISSION_RETRIES :: nat where "MAX_ADMISSION_RETRIES = 64"

definition foreign_genesis :: "(topic_id \<times> op_id) option \<Rightarrow> operation list \<Rightarrow> bool" where
  "foreign_genesis receive_genesis ops =
    (case receive_genesis of
       None \<Rightarrow> False
     | Some (topic, genesis) \<Rightarrow>
         list_ex (\<lambda>op. b_topic_id (body op) = topic \<and> is_structural_genesis op \<and> o_id op \<noteq> genesis) ops)"

definition check_signatures :: "externals \<Rightarrow> op_id btree_set \<Rightarrow> operation list \<Rightarrow> op_id btree_set result" where
  "check_signatures x verified ops =
    fold_res (\<lambda>op checked.
      if o_id op |\<in>| verified then Ok (finsert (o_id op) checked)
      else rbind (validate_frame x op) (\<lambda>_. rbind (op_validate x op) (\<lambda>_. Ok (finsert (o_id op) checked)))) ops {||}"

definition job_heads :: "operation list \<Rightarrow> memory_inner \<Rightarrow> op_id btree_set option" where
  "job_heads ops inner = (case ops of [] \<Rightarrow> None | op # _ \<Rightarrow> Some (store_heads inner (b_topic_id (body op))))"

definition stale_branch :: "oplog \<Rightarrow> operation list \<Rightarrow> bool" where
  "stale_branch ol ops =
    (case (ol_receive_genesis ol, ops) of
       (Some (topic, genesis), op # _) \<Rightarrow> b_topic_id (body op) = topic \<and>
         (case topic_state_locked (ol_store ol) topic of None \<Rightarrow> False | Some s \<Rightarrow> t_genesis s < genesis)
     | _ \<Rightarrow> False)"

definition purge_losing :: "op_id option \<Rightarrow> oplog \<Rightarrow> unit run" where
  "purge_losing losing ol =
    (case losing of
       None \<Rightarrow> (Ok (), ol)
     | Some i \<Rightarrow>
         (case purge_pending_waiters i (ol_store ol) of
            Err e \<Rightarrow> (Err e, ol) | Ok (_, inner) \<Rightarrow> (Ok (), ol\<lparr>ol_store := inner\<rparr>)))"

type_synonym outcome = "op_id btree_set \<times> topic_eviction option"

text \<open>One round of the retry loop; \<open>None\<close> tries again.\<close>

definition admit_attempt ::
  "world \<Rightarrow> nat \<Rightarrow> peer_id option \<Rightarrow> operation list \<Rightarrow> op_id btree_set \<Rightarrow> receive_effects option \<Rightarrow> oplog \<Rightarrow> outcome option run" where
  "admit_attempt W k source ops checked effects ol =
    (let ol = w_before W k ol in
     case (if ops = [] then Ok () else w_turn W k) of
       Err e \<Rightarrow> (Err e, ol)
     | Ok _ \<Rightarrow>
         if stale_branch ol ops then (Err StaleIncarnation, ol)
         else
           let before = job_heads ops (ol_store ol) in
           (case (if list_ex is_structural_genesis ops then resolve_genesis_collision (w_ext W) (ol_store ol) ops checked
               else Ok (ops, None, None)) of
              Err e \<Rightarrow> (Err e, ol)
            | Ok (to_admit, plan, losing) \<Rightarrow>
                (case purge_losing losing ol of
                   (Err e, ol) \<Rightarrow> (Err e, ol)
                 | (Ok _, ol) \<Rightarrow>
                     (case admit_ops_batch W k source to_admit checked plan effects ol of
                        (Ok accepted, ol) \<Rightarrow> (Ok (Some (accepted, map_option rp_eviction plan)), ol)
                      | (Err e, ol) \<Rightarrow>
                          if e = AdmissionConflict \<or> is_admission_race e \<and> job_heads ops (ol_store ol) \<noteq> before
                          then (Ok None, ol) else (Err e, ol)))))"

fun admit_attempts ::
  "world \<Rightarrow> nat \<Rightarrow> nat \<Rightarrow> peer_id option \<Rightarrow> operation list \<Rightarrow> op_id btree_set \<Rightarrow> receive_effects option \<Rightarrow> oplog \<Rightarrow> outcome run" where
  "admit_attempts W k 0 source ops checked effects ol = (Err AdmissionConflict, ol)"
| "admit_attempts W k (Suc n) source ops checked effects ol =
    (case admit_attempt W k source ops checked effects ol of
       (Err e, ol) \<Rightarrow> (Err e, ol)
     | (Ok (Some outcome), ol) \<Rightarrow> (Ok outcome, ol)
     | (Ok None, ol) \<Rightarrow> admit_attempts W (Suc k) n source ops checked effects ol)"

definition admit_with_retry ::
  "world \<Rightarrow> nat \<Rightarrow> peer_id option \<Rightarrow> operation list \<Rightarrow> op_id btree_set \<Rightarrow> receive_effects option \<Rightarrow> oplog \<Rightarrow> outcome run" where
  "admit_with_retry W k source ops verified effects ol =
    (if foreign_genesis (ol_receive_genesis ol) ops then (Err StaleIncarnation, ol)
     else case check_signatures (w_ext W) verified ops of
       Err e \<Rightarrow> (Err e, ol)
     | Ok checked \<Rightarrow> admit_attempts W k MAX_ADMISSION_RETRIES source ops checked effects ol)"

section \<open>Draining\<close>

definition MAX_DRAIN_OPS :: nat where "MAX_DRAIN_OPS = 4096"
definition READY_SLICE :: nat where "READY_SLICE = 256"

record receiving =
  rc_queue :: "(peer_id option \<times> operation list \<times> bool) list"
  rc_drained :: nat
  rc_cursor :: "op_id option"
  rc_pass_admitted :: bool
  rc_window_admitted :: bool
  rc_held_back :: "op_id btree_set"
  rc_admitted :: admitted
  rc_tick :: nat
  rc_log :: oplog

datatype flow = Again receiving | Stop "unit result" receiving

definition note_admitted :: "outcome \<Rightarrow> receiving \<Rightarrow> receiving" where
  "note_admitted = (\<lambda>(accepted, eviction) rc.
    rc\<lparr>rc_pass_admitted := (rc_pass_admitted rc \<or> accepted \<noteq> {||}),
       rc_window_admitted := (rc_window_admitted rc \<or> accepted \<noteq> {||}),
       rc_admitted := (rc_admitted rc)\<lparr>a_accepted := a_accepted (rc_admitted rc) |\<union>| accepted,
         a_evictions := a_evictions (rc_admitted rc) @ (case eviction of None \<Rightarrow> [] | Some e \<Rightarrow> [e])\<rparr>\<rparr>)"

definition receive_failed :: "world \<Rightarrow> operation \<Rightarrow> error \<Rightarrow> receiving \<Rightarrow> flow" where
  "receive_failed W op err rc =
    (let inner = ol_store (rc_log rc) in
     case verdict_of inner op err of
       Err e \<Rightarrow> Stop (Err e) rc
     | Ok VReject \<Rightarrow>
         (case reject_pending_subtree (w_budget W (rc_tick rc)) (o_id op) inner of
            Err e \<Rightarrow> Stop (Err e) rc
          | Ok (_, inner) \<Rightarrow> Again (rc\<lparr>rc_log := (rc_log rc)\<lparr>ol_store := inner\<rparr>\<rparr>))
     | Ok VRetain \<Rightarrow>
         let rc = rc\<lparr>rc_held_back := finsert (o_id op) (rc_held_back rc)\<rparr> in
         if err = AdmissionConflict
         then Stop (Ok ()) (rc\<lparr>rc_admitted := (rc_admitted rc)\<lparr>a_ready_remaining := True\<rparr>\<rparr>) else Again rc)"

text \<open>Take one job from the queue. Ticks separate jobs by more than the retries of one.\<close>

definition receive_job :: "world \<Rightarrow> op_id btree_set \<Rightarrow> receive_effects option \<Rightarrow> receiving \<Rightarrow> flow" where
  "receive_job W verified effects rc =
    (case rc_queue rc of
       [] \<Rightarrow> Again rc
     | (source, ops, from_pending) # queue \<Rightarrow>
         let (r, ol) = admit_with_retry W (rc_tick rc) source ops verified effects (rc_log rc);
             rc = rc\<lparr>rc_queue := queue, rc_log := ol, rc_tick := rc_tick rc + MAX_ADMISSION_RETRIES\<rparr> in
         case r of
           Ok outcome \<Rightarrow> Again (note_admitted outcome rc)
         | Err e \<Rightarrow>
             if \<not> from_pending then Stop (Err e) rc
             else (case ops of
                 [op] \<Rightarrow> receive_failed W op e rc
               | _ \<Rightarrow> Again (rc\<lparr>rc_queue := rc_queue rc @ map (\<lambda>op. (source, [op], True)) ops\<rparr>)))"

definition receive_step :: "world \<Rightarrow> op_id btree_set \<Rightarrow> receive_effects option \<Rightarrow> receiving \<Rightarrow> flow" where
  "receive_step W verified effects rc =
    (if rc_queue rc \<noteq> [] then receive_job W verified effects rc
     else if rc_drained rc \<ge> MAX_DRAIN_OPS
     then if rc_window_admitted rc
       then Again (rc\<lparr>rc_drained := 0, rc_window_admitted := False, rc_cursor := None, rc_pass_admitted := False\<rparr>)
       else Stop (Ok ()) (rc\<lparr>rc_admitted := (rc_admitted rc)\<lparr>a_ready_remaining :=
         (ready_pending_after (ol_store (rc_log rc)) None 1 \<noteq> [])\<rparr>\<rparr>)
     else
       let slice = ready_pending_after (ol_store (rc_log rc)) (rc_cursor rc) READY_SLICE in
       if slice = []
       then if \<not> rc_pass_admitted rc then Stop (Ok ()) rc
         else Again (rc\<lparr>rc_cursor := None, rc_pass_admitted := False\<rparr>)
       else receive_job W verified effects (rc\<lparr>rc_cursor := Some (o_id (snd (last slice))),
         rc_drained := rc_drained rc + length slice,
         rc_queue := map (\<lambda>(source, op). (Some source, [op], True)) (filter (\<lambda>(_, op). o_id op |\<notin>| rc_held_back rc) slice)\<rparr>))"

partial_function (option) receive_loop ::
  "world \<Rightarrow> op_id btree_set \<Rightarrow> receive_effects option \<Rightarrow> receiving \<Rightarrow> (unit result \<times> receiving) option" where
  "receive_loop W verified effects rc =
    (case receive_step W verified effects rc of
       Again rc \<Rightarrow> receive_loop W verified effects rc
     | Stop r rc \<Rightarrow> Some (r, rc))"

definition no_admitted :: admitted where
  "no_admitted = \<lparr>a_accepted = {||}, a_evictions = [], a_ready_remaining = False\<rparr>"

definition receive_start :: "peer_id option \<Rightarrow> operation list \<Rightarrow> nat \<Rightarrow> oplog \<Rightarrow> receiving" where
  "receive_start source ops k ol =
    \<lparr>rc_queue = (if ops = [] then [] else [(source, ops, False)]), rc_drained = 0, rc_cursor = None,
     rc_pass_admitted = False, rc_window_admitted = False, rc_held_back = {||}, rc_admitted = no_admitted,
     rc_tick = k, rc_log = ol\<rparr>"

text \<open>\<open>None\<close> is a call that does not return; otherwise the state also gives the next free tick.\<close>

definition receive_ops_admission ::
  "world \<Rightarrow> nat \<Rightarrow> peer_id option \<Rightarrow> operation list \<Rightarrow> op_id btree_set \<Rightarrow> receive_effects option \<Rightarrow> oplog
    \<Rightarrow> (admitted result \<times> nat \<times> oplog) option" where
  "receive_ops_admission W k source ops verified effects ol =
    map_option (\<lambda>(r, rc). (case r of Ok _ \<Rightarrow> Ok (rc_admitted rc) | Err e \<Rightarrow> Err (admission_failure (rc_admitted rc) e),
        rc_tick rc, rc_log rc))
      (receive_loop W verified effects (receive_start source ops k ol))"

text \<open>Admit every buffered operation whose dependencies resolved, in finite passes.\<close>

partial_function (option) reconcile_loop :: "world \<Rightarrow> nat \<Rightarrow> op_id btree_set \<Rightarrow> oplog \<Rightarrow> (op_id btree_set result \<times> oplog) option" where
  "reconcile_loop W k accepted ol =
    Option.bind (receive_ops_admission W k None [] {||} None ol) (\<lambda>(r, k, ol).
      case r of
        Err e \<Rightarrow> Some (Err e, ol)
      | Ok pass \<Rightarrow>
          let accepted = accepted |\<union>| a_accepted pass in
          if \<not> a_ready_remaining pass \<or> a_accepted pass = {||} then Some (Ok accepted, ol)
          else reconcile_loop W k accepted ol)"

definition reconcile_pending_ops :: "world \<Rightarrow> nat \<Rightarrow> oplog \<Rightarrow> (op_id btree_set result \<times> oplog) option" where
  "reconcile_pending_ops W k ol = reconcile_loop W k {||} ol"

end
