(* ===== verification/Oplog_Creation.thy ===== *)
theory Oplog_Creation
  imports Oplog_Admission
begin

text \<open>
  Operations the local peer creates, \<open>oplog/creation.rs\<close>: genesis, events and controls, and a topic with
  its first event as one admission. Like a received batch, an attempt validates against one state of
  the store and commits against a later one.
\<close>

section \<open>Building and checking\<close>

type_synonym local_effects = "operation \<Rightarrow> op_meta \<Rightarrow> topic_state \<Rightarrow> admission_effects result"

definition sign_validated :: "externals \<Rightarrow> op_body \<Rightarrow> signer \<Rightarrow> operation result" where
  "sign_validated x b signer = rbind (op_sign x b signer) (\<lambda>op. rbind (op_validate x op) (\<lambda>_. Ok op))"

definition reuse_or_sign :: "externals \<Rightarrow> signer \<Rightarrow> operation option \<Rightarrow> op_body \<Rightarrow> operation result" where
  "reuse_or_sign x signer previous b =
    (case previous of
       Some op \<Rightarrow> if body op = b then Ok op else sign_validated x b signer
     | None \<Rightarrow> sign_validated x b signer)"

definition next_local_op ::
  "externals \<Rightarrow> memory_inner \<Rightarrow> topic_id \<Rightarrow> actor_id \<Rightarrow> op_id btree_set \<Rightarrow> topic_payload \<Rightarrow> signer \<Rightarrow> operation option
    \<Rightarrow> operation result" where
  "next_local_op x inner topic actor deps payload signer previous =
    rbind (case actor_tip inner topic actor of
        Some (seq, i) \<Rightarrow> rbind (ok_or (checked_add seq 1) (Storage ''actor sequence overflow'')) (\<lambda>n. Ok (n, Some i))
      | None \<Rightarrow> Ok (1, None)) (\<lambda>(seq, prev).
    let deps = (case prev of None \<Rightarrow> deps | Some i \<Rightarrow> finsert i deps) in
    rbind (if deps = {||} then Ok 0 else checked_next (max_generation inner topic)) (\<lambda>generation.
      reuse_or_sign x signer previous \<lparr>b_topic_id = topic, b_author = sg_peer_id signer, b_actor_id = actor,
        b_actor_seq = seq, b_actor_prev = prev, b_deps = deps, b_generation = generation, b_payload = payload\<rparr>))"

function reachable_loop ::
  "memory_inner \<Rightarrow> topic_id \<Rightarrow> op_id list \<Rightarrow> (op_id, operation) btree_map \<Rightarrow> (op_id, operation) btree_map result" where
  "reachable_loop inner topic [] reachable = Ok reachable"
| "reachable_loop inner topic (i # stack) reachable =
    (if contains_key reachable i then reachable_loop inner topic stack reachable
     else rbind (ok_or (fmlookup (mi_ops inner) i) (MissingDependency i)) (\<lambda>op.
       if b_topic_id (body op) \<noteq> topic then Err TopicMismatch
       else reachable_loop inner topic (rev (iter_set (b_deps (body op))) @ stack) (fmupd i op reachable)))"
  by pat_completeness auto
termination
proof (relation "measures [\<lambda>(inner, _, _, reachable). fcard (fmdom (mi_ops inner) |-| fmdom reachable),
    \<lambda>(_, _, stack, _). length stack]")
  fix inner :: memory_inner and topic :: topic_id and i and stack :: "op_id list" and reachable :: "(op_id, operation) btree_map" and op
  assume "\<not> contains_key reachable i" "ok_or (fmlookup (mi_ops inner) i) (MissingDependency i) = Inr op"
  then have "i |\<in>| fmdom (mi_ops inner)" "i |\<notin>| fmdom reachable" by (simp_all add: contains_key_fmdom ok_or_eq_Ok fmdomI)
  then have "fcard (fmdom (mi_ops inner) |-| finsert i (fmdom reachable)) < fcard (fmdom (mi_ops inner) |-| fmdom reachable)"
    by (intro pfsubset_fcard_mono) auto
  then show "((inner, topic, rev (iter_set (b_deps (body op))) @ stack, fmupd i op reachable), (inner, topic, i # stack, reachable))
    \<in> measures [\<lambda>(inner, _, _, reachable). fcard (fmdom (mi_ops inner) |-| fmdom reachable), \<lambda>(_, _, stack, _). length stack]"
    by simp
qed simp_all

definition state_for_deps :: "memory_inner \<Rightarrow> topic_id \<Rightarrow> op_id btree_set \<Rightarrow> topic_state result" where
  "state_for_deps inner topic deps =
    rbind (reachable_loop inner topic (rev (iter_set deps)) fmempty) (\<lambda>reachable.
      materialize_topic_state (map snd (iter_map reachable)) {||})"

definition local_member :: "memory_inner \<Rightarrow> op_body \<Rightarrow> topic_state \<Rightarrow> unit result" where
  "local_member inner b current =
    rbind (if b_deps b = t_heads current then Ok (b_author b |\<in>| t_members current)
      else rbind (state_for_deps inner (b_topic_id b) (b_deps b)) (\<lambda>s. Ok (b_author b |\<in>| t_members s))) (\<lambda>is_member.
      if is_member then Ok () else Err NotTopicMember)"

definition validate_local_payload :: "memory_inner \<Rightarrow> op_body \<Rightarrow> unit result" where
  "validate_local_payload inner b =
    (let current = topic_state_locked inner (b_topic_id b) in
     case b_payload b of
       Genesis _ \<Rightarrow>
         if b_actor_seq b \<noteq> 1 \<or> b_actor_prev b \<noteq> None \<or> b_deps b \<noteq> {||} \<or> current \<noteq> None then Err InvalidGenesis else Ok ()
     | Event envelope \<Rightarrow>
         rbind (ok_or current TopicNotFound) (\<lambda>current.
         rbind (ensure_event_type (t_event_type_id current) (ev_type_id envelope)) (\<lambda>_. local_member inner b current))
     | Control _ \<Rightarrow> rbind (ok_or current TopicNotFound) (\<lambda>current. local_member inner b current))"

definition validate_op :: "externals \<Rightarrow> memory_inner \<Rightarrow> operation \<Rightarrow> unit result" where
  "validate_op x inner op =
    (let b = body op; topic = b_topic_id b; indexed = actor_index inner topic (b_actor_id b) (b_actor_seq b) in
     if b_actor_id b \<noteq> actor_id_for (x_blake3 x) topic (b_author b) then Err ActorAuthorMismatch
     else if (case b_payload b of
         Genesis g \<Rightarrow> length (g_event_type_id g) > MAX_TYPE_BYTES \<or> topic_state_locked inner topic \<noteq> None | _ \<Rightarrow> False)
     then Err InvalidGenesis
     else if indexed \<noteq> None \<and> indexed \<noteq> Some (o_id op) then Err ActorFork
     else rbind (next_actor_position (actor_tip inner topic (b_actor_id b))) (\<lambda>(expected_seq, expected_prev).
       if b_actor_seq b \<noteq> expected_seq then Err (ActorSeqGap expected_seq (b_actor_seq b))
       else if b_actor_prev b \<noteq> expected_prev then Err ActorPrevMismatch
       else if (case b_actor_prev b of None \<Rightarrow> False | Some prev \<Rightarrow> prev |\<notin>| b_deps b) then Err ActorPrevMismatch
       else case find (\<lambda>dep. \<not> contains_key (mi_ops inner) dep) (iter_set (b_deps b)) of
         Some dep \<Rightarrow> Err (MissingDependency dep)
       | None \<Rightarrow>
           rbind (validate_local_payload inner b) (\<lambda>_.
           rbind (deps_generation (\<lambda>i. ok_or (map_option header_of_meta (fmlookup (mi_meta inner) i)) (MissingDependency i))
             (b_deps b)) (\<lambda>generation.
             if b_generation b \<noteq> generation then Err (GenerationMismatch generation (b_generation b)) else Ok ()))))"

definition meta_for :: "memory_inner \<Rightarrow> operation \<Rightarrow> op_meta result" where
  "meta_for inner op =
    rbind (fold_res (observe_dep inner fmempty (b_topic_id (body op))) (iter_set (b_deps (body op))) clock_new) (\<lambda>clock.
      Ok (meta_of_op op clock True {||}))"

definition topic_state_after :: "operation \<Rightarrow> op_id btree_set \<Rightarrow> topic_state option \<Rightarrow> topic_state option result" where
  "topic_state_after op heads base =
    (case b_payload (body op) of
       Genesis g \<Rightarrow> Ok (Some (genesis_topic_state op g heads))
     | Event _ \<Rightarrow> Ok None
     | Control control \<Rightarrow> rbind (ok_or base TopicNotFound) (\<lambda>state. Ok (Some (apply_control (state\<lparr>t_heads := heads\<rparr>) op control))))"

definition ensure_member :: "memory_inner \<Rightarrow> topic_id \<Rightarrow> peer_id \<Rightarrow> unit result" where
  "ensure_member inner topic peer =
    rbind (ok_or (topic_state_locked inner topic) TopicNotFound) (\<lambda>state.
      if peer |\<in>| t_members state then Ok () else Err NotTopicMember)"

definition ensure_room :: "memory_inner \<Rightarrow> topic_id \<Rightarrow> actor_id \<Rightarrow> topic_payload \<Rightarrow> peer_id \<Rightarrow> unit result" where
  "ensure_room inner topic actor payload peer =
    (case payload of
       Genesis _ \<Rightarrow> Ok ()
     | _ \<Rightarrow>
         rbind (ensure_member inner topic peer) (\<lambda>_.
           if actor_tip inner topic actor = None \<and> memory_actor_count inner topic \<ge> MAX_TOPIC_ACTORS
           then Err TopicFull else Ok ()))"

section \<open>One operation\<close>

text \<open>The batch of one operation, as \<open>commit_admission\<close> builds it.\<close>

definition local_batch ::
  "operation \<Rightarrow> op_meta \<Rightarrow> op_id btree_set \<Rightarrow> topic_state option \<Rightarrow> local_effects \<Rightarrow> admitted_batch result" where
  "local_batch op m expected_heads expected_state effects =
    (let heads = heads_after expected_heads op in
     rbind (topic_state_after op heads expected_state) (\<lambda>topic_state.
     rbind (ok_or (case topic_state of Some s \<Rightarrow> Some s | None \<Rightarrow> expected_state) TopicNotFound) (\<lambda>effective.
     rbind (effects op m effective) (\<lambda>effects.
       Ok \<lparr>ab_topic_id = b_topic_id (body op), ab_expected_heads = expected_heads, ab_expected_topic_state = expected_state,
         ab_entries = [(op, m)], ab_heads = heads, ab_topic_state = topic_state, ab_effects = effects\<rparr>))))"

definition check_local ::
  "externals \<Rightarrow> memory_inner \<Rightarrow> operation \<Rightarrow> op_id btree_set \<Rightarrow> topic_state option \<Rightarrow> local_effects
    \<Rightarrow> (op_meta \<times> admitted_batch) result" where
  "check_local x inner op expected_heads expected_state effects =
    rbind (validate_frame x op) (\<lambda>_.
    rbind (validate_op x inner op) (\<lambda>_.
    rbind (meta_for inner op) (\<lambda>m.
    rbind (local_batch op m expected_heads expected_state effects) (\<lambda>batch. Ok (m, batch)))))"

text \<open>The operation signed by a failed attempt is kept for the next one.\<close>

definition try_local ::
  "world \<Rightarrow> nat \<Rightarrow> topic_id \<Rightarrow> actor_id \<Rightarrow> topic_payload \<Rightarrow> signer \<Rightarrow> operation option \<Rightarrow> local_effects \<Rightarrow> oplog
    \<Rightarrow> operation option \<times> (operation \<times> op_meta) run" where
  "try_local W k topic actor payload signer kept effects ol =
    (let inner = ol_store ol; expected_heads = store_heads inner topic; expected_state = topic_state_locked inner topic in
     case ensure_room inner topic actor payload (sg_peer_id signer) of
       Err e \<Rightarrow> (kept, Err e, ol)
     | Ok _ \<Rightarrow>
         (case next_local_op (w_ext W) inner topic actor expected_heads payload signer kept of
            Err e \<Rightarrow> (None, Err e, ol)
          | Ok op \<Rightarrow>
              (case check_local (w_ext W) inner op expected_heads expected_state effects of
                 Err e \<Rightarrow> (Some op, Err e, ol)
               | Ok (m, batch) \<Rightarrow>
                   let ol = w_between W k ol in
                   (case admit_batch_locked (w_ext W) (w_fingerprint W) (w_budget W k) batch (w_quota W) (ol_store ol) of
                      Err e \<Rightarrow> (Some op, Err e, ol)
                    | Ok inner \<Rightarrow> (None, Ok (op, m), ol\<lparr>ol_store := inner\<rparr>)))))"

fun local_attempts ::
  "world \<Rightarrow> nat \<Rightarrow> nat \<Rightarrow> topic_id \<Rightarrow> actor_id \<Rightarrow> topic_payload \<Rightarrow> signer \<Rightarrow> operation option \<Rightarrow> local_effects \<Rightarrow> oplog
    \<Rightarrow> (operation \<times> op_meta) run" where
  "local_attempts W k 0 topic actor payload signer kept effects ol = (Err AdmissionConflict, ol)"
| "local_attempts W k (Suc n) topic actor payload signer kept effects ol =
    (case try_local W k topic actor payload signer kept effects (w_before W k ol) of
       (kept, Ok r, ol) \<Rightarrow> (Ok r, ol)
     | (kept, Err e, ol) \<Rightarrow>
         if is_admission_race e then local_attempts W (Suc k) n topic actor payload signer kept effects ol else (Err e, ol))"

definition create_local_effects ::
  "world \<Rightarrow> nat \<Rightarrow> topic_id \<Rightarrow> actor_id \<Rightarrow> topic_payload \<Rightarrow> signer \<Rightarrow> local_effects \<Rightarrow> oplog \<Rightarrow> (operation \<times> op_meta) run" where
  "create_local_effects W k topic actor payload signer effects ol =
    (case w_turn W k of
       Err e \<Rightarrow> (Err e, ol)
     | Ok _ \<Rightarrow> local_attempts W k MAX_ADMISSION_RETRIES topic actor payload signer None effects ol)"

definition own_genesis :: "topic_genesis \<Rightarrow> signer \<Rightarrow> topic_genesis" where
  "own_genesis g signer = g\<lparr>g_initial_peers := finsert (sg_peer_id signer) (g_initial_peers g)\<rparr>"

definition create_topic_effects ::
  "world \<Rightarrow> nat \<Rightarrow> topic_id \<Rightarrow> actor_id \<Rightarrow> topic_genesis \<Rightarrow> signer \<Rightarrow> local_effects \<Rightarrow> oplog \<Rightarrow> (operation \<times> op_meta) run" where
  "create_topic_effects W k topic actor g signer effects ol =
    create_local_effects W k topic actor (Genesis (own_genesis g signer)) signer effects ol"

definition create_event_effects ::
  "world \<Rightarrow> nat \<Rightarrow> topic_id \<Rightarrow> actor_id \<Rightarrow> event_envelope \<Rightarrow> signer \<Rightarrow> local_effects \<Rightarrow> oplog \<Rightarrow> (operation \<times> op_meta) run" where
  "create_event_effects W k topic actor event signer effects ol =
    create_local_effects W k topic actor (Event event) signer effects ol"

definition create_control_effects ::
  "world \<Rightarrow> nat \<Rightarrow> topic_id \<Rightarrow> actor_id \<Rightarrow> topic_control \<Rightarrow> signer \<Rightarrow> local_effects \<Rightarrow> oplog \<Rightarrow> (operation \<times> op_meta) run" where
  "create_control_effects W k topic actor control signer effects ol =
    create_local_effects W k topic actor (Control control) signer effects ol"

section \<open>A topic with its first event\<close>

type_synonym genesis_pair = "(operation \<times> op_meta) \<times> (operation \<times> op_meta)"

definition pair_batch ::
  "externals \<Rightarrow> hold \<Rightarrow> memory_inner \<Rightarrow> operation \<times> op_meta \<Rightarrow> operation \<Rightarrow> op_id btree_set \<Rightarrow> topic_state option \<Rightarrow> local_effects
    \<Rightarrow> (genesis_pair \<times> admitted_batch) result" where
  "pair_batch x hold inner = (\<lambda>(first_op, first_meta) event_op expected_heads expected_state effects.
    let topic = b_topic_id (body first_op); actor = b_actor_id (body first_op); i = o_id first_op;
        genesis_heads = heads_after expected_heads first_op in
    rbind (validate_frame x first_op) (\<lambda>_.
    rbind (validate_op x inner first_op) (\<lambda>_.
    rbind (validate_frame x event_op) (\<lambda>_.
    rbind (topic_state_after first_op genesis_heads expected_state) (\<lambda>state.
    rbind (ok_or state TopicNotFound) (\<lambda>state.
    let metas = fmupd i first_meta fmempty;
        overlay = \<lparr>bo_ops = fmupd i first_op fmempty, bo_meta = metas,
          bo_tips = fmupd (topic, actor) (m_actor_seq first_meta, i) fmempty,
          bo_index = fmupd (topic, actor, m_actor_seq first_meta) i fmempty, bo_reset = False\<rparr> in
    rbind (validate_op_projected x hold inner event_op overlay genesis_heads (Some state) fmempty) (\<lambda>(answer, _).
    if answer = Duplicate then Err AdmissionConflict
    else rbind (meta_for_projected inner metas event_op) (\<lambda>event_meta.
    rbind (effects first_op first_meta state) (\<lambda>first.
    let heads = heads_after genesis_heads event_op; state = state\<lparr>t_heads := heads\<rparr> in
    rbind (effects event_op event_meta state) (\<lambda>second.
      Ok (((first_op, first_meta), (event_op, event_meta)),
        \<lparr>ab_topic_id = topic, ab_expected_heads = expected_heads, ab_expected_topic_state = expected_state,
         ab_entries = [(first_op, first_meta), (event_op, event_meta)], ab_heads = heads, ab_topic_state = Some state,
         ab_effects = \<lparr>ef_sync_obligations = ef_sync_obligations first @ ef_sync_obligations second\<rparr>\<rparr>)))))))))))"

definition try_genesis ::
  "world \<Rightarrow> nat \<Rightarrow> topic_id \<Rightarrow> actor_id \<Rightarrow> topic_genesis \<Rightarrow> event_envelope \<Rightarrow> signer \<Rightarrow> (operation \<times> operation) option \<Rightarrow> local_effects
    \<Rightarrow> oplog \<Rightarrow> (operation \<times> operation) option \<times> genesis_pair run" where
  "try_genesis W k topic actor g event signer kept effects ol =
    (let x = w_ext W; inner = ol_store ol; expected_heads = store_heads inner topic; expected_state = topic_state_locked inner topic in
     case rbind (next_local_op x inner topic actor expected_heads (Genesis g) signer (map_option fst kept)) (\<lambda>first_op.
         rbind (meta_for inner first_op) (\<lambda>first_meta.
         rbind (checked_next (m_actor_seq first_meta)) (\<lambda>seq.
         rbind (checked_next (m_generation first_meta)) (\<lambda>generation.
         rbind (reuse_or_sign x signer (map_option snd kept)
           \<lparr>b_topic_id = topic, b_author = sg_peer_id signer, b_actor_id = actor, b_actor_seq = seq,
            b_actor_prev = Some (o_id first_op), b_deps = {|o_id first_op|}, b_generation = generation,
            b_payload = Event event\<rparr>) (\<lambda>event_op. Ok (first_op, first_meta, event_op)))))) of
       Err e \<Rightarrow> (None, Err e, ol)
     | Ok (first_op, first_meta, event_op) \<Rightarrow>
         (case pair_batch x (w_hold W k) inner (first_op, first_meta) event_op expected_heads expected_state effects of
            Err e \<Rightarrow> (Some (first_op, event_op), Err e, ol)
          | Ok (pair, batch) \<Rightarrow>
              let ol = w_between W k ol in
              (case admit_batch_locked x (w_fingerprint W) (w_budget W k) batch (w_quota W) (ol_store ol) of
                 Err e \<Rightarrow> (Some (first_op, event_op), Err e, ol)
               | Ok inner \<Rightarrow> (None, Ok pair, ol\<lparr>ol_store := inner\<rparr>))))"

fun genesis_attempts ::
  "world \<Rightarrow> nat \<Rightarrow> nat \<Rightarrow> topic_id \<Rightarrow> actor_id \<Rightarrow> topic_genesis \<Rightarrow> event_envelope \<Rightarrow> signer \<Rightarrow> (operation \<times> operation) option
    \<Rightarrow> local_effects \<Rightarrow> oplog \<Rightarrow> genesis_pair run" where
  "genesis_attempts W k 0 topic actor g event signer kept effects ol = (Err AdmissionConflict, ol)"
| "genesis_attempts W k (Suc n) topic actor g event signer kept effects ol =
    (case try_genesis W k topic actor g event signer kept effects (w_before W k ol) of
       (kept, Ok r, ol) \<Rightarrow> (Ok r, ol)
     | (kept, Err e, ol) \<Rightarrow>
         if is_admission_race e then genesis_attempts W (Suc k) n topic actor g event signer kept effects ol else (Err e, ol))"

definition create_genesis_effects ::
  "world \<Rightarrow> nat \<Rightarrow> topic_id \<Rightarrow> actor_id \<Rightarrow> topic_genesis \<Rightarrow> event_envelope \<Rightarrow> signer \<Rightarrow> local_effects \<Rightarrow> oplog \<Rightarrow> genesis_pair run" where
  "create_genesis_effects W k topic actor g event signer effects ol =
    (case w_turn W k of
       Err e \<Rightarrow> (Err e, ol)
     | Ok _ \<Rightarrow> genesis_attempts W k MAX_ADMISSION_RETRIES topic actor (own_genesis g signer) event signer None effects ol)"

end
