(* ===== verification/Oplog_Quarantine.thy ===== *)
theory Oplog_Quarantine
  imports Oplog_Creation
begin

text \<open>
  Discarding stored operations no head reaches, \<open>quarantine_orphans\<close> of \<open>oplog/mod.rs\<close>: the topic is
  rebuilt from what the heads reach in one transaction.
\<close>

function lineage_loop :: "memory_inner \<Rightarrow> op_id list \<Rightarrow> op_id btree_set \<Rightarrow> op_id btree_set" where
  "lineage_loop inner [] reachable = reachable"
| "lineage_loop inner (i # frontier) reachable =
    (if i |\<in>| reachable then lineage_loop inner frontier reachable
     else case fmlookup (mi_meta inner) i of
       None \<Rightarrow> lineage_loop inner frontier (finsert i reachable)
     | Some m \<Rightarrow> lineage_loop inner (rev (iter_set (m_deps m)) @ frontier) (finsert i reachable))"
  by pat_completeness auto
termination
proof (relation "measures [\<lambda>(inner, _, reachable). fcard (fmdom (mi_meta inner) |-| reachable), \<lambda>(_, frontier, _). length frontier]")
  fix inner :: memory_inner and i :: op_id and frontier :: "op_id list" and reachable
  assume "fmlookup (mi_meta inner) i = None"
  then have "fmdom (mi_meta inner) |-| finsert i reachable = fmdom (mi_meta inner) |-| reachable"
    by (auto simp: fmdom_notI)
  then show "((inner, frontier, finsert i reachable), (inner, i # frontier, reachable))
    \<in> measures [\<lambda>(inner, _, reachable). fcard (fmdom (mi_meta inner) |-| reachable), \<lambda>(_, frontier, _). length frontier]" by simp
next
  fix inner :: memory_inner and i :: op_id and frontier :: "op_id list" and reachable m
  assume i: "i |\<notin>| reachable" and "fmlookup (mi_meta inner) i = Some m"
  then have "i |\<in>| fmdom (mi_meta inner)" by (simp add: fmdomI)
  with i have "fcard (fmdom (mi_meta inner) |-| finsert i reachable) < fcard (fmdom (mi_meta inner) |-| reachable)"
    by (intro pfsubset_fcard_mono) auto
  then show "((inner, rev (iter_set (m_deps m)) @ frontier, finsert i reachable), (inner, i # frontier, reachable))
    \<in> measures [\<lambda>(inner, _, reachable). fcard (fmdom (mi_meta inner) |-| reachable), \<lambda>(_, frontier, _). length frontier]" by simp
qed simp_all

definition topic_orphans :: "memory_inner \<Rightarrow> topic_id \<Rightarrow> op_id btree_set" where
  "topic_orphans inner topic =
    topic_ids_locked inner topic |-| lineage_loop inner (rev (iter_set (store_heads inner topic))) {||}"

record quarantine_plan =
  qp_state :: topic_state
  qp_survivors :: "operation list"
  qp_evicted :: "evicted_op list"

definition plan_quarantine :: "memory_inner \<Rightarrow> topic_id \<Rightarrow> quarantine_plan option" where
  "plan_quarantine inner topic =
    (case topic_state_locked inner topic of
       None \<Rightarrow> None
     | Some state \<Rightarrow>
         let orphans = topic_orphans inner topic;
             kept = filter (\<lambda>i. i |\<notin>| orphans) (iter_set (topic_ids_locked inner topic)) in
         if orphans = {||} then None
         else if list_ex (\<lambda>i. \<not> dep_resolvable_locked inner i) kept then None
         else
           let survivors = List.map_filter (fmlookup (mi_ops inner)) kept in
           if \<not> list_ex (\<lambda>op. o_id op = t_genesis state) survivors then None
           else Some \<lparr>qp_state = state, qp_survivors = survivors, qp_evicted = evicted_ops inner orphans\<rparr>)"

definition check_survivors :: "externals \<Rightarrow> operation list \<Rightarrow> op_id btree_set \<Rightarrow> op_id btree_set result" where
  "check_survivors x survivors checked =
    fold_res (\<lambda>op checked.
      if o_id op |\<in>| checked then Ok checked
      else rbind (op_validate x op) (\<lambda>_. Ok (finsert (o_id op) checked))) survivors checked"

fun quarantine_attempts :: "world \<Rightarrow> nat \<Rightarrow> nat \<Rightarrow> topic_id \<Rightarrow> op_id btree_set \<Rightarrow> oplog \<Rightarrow> topic_eviction option run" where
  "quarantine_attempts W k 0 topic checked ol = (Err AdmissionConflict, ol)"
| "quarantine_attempts W k (Suc n) topic checked ol =
    (let ol = w_before W k ol in
     case plan_quarantine (ol_store ol) topic of
       None \<Rightarrow> (Ok None, ol)
     | Some plan \<Rightarrow>
         (case check_survivors (w_ext W) (qp_survivors plan) checked of
            Err e \<Rightarrow> (Err e, ol)
          | Ok checked \<Rightarrow>
              let genesis = t_genesis (qp_state plan);
                  eviction = \<lparr>v_topic_id = topic, v_losing_genesis = genesis, v_winning_genesis = genesis,
                    v_evicted = qp_evicted plan\<rparr> in
              (case admit_ops_batch W k None (qp_survivors plan) checked
                  (Some \<lparr>rp_expected_state = qp_state plan, rp_eviction = eviction\<rparr>) None ol of
                 (Ok _, ol) \<Rightarrow> (Ok (Some eviction), ol)
               | (Err e, ol) \<Rightarrow>
                   if e = AdmissionConflict then quarantine_attempts W (Suc k) n topic checked ol else (Err e, ol))))"

definition quarantine_orphans :: "world \<Rightarrow> nat \<Rightarrow> topic_id \<Rightarrow> oplog \<Rightarrow> topic_eviction option run" where
  "quarantine_orphans W k topic ol =
    (if topic_orphans (ol_store ol) topic = {||} then (Ok None, ol)
     else quarantine_attempts W k MAX_ADMISSION_RETRIES topic {||} ol)"

end
