(* ===== verification/Commit_Sound.thy ===== *)
theory Commit_Sound
  imports Build_Sound Oplog_Quarantine
begin

text \<open>
  The invariant of an op log, and that a commit keeps it. A batch is committed against the store other
  writers may have changed since it was validated; equal heads then mean an equal history.
\<close>

section \<open>Buffered operations only shrink\<close>

definition pending_sub :: "memory_inner \<Rightarrow> memory_inner \<Rightarrow> bool" where
  "pending_sub inner inner' \<longleftrightarrow> (\<forall>i op. fmlookup (mi_pending_ops inner') i = Some op \<longrightarrow> fmlookup (mi_pending_ops inner) i = Some op)"

lemma pending_sub_refl [simp]: "pending_sub inner inner"
  by (simp add: pending_sub_def)

lemma pending_sub_trans: "pending_sub a b \<Longrightarrow> pending_sub b c \<Longrightarrow> pending_sub a c"
  by (auto simp: pending_sub_def)

lemma pending_sub_same: "mi_pending_ops b = mi_pending_ops a \<Longrightarrow> pending_sub a b"
  by (simp add: pending_sub_def)

lemma fold_pending_same:
  "(\<And>y inner. mi_pending_ops (f y inner) = mi_pending_ops inner) \<Longrightarrow> mi_pending_ops (fold f ys inner) = mi_pending_ops inner"
  by (induction ys arbitrary: inner) auto

lemma fold_res_pending_sub:
  "(\<And>y a b. f y a = Ok b \<Longrightarrow> pending_sub a b) \<Longrightarrow> fold_res f ys inner = Ok inner' \<Longrightarrow> pending_sub inner inner'"
proof (induction ys arbitrary: inner)
  case (Cons y ys)
  then show ?case by (auto simp: rbind_eq_Ok) (metis pending_sub_trans)
qed simp

lemma remove_pending_sub: "remove_pending_locked i inner = Ok inner' \<Longrightarrow> pending_sub inner inner'"
  by (auto simp: remove_pending_locked_def rbind_eq_Ok Let_def pending_sub_def fold_pending_same unwait_locked_def split: option.splits if_splits)

lemma remove_fold_sub: "fold_res remove_pending_locked ds inner = Ok inner' \<Longrightarrow> pending_sub inner inner'"
  by (rule fold_res_pending_sub[where f = remove_pending_locked]) (auto dest: remove_pending_sub)

lemma settle_waiters_pending: "mi_pending_ops (settle_waiters_locked i inner) = mi_pending_ops inner"
  by (simp add: settle_waiters_locked_def fold_pending_same settle_waiter_def Let_def split: option.splits)

lemma admit_entry_pending:
  assumes "admit_entry e inner = Ok inner'"
  shows "pending_sub inner inner'"
proof -
  obtain op m where e: "e = (op, m)" by (cases e)
  obtain in1 where r: "remove_pending_locked (o_id op) (index_entry op m inner) = Ok in1"
    "inner' = (settle_waiters_locked (o_id op) in1)\<lparr>mi_meta := fmupd (o_id op) m (mi_meta (settle_waiters_locked (o_id op) in1)),
      mi_ops := fmupd (o_id op) op (mi_ops (settle_waiters_locked (o_id op) in1))\<rparr>"
    using assms by (auto simp: e admit_entry_def rbind_eq_Ok Let_def)
  have "pending_sub inner (index_entry op m inner)" by (rule pending_sub_same) (simp add: index_entry_def)
  then show ?thesis
    by (rule pending_sub_trans[OF pending_sub_trans[OF _ remove_pending_sub[OF r(1)]]])
      (rule pending_sub_same, simp add: r(2) settle_waiters_pending)
qed

lemma put_obligation_pending: "mi_pending_ops (put_obligation_locked ob inner) = mi_pending_ops inner"
  by (simp add: put_obligation_locked_def Let_def split: option.splits)

lemma apply_admission_pending:
  assumes "apply_admission batch plan inner = Ok inner'"
  shows "pending_sub inner inner'"
proof -
  obtain in1 where in1: "fold_res admit_entry (pl_new_entries plan) (inner\<lparr>mi_admitted_bytes := pl_admitted_bytes plan\<rparr>) = Ok in1"
    "mi_pending_ops inner' = mi_pending_ops in1"
    using assms by (auto simp: apply_admission_def rbind_eq_Ok Let_def fold_pending_same forget_peer_def put_obligation_pending case_prod_unfold)
  have "pending_sub inner (inner\<lparr>mi_admitted_bytes := pl_admitted_bytes plan\<rparr>)" by (rule pending_sub_same) simp
  moreover have "pending_sub (inner\<lparr>mi_admitted_bytes := pl_admitted_bytes plan\<rparr>) in1"
    by (rule fold_res_pending_sub[OF _ in1(1)]) (rule admit_entry_pending)
  ultimately show ?thesis using pending_sub_trans pending_sub_same[OF in1(2)] by blast
qed

lemma admit_batch_pending: "admit_batch_locked x fp budget batch quota inner = Ok inner' \<Longrightarrow> pending_sub inner inner'"
  by (auto simp: admit_batch_locked_def rbind_eq_Ok intro: apply_admission_pending)

lemma drop_op_pending: "drop_op x i inner = Ok inner' \<Longrightarrow> mi_pending_ops inner' = mi_pending_ops inner"
  by (auto simp: drop_op_def Let_def rbind_eq_Ok)

lemma reset_topic_pending:
  assumes "reset_topic_locked x budget topic inner = Ok (n, inner')"
  shows "pending_sub inner inner'"
proof -
  let ?in0 = "inner\<lparr>mi_epochs := modify_or 0 (\<lambda>e. e + 1) topic (mi_epochs inner), mi_topic_ops := fmdrop topic (mi_topic_ops inner)\<rparr>"
  obtain in1 in2 ds where r: "fold_res (drop_op x) (iter_set (get_or {||} (mi_topic_ops inner) topic)) ?in0 = Ok in1"
    "fold_res remove_pending_locked ds in2 = Ok inner'" "mi_pending_ops in2 = mi_pending_ops in1"
  proof (atomize_elim, insert assms)
    assume "reset_topic_locked x budget topic inner = Ok (n, inner')"
    then show "\<exists>in1 ds in2. fold_res (drop_op x) (iter_set (get_or {||} (mi_topic_ops inner) topic)) ?in0 = Ok in1 \<and>
        fold_res remove_pending_locked ds in2 = Ok inner' \<and> mi_pending_ops in2 = mi_pending_ops in1"
      unfolding reset_topic_locked_def rbind_eq_Ok Let_def
      by (elim exE conjE, simp) (intro exI conjI, assumption, simp)
  qed
  have "pending_sub inner ?in0" by (rule pending_sub_same) simp
  moreover have "pending_sub ?in0 in1"
    by (rule fold_res_pending_sub[OF _ r(1)]) (auto dest: drop_op_pending intro: pending_sub_same)
  moreover have "pending_sub in1 in2" by (rule pending_sub_same[OF r(3)])
  moreover have "pending_sub in2 inner'" by (rule remove_fold_sub[OF r(2)])
  ultimately show ?thesis using pending_sub_trans by blast
qed

lemma replace_pending:
  assumes "reset_topic_and_admit x fp budget ns topic expected batch eviction inner = Ok (n, inner')"
  shows "pending_sub inner inner'"
proof -
  obtain staged in1 where r: "reset_topic_locked x budget topic inner = Ok (n, staged)" "admit_batch_locked x fp budget batch None staged = Ok in1"
    "journal_eviction budget (journalled_eviction (x_blake3 x) eviction) in1 = Ok inner'"
    using assms by (auto simp: reset_topic_and_admit_def rbind_eq_Ok split: if_splits)
  have "mi_pending_ops inner' = mi_pending_ops in1" using r(3) by (auto simp: journal_eviction_def rbind_eq_Ok split: option.splits if_splits)
  then show ?thesis using pending_sub_trans[OF pending_sub_trans[OF reset_topic_pending[OF r(1)] admit_batch_pending[OF r(2)]]] pending_sub_same by blast
qed

lemma purge_pending: "purge_pending_waiters i inner = Ok (n, inner') \<Longrightarrow> pending_sub inner inner'"
  by (auto simp: purge_pending_waiters_def Let_def rbind_eq_Ok intro: remove_fold_sub)

lemma reject_pending:
  assumes "reject_pending_subtree budget i inner = Ok (n, inner')"
  shows "pending_sub inner inner'"
proof (cases "fmlookup (mi_pending_records inner) i")
  case (Some r)
  then obtain in1 ds where "fold_res remove_pending_locked ds inner = Ok in1" "mi_pending_ops inner' = mi_pending_ops in1"
    using assms by (auto simp: reject_pending_subtree_def Let_def rbind_eq_Ok)
  then show ?thesis using pending_sub_trans[OF remove_fold_sub pending_sub_same] by blast
qed (use assms in \<open>simp add: reject_pending_subtree_def\<close>)

lemma put_pending_contents:
  assumes "put_pending_bound x budget quota source op m genesis inner = Ok inner'"
    and "fmlookup (mi_pending_ops inner') i = Some q"
  shows "q = op \<or> fmlookup (mi_pending_ops inner) i = Some q"
proof -
  have moved: "mi_pending_ops (move_waits j old missing inner) = mi_pending_ops inner" for j old missing
    by (simp add: move_waits_def Let_def fold_pending_same unwait_locked_def)
  have "mi_pending_ops inner' = mi_pending_ops inner \<or> mi_pending_ops inner' = fmupd (o_id op) op (mi_pending_ops inner)"
    using assms(1) by (auto simp: put_pending_bound_def buffer_pending_def insert_pending_def moved Let_def rbind_eq_Ok
      split: if_splits option.splits)
  then show ?thesis using assms(2) by (auto split: if_splits)
qed

section \<open>The invariant\<close>

text \<open>
  \<open>V\<close> is a set of operations in circulation whose ids are distinct, what content addressing gives: the
  operations of the store and the buffered ones lie in it, and a kept projection is the state at its
  operation.
\<close>

definition log_ok :: "externals \<Rightarrow> operation set \<Rightarrow> oplog \<Rightarrow> bool" where
  "log_ok x V ol \<longleftrightarrow> store_ok x (ol_store ol) \<and> (\<forall>t. topic_ok x V (ol_store ol) t) \<and> proj_ok V (ol_states ol) \<and>
    (\<forall>i op. fmlookup (mi_pending_ops (ol_store ol)) i = Some op \<longrightarrow> op \<in> V \<and> op_validate x op = Ok () \<and> b_deps (body op) \<noteq> {||})"

lemma log_okD:
  assumes "log_ok x V ol"
  shows "store_ok x (ol_store ol)" "topic_ok x V (ol_store ol) t" "proj_ok V (ol_states ol)"
    "fmlookup (mi_pending_ops (ol_store ol)) i = Some op \<Longrightarrow> op \<in> V \<and> op_validate x op = Ok () \<and> b_deps (body op) \<noteq> {||}"
  using assms by (auto simp: log_ok_def)

lemma topic_ok_cong:
  assumes "mi_ops a = mi_ops b" "mi_meta a = mi_meta b" "mi_topics a = mi_topics b"
  shows "topic_ok x V a t = topic_ok x V b t"
  using assms by (simp add: topic_ok_def stored_hist_def)

lemma log_ok_records:
  assumes ok: "log_ok x V ol" and store: "store_ok x inner"
    and same: "mi_ops inner = mi_ops (ol_store ol)" "mi_meta inner = mi_meta (ol_store ol)" "mi_topics inner = mi_topics (ol_store ol)"
    and pending: "\<And>i op. fmlookup (mi_pending_ops inner) i = Some op \<Longrightarrow>
      fmlookup (mi_pending_ops (ol_store ol)) i = Some op \<or> op \<in> V \<and> op_validate x op = Ok () \<and> b_deps (body op) \<noteq> {||}"
  shows "log_ok x V (ol\<lparr>ol_store := inner\<rparr>)"
proof -
  have "op \<in> V \<and> op_validate x op = Ok () \<and> b_deps (body op) \<noteq> {||}" if "fmlookup (mi_pending_ops inner) i = Some op" for i op
    using pending[OF that] log_okD(4)[OF ok] by blast
  then show ?thesis using ok store topic_ok_cong[OF same] by (simp add: log_ok_def)
qed

lemma log_ok_cache: "log_ok x V ol \<Longrightarrow> proj_ok V P \<Longrightarrow> log_ok x V (ol\<lparr>ol_states := P, ol_order := q, ol_epoch := n\<rparr>)"
  by (simp add: log_ok_def)

lemma clear_cache_ok: "log_ok x V ol \<Longrightarrow> log_ok x V (clear_cache ol)"
  by (auto simp: log_ok_def clear_cache_def proj_ok_def)

section \<open>Committed entries\<close>

lemma entry_ops_iff:
  assumes "distinct (map (\<lambda>(op, m). o_id op) es)"
  shows "fmlookup (entry_ops es ops) i = Some op \<longleftrightarrow>
    (\<exists>m. (op, m) \<in> set es \<and> o_id op = i) \<or> fmlookup ops i = Some op \<and> i \<notin> entry_ids es"
  using assms unfolding entry_ops_def entry_ids_def
proof (induction es arbitrary: ops)
  case (Cons e es)
  obtain q n where e: "e = (q, n)" by (cases e)
  have notin: "o_id op' \<noteq> o_id q" if "(op', m') \<in> set es" for op' m' using Cons.prems that by (force simp: e)
  have "distinct (map (\<lambda>(op, m). o_id op) es)" using Cons.prems by (simp add: e)
  note IH = Cons.IH[OF this, of "fmupd (o_id q) q ops"]
  show ?case using IH notin by (auto simp: e)
qed simp

lemma distinct_entries: "distinct (map (o_id \<circ> fst) es) = distinct (map (\<lambda>(op, m). o_id op) es)"
  by (simp add: comp_def case_prod_unfold)

lemma committed_topics:
  assumes ok: "store_ok x inner" and topics: "\<And>t. topic_ok x V inner t" and V: "inj_on o_id V"
    and es: "distinct (map (\<lambda>(op, m). o_id op) es)" "\<And>op m. (op, m) \<in> set es \<Longrightarrow> meta_matches op m \<and> o_id op \<notin> ids (stored_hist inner t)"
    and H: "H = stored_hist inner t \<union> fst ` set es" "hist_ok x t H" "H \<subseteq> V"
    and clocks: "\<And>op m. (op, m) \<in> set es \<Longrightarrow> clock_is (deps_past H op) (m_observed_clock m)"
    and state: "state_of H (fmlookup (mi_topics inner') t)" "\<And>u. u \<noteq> t \<Longrightarrow> fmlookup (mi_topics inner') u = fmlookup (mi_topics inner) u"
    and records: "mi_ops inner' = entry_ops es (mi_ops inner)" "mi_meta inner' = entry_metas es (mi_meta inner)"
  shows "topic_ok x V inner' u" "stored_hist inner' u = (if u = t then H else stored_hist inner u)"
proof -
  note ix = store_okD(3)[OF ok]
  have unstored: "fmlookup (mi_ops inner) (o_id op) = None" if i: "(op, m) \<in> set es" for op m
  proof (rule ccontr)
    assume "fmlookup (mi_ops inner) (o_id op) \<noteq> None"
    then obtain q where q: "fmlookup (mi_ops inner) (o_id op) = Some q" by blast
    have "o_id q = o_id op" by (rule stored_op[OF ix q])
    then have "q \<in> stored_hist inner (b_topic_id (body q))" using q by (simp add: stored_hist_def)
    moreover from this have "q \<in> V" using topic_okD(2)[OF topics] by blast
    moreover have op: "op \<in> H" using i H(1) by force
    ultimately have "q = op" using V H(3) \<open>o_id q = o_id op\<close> by (auto dest: inj_onD)
    then have "op \<in> stored_hist inner t"
      using \<open>q \<in> stored_hist inner _\<close> op_okD(1)[OF hist_okD(4)[OF H(2) op]] by simp
    then show False using es(2)[OF i] by (auto simp: ids_def)
  qed
  have "\<And>i. i \<in> entry_ids es \<Longrightarrow> fmlookup (mi_ops inner) i = None" using unstored by (auto simp: entry_ids_iff)
  then have ops: "fmlookup (mi_ops inner') i = Some op \<longleftrightarrow> (\<exists>m. (op, m) \<in> set es \<and> o_id op = i) \<or> fmlookup (mi_ops inner) i = Some op" for i op
    unfolding records(1) entry_ops_iff[OF es(1)] by auto
  have top: "b_topic_id (body op) = t" if "(op, m) \<in> set es" for op m
    using op_okD(1)[OF hist_okD(4)[OF H(2)]] that H(1) by force
  have hist: "stored_hist inner' u = (if u = t then H else stored_hist inner u)" for u
    using top H(1) by (force simp: stored_hist_def ops)
  have metas: "fmlookup (mi_meta inner') i = Some m \<Longrightarrow> (\<exists>op. (op, m) \<in> set es \<and> o_id op = i) \<or> fmlookup (mi_meta inner) i = Some m" for i m
    unfolding records(2) entry_metas_lookup[OF es(1)] by blast
  show "stored_hist inner' u = (if u = t then H else stored_hist inner u)" by (rule hist)
  show "topic_ok x V inner' u"
  proof (cases "u = t")
    case False
    have "clock_is (deps_past (stored_hist inner u) op) (m_observed_clock m)"
      if op: "op \<in> stored_hist inner u" "fmlookup (mi_meta inner') (o_id op) = Some m" for op m
    proof -
      have "\<not> (\<exists>q. (q, m) \<in> set es \<and> o_id q = o_id op)" using unstored op(1) by (fastforce simp: stored_hist_def)
      then show ?thesis using metas[OF op(2)] topic_okD(3)[OF topics op(1)] by blast
    qed
    then show ?thesis using topic_okD(1,2,4)[OF topics, of u] state(2)[OF False] False by (simp add: topic_ok_def hist)
  next
    case True
    have "clock_is (deps_past H op) (m_observed_clock m)"
      if op: "op \<in> H" "fmlookup (mi_meta inner') (o_id op) = Some m" for op m
    proof (cases "\<exists>q. (q, m) \<in> set es \<and> o_id q = o_id op")
      case True
      then obtain q where q: "(q, m) \<in> set es" "o_id q = o_id op" by blast
      have "q \<in> H" using q(1) H(1) by force
      then have "q = op" using inj_onD[OF hist_okD(2)[OF H(2)] q(2)] op(1) by blast
      then show ?thesis using clocks[OF q(1)] by simp
    next
      case False
      then have m: "fmlookup (mi_meta inner) (o_id op) = Some m" using metas[OF op(2)] by blast
      then have "fmlookup (mi_ops inner) (o_id op) \<noteq> None" using paired_None[OF indexed_okD(1)[OF ix]] by simp
      then have old: "op \<in> stored_hist inner t" using op(1) H(1) unstored by fastforce
      have "deps_past H op = deps_past (stored_hist inner t) op"
        using hist_past[OF topic_okD(1)[OF topics, of t] _ hist_okD(2)[OF H(2)]] H(1)
          op_okD(4)[OF hist_okD(4)[OF topic_okD(1)[OF topics] old]] by auto
      then show ?thesis using topic_okD(3)[OF topics old m] by simp
    qed
    then show ?thesis using H(2,3) state(1) True by (simp add: topic_ok_def hist)
  qed
qed

section \<open>Committing a batch\<close>

text \<open>A batch that extends the history \<open>H\<close> of a topic, validated where the topic's state was \<open>s\<close>.\<close>

definition extends ::
  "externals \<Rightarrow> operation set \<Rightarrow> topic_id \<Rightarrow> operation set \<Rightarrow> topic_state option \<Rightarrow> admitted_batch \<Rightarrow> bool" where
  "extends x V t H s batch \<longleftrightarrow>
    (let es = ab_entries batch; H' = H \<union> fst ` set es in
     ab_topic_id batch = t \<and> hist_ok x t H' \<and> H' \<subseteq> V \<and> distinct (map (\<lambda>(op, m). o_id op) es) \<and>
     (\<forall>(op, m) \<in> set es. meta_matches op m \<and> o_id op \<notin> ids H \<and> clock_is (deps_past H' op) (m_observed_clock m)) \<and>
     fset (ab_expected_heads batch) = frontier H \<and> ab_expected_topic_state batch = s \<and>
     state_of H' (case ab_topic_state batch of None \<Rightarrow> s | Some s' \<Rightarrow> Some s'))"

lemma extendsD:
  assumes "extends x V t H s batch"
  shows "ab_topic_id batch = t" "hist_ok x t (H \<union> fst ` set (ab_entries batch))" "H \<union> fst ` set (ab_entries batch) \<subseteq> V"
    "distinct (map (\<lambda>(op, m). o_id op) (ab_entries batch))"
    "(op, m) \<in> set (ab_entries batch) \<Longrightarrow> meta_matches op m \<and> o_id op \<notin> ids H \<and>
      clock_is (deps_past (H \<union> fst ` set (ab_entries batch)) op) (m_observed_clock m)"
    "fset (ab_expected_heads batch) = frontier H" "ab_expected_topic_state batch = s"
    "state_of (H \<union> fst ` set (ab_entries batch)) (case ab_topic_state batch of None \<Rightarrow> s | Some s' \<Rightarrow> Some s')"
  using assms unfolding extends_def Let_def by blast+

lemma state_of_locked: "state_of H (topic_state_locked inner t) \<longleftrightarrow> state_of H (fmlookup (mi_topics inner) t)"
proof (cases "fmlookup (mi_topics inner) t")
  case (Some s)
  let ?h = "get_or {||} (mi_heads inner) t"
  have "materialized H (t_heads s) s" if "materialized H ?h (s\<lparr>t_heads := ?h\<rparr>)"
    using materialized_heads[OF that, of "t_heads s"] by simp
  then show ?thesis using Some by (auto simp: topic_state_locked_def state_of_def materialized_heads)
qed (simp add: topic_state_locked_def state_of_def)

lemma stored_in_V:
  assumes ok: "indexed_ok inner" and topics: "\<And>t. topic_ok x V inner t" and i: "fmlookup (mi_meta inner) i = Some m"
  obtains op where "o_id op = i" "op \<in> V" "b_topic_id (body op) = m_topic_id m" "fmlookup (mi_ops inner) i = Some op"
proof -
  obtain op where op: "o_id op = i" "op \<in> stored_hist inner (m_topic_id m)" by (rule stored_meta[OF ok i])
  then have "op \<in> V" using topic_okD(2)[OF topics] by blast
  then show thesis using that op by (simp add: stored_hist_def)
qed

lemma entries_unstored:
  assumes ok: "indexed_ok inner" and topics: "\<And>t. topic_ok x V inner t" and V: "inj_on o_id V"
    and e: "extends x V t (stored_hist inner t) s batch"
  shows "batch_ok inner batch" "filter (unstored inner) (ab_entries batch) = ab_entries batch"
proof -
  let ?es = "ab_entries batch" and ?H = "stored_hist inner t \<union> fst ` set (ab_entries batch)"
  have inH: "op \<in> ?H" if "(op, m) \<in> set ?es" for op m using that by force
  have same: "q = op" if "q \<in> V" "op \<in> ?H" "o_id q = o_id op" for q op
    using V extendsD(3)[OF e] that by (auto dest: inj_onD)
  have "p = q" if "(p, m) \<in> set ?es" "(q, n) \<in> set ?es" "o_id p = o_id q" for p q m n
    using same[OF _ inH[OF that(2)] that(3)] extendsD(3)[OF e] inH[OF that(1)] by blast
  then have "ids_name_ops ?es" unfolding ids_name_ops_def by (auto split: prod.splits)
  moreover have "m_topic_id n = t" if i: "(op, m) \<in> set ?es" and d: "d |\<in>| m_deps m" "fmlookup (mi_meta inner) d = Some n" for op m d n
  proof -
    obtain q where q: "o_id q = d" "q \<in> V" "b_topic_id (body q) = m_topic_id n" by (rule stored_in_V[OF ok topics d(2)])
    have "d \<in> ids ?H" using op_okD(4)[OF hist_okD(4)[OF extendsD(2)[OF e] inH[OF i]]] d(1) extendsD(5)[OF e i] by (metis meta_matchesD(5) subsetD)
    then obtain p where p: "p \<in> ?H" "o_id p = d" by (auto simp: ids_iff)
    then have "q = p" using same q by metis
    then show ?thesis using q(3) op_okD(1)[OF hist_okD(4)[OF extendsD(2)[OF e] p(1)]] by simp
  qed
  ultimately show "batch_ok inner batch" unfolding batch_ok_def extendsD(1)[OF e] by blast
  have "unstored inner (op, m)" if i: "(op, m) \<in> set ?es" for op m
  proof (rule ccontr)
    assume "\<not> unstored inner (op, m)"
    then obtain n where n: "fmlookup (mi_meta inner) (o_id op) = Some n" by (auto simp: unstored_def)
    obtain q where q: "o_id q = o_id op" "q \<in> V" "fmlookup (mi_ops inner) (o_id op) = Some q" by (rule stored_in_V[OF ok topics n])
    have "q = op" by (rule same[OF q(2) inH[OF i] q(1)])
    then have "op \<in> stored_hist inner t"
      using q(3) op_okD(1)[OF hist_okD(4)[OF extendsD(2)[OF e] inH[OF i]]] by (simp add: stored_hist_def)
    then show False using extendsD(5)[OF e i] by (auto simp: ids_def)
  qed
  then show "filter (unstored inner) ?es = ?es" by (auto simp: filter_id_conv)
qed

text \<open>Committed against a later store: the heads that must still hold determine its history.\<close>

lemma commit_extends:
  assumes ok: "store_ok x inner" and topics: "\<And>t. topic_ok x V inner t" and V: "inj_on o_id V"
    and H: "hist_ok x t H" "H \<subseteq> V" and e: "extends x V t H s batch"
    and run: "admit_batch_locked x fp budget batch quota inner = Ok inner'"
  shows "store_ok x inner'" "topic_ok x V inner' u" "stored_hist inner t = H" "stored_hist inner' t = H \<union> fst ` set (ab_entries batch)"
    "u \<noteq> t \<Longrightarrow> stored_hist inner' u = stored_hist inner u"
proof -
  note ix = store_okD(3)[OF ok]
  obtain plan where plan: "plan_admission x fp budget batch quota inner = Ok plan" using run by (auto simp: admit_batch_locked_def rbind_eq_Ok)
  have p: "get_or {||} (mi_heads inner) t = ab_expected_heads batch" "topic_state_locked inner t = s"
    by (rule plan_admissionE[OF plan]; simp add: extendsD(1,7)[OF e])+
  have "frontier (stored_hist inner t) = frontier H"
    using p(1) extendsD(6)[OF e] core_okD(3)[OF store_okD(1)[OF ok], of t] stored_frontier[OF ix core_okD(2)[OF store_okD(1)[OF ok]], of t] by simp
  then show H0: "stored_hist inner t = H"
    using frontier_determines[OF topic_okD(1)[OF topics] H(1)] inj_on_subset[OF V] topic_okD(2)[OF topics, of t] H(2) by simp
  note e' = e[folded H0]
  note u = entries_unstored[OF ix topics V e']
  obtain plan' where a: "plan_admission x fp budget batch quota inner = Ok plan'" "store_ok x inner'"
    "mi_meta inner' = entry_metas (pl_new_entries plan') (mi_meta inner)"
    "mi_ops inner' = entry_ops (pl_new_entries plan') (mi_ops inner)"
    "mi_topics inner' = (case ab_topic_state batch of None \<Rightarrow> mi_topics inner | Some state \<Rightarrow> fmupd (ab_topic_id batch) state (mi_topics inner))"
    by (rule admit_step[OF ok run u(1)])
  have new: "pl_new_entries plan' = ab_entries batch" using plan_entries(1)[OF store_okD(1)[OF ok] a(1) u(1)] u(2) by simp
  show "store_ok x inner'" by (rule a(2))
  have st: "state_of (H \<union> fst ` set (ab_entries batch)) (fmlookup (mi_topics inner') t)"
    using extendsD(8)[OF e] p(2) state_of_locked[of _ inner t] by (auto simp: a(5) extendsD(1)[OF e] split: option.splits)
  have others: "\<And>u. u \<noteq> t \<Longrightarrow> fmlookup (mi_topics inner') u = fmlookup (mi_topics inner) u"
    by (auto simp: a(5) extendsD(1)[OF e] split: option.splits)
  note c = committed_topics[OF ok topics V extendsD(4)[OF e] _ _ extendsD(2,3)[OF e] _ st others a(4,3)[unfolded new]]
  show "topic_ok x V inner' u" by (rule c) (use extendsD(5)[OF e] H0 in auto)
  have h: "stored_hist inner' v = (if v = t then H \<union> fst ` set (ab_entries batch) else stored_hist inner v)" for v
    by (rule c) (use extendsD(5)[OF e] H0 in auto)
  show "stored_hist inner' t = H \<union> fst ` set (ab_entries batch)" using h by simp
  show "u \<noteq> t \<Longrightarrow> stored_hist inner' u = stored_hist inner u" using h by simp
qed

end
