(* ===== verification/Admission_Sound.thy ===== *)
theory Admission_Sound
  imports Commit_Sound
begin

text \<open>
  Every way operations enter an op log keeps its invariant: batches that extend or replace a history,
  buffering, the retries of a job and the loop that drains the pending pool.
\<close>

section \<open>Built batches\<close>

lemma state_of_empty: "state_of {} s \<Longrightarrow> s = None"
  by (auto simp: state_of_def dest: materialized_nonempty split: option.splits)

lemma base_state: "(\<And>t. topic_ok x V inner t) \<Longrightarrow> state_of (base_hist inner t reset) (if reset then None else topic_state_locked inner t)"
  using topic_okD(4)[of x V inner t] by (cases reset) (simp_all add: base_hist_def state_of_locked, simp add: state_of_def)

lemma built_extends:
  assumes ok: "store_ok x inner" and V: "inj_on o_id V" and topics: "\<And>t. topic_ok x V inner t" and cache: "proj_ok V cached"
    and ops: "\<And>op. op \<in> set ops \<Longrightarrow> (op_validate x op = Ok () \<longrightarrow> op \<in> V) \<and> (o_id op |\<in>| verified \<longrightarrow> op_validate x op = Ok ())"
    and run: "build_batch x hold rg cached inner source ops verified reset effects = Ok (Some built)"
  obtains t where "extends x V t (base_hist inner t reset) (if reset then None else topic_state_locked inner t) (bb_batch built)"
    "proj_ok V (bb_projections built)" "\<forall>(op, d) \<in> set (bb_pending built). op \<in> V \<and> op_validate x op = Ok () \<and> b_deps (body op) \<noteq> {||}"
    "fset (bb_accepted built) = entry_ids (ab_entries (bb_batch built))"
proof -
  obtain t bl es where b: "build_inv x V t inner reset (base_hist inner t reset) (if reset then None else topic_state_locked inner t) bl es"
    "ab_topic_id (bb_batch built) = t" "ab_entries (bb_batch built) = es" "ab_heads (bb_batch built) = bl_heads bl"
    "ab_expected_topic_state (bb_batch built) = (if reset then None else topic_state_locked inner t)"
    "fset (ab_expected_heads (bb_batch built)) = frontier (base_hist inner t reset)"
    "ab_topic_state (bb_batch built) = (if bl_state_changed bl then map_option (\<lambda>s. s\<lparr>t_heads := bl_heads bl\<rparr>) (bl_state bl) else None)"
    "bb_pending built = bl_pending bl" "bb_projections built = bl_projections bl" "bb_accepted built = bl_accepted bl"
    by (rule build_batch_sound[OF ok V topics cache ops run])
  let ?H = "base_hist inner t reset" and ?s = "if reset then None else topic_state_locked inner t"
  note v = build_invD(1)[OF b(1)]
  have dist: "distinct (map (\<lambda>(op, m). o_id op) es)" using build_invD(5,6)[OF b(1)] distinct_entries by metis
  have clock: "clock_is (deps_past (?H \<union> fst ` set es) op) (m_observed_clock m)" if e: "(op, m) \<in> set es" for op m
  proof -
    have "op \<in> ?H \<union> fst ` set es" using e by force
    then obtain n where n: "meta_projected inner (bo_meta (bl_overlay bl)) (o_id op) = Ok n" "clock_is (deps_past (?H \<union> fst ` set es) op) (m_observed_clock n)"
      using seesD(2)[OF view_okD(3)[OF v]] by blast
    have "fmlookup (bo_meta (bl_overlay bl)) (o_id op) = Some m" using build_invD(3)[OF b(1)] e by blast
    then show ?thesis using n by (simp add: meta_projected_def)
  qed
  have st: "state_of (?H \<union> fst ` set es) (case ab_topic_state (bb_batch built) of None \<Rightarrow> ?s | Some s' \<Rightarrow> Some s')"
  proof (cases "bl_state_changed bl")
    case True
    show ?thesis
    proof (cases "bl_state bl")
      case None
      then have e: "?H \<union> fst ` set es = {}" using view_okD(7)[OF v] by (simp add: state_of_def)
      then have "?s = None" using state_of_empty base_state[OF topics, of t reset] by auto
      then show ?thesis using e b(7) True None by (simp add: state_of_def)
    next
      case (Some s)
      then show ?thesis using view_okD(7)[OF v] b(7) True by (simp add: state_of_def materialized_heads)
    qed
  next
    case False
    then show ?thesis using view_okD(7)[OF v] build_invD(11)[OF b(1)] b(7) by simp
  qed
  have "extends x V t ?H ?s (bb_batch built)"
    unfolding extends_def Let_def b(3)
    using b(2,5,6) view_okD(1,2)[OF v] dist build_invD(8)[OF b(1)] clock st by blast
  moreover have "fset (bb_accepted built) = entry_ids (ab_entries (bb_batch built))"
    using build_invD(5,7)[OF b(1)] by (simp add: b(3,10) entry_ids_def fset_of_list.rep_eq image_image case_prod_unfold)
  moreover have "\<forall>(op, d) \<in> set (bb_pending built). op \<in> V \<and> op_validate x op = Ok () \<and> b_deps (body op) \<noteq> {||}"
    using build_invD(10)[OF b(1)] b(8) by auto
  moreover have "proj_ok V (bb_projections built)" using build_invD(9)[OF b(1)] b(9) by simp
  ultimately show thesis by (intro that)
qed

section \<open>Commits\<close>

lemma reset_stored:
  assumes ok: "indexed_ok inner" and r: "mi_meta staged = other_topics t (mi_meta inner)"
    "mi_ops staged = fmfilter (\<lambda>i. i \<notin> with_meta (mi_meta inner) (\<lambda>m. m_topic_id m = t)) (mi_ops inner)"
  shows "stored_hist staged u = (if u = t then {} else stored_hist inner u)"
proof -
  have "o_id op \<in> with_meta (mi_meta inner) (\<lambda>m. m_topic_id m = t) \<longleftrightarrow> u = t" if op: "op \<in> stored_hist inner u" for op
    by (rule stored_hist_meta[OF ok op]) (auto simp: with_meta_def)
  then show ?thesis by (auto simp: stored_hist_def r)
qed

lemma reset_topics:
  assumes ok: "store_ok x inner" and topics: "\<And>t. topic_ok x V inner t" and run: "reset_topic_locked x budget t inner = Ok (n, staged)"
  shows "store_ok x staged" "topic_ok x V staged u" "stored_hist staged u = (if u = t then {} else stored_hist inner u)"
proof -
  have b: "budget (TopicMetadata t) = Ok ()" using run by (auto simp: reset_topic_locked_def rbind_eq_Ok)
  have r: "store_ok x staged" "mi_meta staged = other_topics t (mi_meta inner)" "mi_topics staged = fmdrop t (mi_topics inner)"
    "mi_ops staged = fmfilter (\<lambda>i. i \<notin> with_meta (mi_meta inner) (\<lambda>m. m_topic_id m = t)) (mi_ops inner)"
    by (rule reset_topic_ok[where budget = budget, OF ok b], use run in simp)+
  show "store_ok x staged" by (rule r(1))
  show h: "stored_hist staged u = (if u = t then {} else stored_hist inner u)" for u
    by (rule reset_stored[OF store_okD(3)[OF ok] r(2,4)])
  have "fmlookup (mi_meta inner) i = Some m" if "fmlookup (mi_meta staged) i = Some m" for i m
    using that by (auto simp: r(2) other_topics_def split: if_splits option.splits)
  then show "topic_ok x V staged u"
    using topic_okD[OF topics[of u]] by (cases "u = t") (simp_all add: topic_ok_def h r(3) state_of_def)
qed

lemma commit_replace:
  assumes ok: "store_ok x inner" and topics: "\<And>t. topic_ok x V inner t" and V: "inj_on o_id V" and e: "extends x V t {} None batch"
    and run: "reset_topic_and_admit x fp budget ns t expected batch eviction inner = Ok (n, inner')"
  shows "store_ok x inner'" "topic_ok x V inner' u" "stored_hist inner' t = fst ` set (ab_entries batch)"
    "u \<noteq> t \<Longrightarrow> stored_hist inner' u = stored_hist inner u"
proof -
  obtain staged in1 where r: "reset_topic_locked x budget t inner = Ok (n, staged)" "admit_batch_locked x fp budget batch None staged = Ok in1"
    "journal_eviction budget (journalled_eviction (x_blake3 x) eviction) in1 = Ok inner'"
    using run by (auto simp: reset_topic_and_admit_def rbind_eq_Ok split: if_splits)
  note s = reset_topics[OF ok topics r(1)]
  note c = commit_extends[OF s(1,2) V hist_ok_empty empty_subsetI e r(2)]
  note j = journal_keeps[OF c(1) r(3)]
  have same: "mi_ops inner' = mi_ops in1" "mi_meta inner' = mi_meta in1" "mi_topics inner' = mi_topics in1" by (subst j(2), simp)+
  then have h: "stored_hist inner' v = stored_hist in1 v" for v by (simp add: stored_hist_def)
  show "store_ok x inner'" by (rule j(1))
  show "topic_ok x V inner' u" using c(2) topic_ok_cong[OF same] by blast
  show "stored_hist inner' t = fst ` set (ab_entries batch)" using c(4) by (simp add: h)
  show "u \<noteq> t \<Longrightarrow> stored_hist inner' u = stored_hist inner u" using c(5)[of u] s(3)[of u] by (simp add: h)
qed

text \<open>A log whose store is replaced by one with good topics and no new buffered operations.\<close>

lemma log_ok_store:
  assumes ok: "log_ok x V ol" and store: "store_ok x inner" "\<And>t. topic_ok x V inner t" and sub: "pending_sub (ol_store ol) inner"
  shows "log_ok x V (ol\<lparr>ol_store := inner\<rparr>)"
proof -
  have "op \<in> V \<and> op_validate x op = Ok () \<and> b_deps (body op) \<noteq> {||}" if "fmlookup (mi_pending_ops inner) i = Some op" for i op
    using log_okD(4)[OF ok, of i op] sub that unfolding pending_sub_def by blast
  then show ?thesis using store log_okD(3)[OF ok] by (simp add: log_ok_def)
qed

lemma admit_extends:
  assumes ok: "log_ok x V ol" and V: "inj_on o_id V" and H: "hist_ok x t H" "H \<subseteq> V" and e: "extends x V t H s batch"
    and run: "admit_batch_locked x fp budget batch quota (ol_store ol) = Ok inner"
  shows "log_ok x V (ol\<lparr>ol_store := inner\<rparr>)"
  by (rule log_ok_store[OF ok commit_extends(1,2)[OF log_okD(1,2)[OF ok] V H e run] admit_batch_pending[OF run]])

lemma commit_batch_ok:
  assumes ok: "log_ok (w_ext W) V ol" and V: "inj_on o_id V" and H: "hist_ok (w_ext W) t H" "H \<subseteq> V"
    and e: "extends (w_ext W) V t (if plan = None then H else {}) (if plan = None then s else None) batch"
    and run: "commit_batch W k plan batch ol = (r, ol')"
  shows "log_ok (w_ext W) V ol'"
proof (cases plan)
  case None
  then show ?thesis using run ok admit_extends[OF ok V H] e by (auto simp: commit_batch_def split: if_splits sum.splits)
next
  case (Some p)
  show ?thesis
  proof (cases "reset_topic_and_admit (w_ext W) (w_fingerprint W) (w_budget W k) (w_namespace W) (ab_topic_id batch)
      (rp_expected_state p) batch (Some (rp_eviction p)) (ol_store ol)")
    case (Inl err)
    then show ?thesis using run ok Some by (simp add: commit_batch_def)
  next
    case (Inr res)
    obtain n inner where res: "res = (n, inner)" by (cases res)
    have e': "extends (w_ext W) V t {} None batch" using e Some by simp
    note run' = Inr[unfolded res extendsD(1)[OF e']]
    have "log_ok (w_ext W) V (ol\<lparr>ol_store := inner\<rparr>)"
      by (rule log_ok_store[OF ok commit_replace(1,2)[OF log_okD(1,2)[OF ok] V e' run'] replace_pending[OF run']])
    then show ?thesis using run Some Inr by (auto simp: commit_batch_def res clear_cache_ok)
  qed
qed

section \<open>Buffering and projections\<close>

lemma put_pending_one_ok:
  assumes ok: "log_ok (w_ext W) V ol" and size: "sizes_ok (w_ext W)" and op: "op \<in> V" "op_validate (w_ext W) op = Ok ()" "b_deps (body op) \<noteq> {||}"
    and run: "put_pending_one W k source topic (op, missing) ol = (r, ol')"
  shows "log_ok (w_ext W) V ol'"
proof -
  have "log_ok (w_ext W) V (ol\<lparr>ol_store := inner\<rparr>)"
    if put: "put_pending_bound (w_ext W) b q src op (pending_meta_for op missing) g (ol_store ol) = Ok inner" for b q src g inner
  proof -
    have k: "store_ok (w_ext W) inner" "outside_pool inner = outside_pool (ol_store ol)"
      using put_pending_step[OF log_okD(1)[OF ok] size put] put_pending_Ok[OF put store_okD(4,5)[OF log_okD(1)[OF ok]]] size
      by (auto simp: sizes_ok_def)
    show ?thesis
      by (rule log_ok_records[OF ok k(1)]) (use outside_poolD[OF k(2)] put_pending_contents[OF put] op in auto)
  qed
  then show ?thesis using run ok by (auto simp: put_pending_one_def Let_def split: sum.splits error.splits)
qed

lemma put_pending_all_ok:
  assumes size: "sizes_ok (w_ext W)"
  shows "log_ok (w_ext W) V ol \<Longrightarrow> (\<And>op d. (op, d) \<in> set ps \<Longrightarrow> op \<in> V \<and> op_validate (w_ext W) op = Ok () \<and> b_deps (body op) \<noteq> {||}) \<Longrightarrow>
    put_pending_all W k source topic ps ol = (r, ol') \<Longrightarrow> log_ok (w_ext W) V ol'"
proof (induction ps arbitrary: ol)
  case (Cons p ps)
  obtain op d where p: "p = (op, d)" by (cases p)
  obtain r1 ol1 where one: "put_pending_one W k source topic p ol = (r1, ol1)" by (cases "put_pending_one W k source topic p ol")
  have ok: "log_ok (w_ext W) V ol1"
    by (rule put_pending_one_ok[OF Cons.prems(1) size _ _ _ one[unfolded p]]) (use Cons.prems(2)[of op d] p in auto)
  show ?case using Cons.IH[OF ok] Cons.prems(2,3) ok by (cases r1) (auto simp: one)
qed simp

lemma proj_ok_fmdrop: "proj_ok V P \<Longrightarrow> proj_ok V (fmdrop i P)"
  by (simp add: proj_ok_def)

lemma evict_projections_ok: "proj_ok V P \<Longrightarrow> evict_projections bytes P order = (P', order') \<Longrightarrow> proj_ok V P'"
  by (induction bytes P order rule: evict_projections.induct) (auto simp: proj_ok_fmdrop split: if_splits)

lemma cache_projection_ok: "log_ok x V ol \<Longrightarrow> proj_ok V P \<Longrightarrow> log_ok x V (cache_projection P i ol)"
  using evict_projections_ok[OF log_okD(3)]
  by (auto simp: cache_projection_def log_ok_def proj_ok_def split: option.splits prod.splits)

lemma cache_fold_ok: "log_ok x V ol \<Longrightarrow> proj_ok V P \<Longrightarrow> log_ok x V (fold (cache_projection P) is ol)"
  by (induction "is" arbitrary: ol) (simp_all add: cache_projection_ok)

section \<open>Attempts\<close>

text \<open>Other writers of the store keep the invariant, and encodings have sizes the store can count.\<close>

definition world_ok :: "operation set \<Rightarrow> world \<Rightarrow> bool" where
  "world_ok V W \<longleftrightarrow> inj_on o_id V \<and> sizes_ok (w_ext W) \<and>
    (\<forall>k ol. log_ok (w_ext W) V ol \<longrightarrow> log_ok (w_ext W) V (w_before W k ol) \<and> log_ok (w_ext W) V (w_between W k ol))"

lemma world_okD:
  assumes "world_ok V W"
  shows "inj_on o_id V" "sizes_ok (w_ext W)" "log_ok (w_ext W) V ol \<Longrightarrow> log_ok (w_ext W) V (w_before W k ol)"
    "log_ok (w_ext W) V ol \<Longrightarrow> log_ok (w_ext W) V (w_between W k ol)"
  using assms by (auto simp: world_ok_def)

text \<open>A received operation that validates is in circulation, and one named as verified validates.\<close>

definition sound_op :: "externals \<Rightarrow> operation set \<Rightarrow> op_id btree_set \<Rightarrow> operation \<Rightarrow> bool" where
  "sound_op x V verified op \<longleftrightarrow> (op_validate x op = Ok () \<longrightarrow> op \<in> V) \<and> (o_id op |\<in>| verified \<longrightarrow> op_validate x op = Ok ())"

lemma admit_ops_batch_ok:
  assumes ok: "log_ok (w_ext W) V ol" and W: "world_ok V W" and ops: "\<And>op. op \<in> set ops \<Longrightarrow> sound_op (w_ext W) V verified op"
    and run: "admit_ops_batch W k source ops verified plan effects ol = (r, ol')"
  shows "log_ok (w_ext W) V ol'"
proof -
  define ol0 where "ol0 = (if plan = None then ol else clear_cache ol)"
  have ok0: "log_ok (w_ext W) V ol0" using ok by (simp add: ol0_def clear_cache_ok)
  let ?build = "build_batch (w_ext W) (w_hold W k) (ol_receive_genesis ol0) (ol_states ol0) (ol_store ol0) source ops verified (plan \<noteq> None) effects"
  show ?thesis
  proof (cases "\<exists>built. ?build = Ok (Some built)")
    case False
    then show ?thesis using run ok0 unfolding admit_ops_batch_def ol0_def[symmetric] Let_def by (auto split: sum.splits option.splits)
  next
    case True
    then obtain built where built: "?build = Ok (Some built)" by blast
    have sound: "(op_validate (w_ext W) op = Ok () \<longrightarrow> op \<in> V) \<and> (o_id op |\<in>| verified \<longrightarrow> op_validate (w_ext W) op = Ok ())"
      if "op \<in> set ops" for op using ops[OF that] by (simp add: sound_op_def)
    obtain t where e: "extends (w_ext W) V t (base_hist (ol_store ol0) t (plan \<noteq> None))
        (if plan \<noteq> None then None else topic_state_locked (ol_store ol0) t) (bb_batch built)"
      "proj_ok V (bb_projections built)" "\<forall>(op, d) \<in> set (bb_pending built). op \<in> V \<and> op_validate (w_ext W) op = Ok () \<and> b_deps (body op) \<noteq> {||}"
      "fset (bb_accepted built) = entry_ids (ab_entries (bb_batch built))"
      by (rule built_extends[OF log_okD(1)[OF ok0] world_okD(1)[OF W] log_okD(2,3)[OF ok0] sound built])
    let ?b = "bb_batch built"
    obtain r1 ol1 where c: "commit_batch W k plan ?b (w_between W k ol0) = (r1, ol1)" by (cases "commit_batch W k plan ?b (w_between W k ol0)")
    have ok1: "log_ok (w_ext W) V ol1"
      by (rule commit_batch_ok[OF world_okD(4)[OF W ok0] world_okD(1)[OF W] topic_okD(1,2)[OF log_okD(2)[OF ok0]] _ c, where t = t
        and s = "topic_state_locked (ol_store ol0) t"]) (use e(1) in \<open>auto simp: base_hist_def split: if_splits\<close>)
    obtain r2 ol2 where p: "put_pending_all W k source (ab_topic_id ?b) (bb_pending built) ol1 = (r2, ol2)"
      by (cases "put_pending_all W k source (ab_topic_id ?b) (bb_pending built) ol1")
    have ok2: "log_ok (w_ext W) V ol2" by (rule put_pending_all_ok[OF world_okD(2)[OF W] ok1 _ p]) (use e(3) in auto)
    show ?thesis
      using run ok1 ok2 cache_fold_ok[OF ok2 e(2)] unfolding admit_ops_batch_def ol0_def[symmetric] Let_def built
      by (auto simp: c p split: sum.splits if_splits)
  qed
qed

lemma purge_losing_ok:
  assumes ok: "log_ok x V ol" and run: "purge_losing losing ol = (r, ol')"
  shows "log_ok x V ol'"
proof (cases losing)
  case (Some i)
  obtain inner where p: "purge_pending_waiters i (ol_store ol) = Ok (card ((waits_rel (mi_pending_records (ol_store ol)))\<^sup>+ `` {i} - {i}), inner)"
    "pool_ok inner" "outside_pool inner = outside_pool (ol_store ol)"
    "mi_pending_records inner = fmfilter (\<lambda>j. j \<notin> (waits_rel (mi_pending_records (ol_store ol)))\<^sup>+ `` {i} - {i}) (mi_pending_records (ol_store ol))"
    by (rule purge_pending_ok[OF store_okD(4)[OF log_okD(1)[OF ok]]])
  have "log_ok x V (ol\<lparr>ol_store := inner\<rparr>)"
    by (rule log_ok_records[OF ok store_ok_filter[OF log_okD(1)[OF ok] p(3,2,4)]])
      (use outside_poolD[OF p(3)] purge_pending[OF p(1)] in \<open>auto simp: pending_sub_def\<close>)
  then show ?thesis using run Some p(1) by (simp add: purge_losing_def)
qed (use ok run in \<open>simp add: purge_losing_def\<close>)

lemma resolve_subset:
  assumes "resolve_genesis_collision x inner ops verified = Ok (ops', plan, losing)"
  shows "set ops' \<subseteq> set ops"
  using assms
  by (auto simp: resolve_genesis_collision_def Let_def rbind_eq_Ok without_descendants_def split: option.splits if_splits)

lemma admit_attempt_ok:
  assumes ok: "log_ok (w_ext W) V ol" and W: "world_ok V W" and ops: "\<And>op. op \<in> set ops \<Longrightarrow> sound_op (w_ext W) V checked op"
    and run: "admit_attempt W k source ops checked effects ol = (r, ol')"
  shows "log_ok (w_ext W) V ol'"
proof -
  define ol0 where "ol0 = w_before W k ol"
  have ok0: "log_ok (w_ext W) V ol0" using world_okD(3)[OF W ok] by (simp add: ol0_def)
  let ?r = "if list_ex is_structural_genesis ops then resolve_genesis_collision (w_ext W) (ol_store ol0) ops checked else Ok (ops, None, None)"
  have step: "log_ok (w_ext W) V ol2"
    if r: "?r = Ok (to_admit, plan, losing)" and p: "purge_losing losing ol0 = (r1, ol1)"
      and a: "admit_ops_batch W k source to_admit checked plan effects ol1 = (r2, ol2)" for to_admit plan losing r1 ol1 r2 ol2
  proof (rule admit_ops_batch_ok[OF purge_losing_ok[OF ok0 p] W _ a])
    fix op assume "op \<in> set to_admit"
    then have "op \<in> set ops" using r resolve_subset by (fastforce split: if_splits)
    then show "sound_op (w_ext W) V checked op" by (rule ops)
  qed
  show ?thesis
  proof (cases "(if ops = [] then Ok () else w_turn W k) \<noteq> Ok () \<or> stale_branch ol0 ops \<or> (\<exists>e. ?r = Err e)")
    case True
    then show ?thesis using run ok0 unfolding admit_attempt_def ol0_def[symmetric] Let_def by (auto split: sum.splits if_splits)
  next
    case False
    then obtain to_admit plan losing where r: "?r = Ok (to_admit, plan, losing)" by (cases ?r) auto
    obtain r1 ol1 where p: "purge_losing losing ol0 = (r1, ol1)" by (cases "purge_losing losing ol0")
    obtain r2 ol2 where a: "admit_ops_batch W k source to_admit checked plan effects ol1 = (r2, ol2)"
      by (cases "admit_ops_batch W k source to_admit checked plan effects ol1")
    have "ol' = ol1 \<or> ol' = ol2"
      using run False unfolding admit_attempt_def ol0_def[symmetric] Let_def r by (auto simp: p a split: sum.splits if_splits)
    then show ?thesis using step[OF r p a] purge_losing_ok[OF ok0 p] by blast
  qed
qed

lemma admit_attempts_ok:
  assumes W: "world_ok V W" and ops: "\<And>op. op \<in> set ops \<Longrightarrow> sound_op (w_ext W) V checked op"
  shows "log_ok (w_ext W) V ol \<Longrightarrow> admit_attempts W k n source ops checked effects ol = (r, ol') \<Longrightarrow> log_ok (w_ext W) V ol'"
proof (induction n arbitrary: k ol)
  case (Suc n)
  obtain r1 ol1 where a: "admit_attempt W k source ops checked effects ol = (r1, ol1)"
    by (cases "admit_attempt W k source ops checked effects ol")
  have ok: "log_ok (w_ext W) V ol1" by (rule admit_attempt_ok[OF Suc.prems(1) W ops a])
  show ?case using Suc.IH[OF ok] Suc.prems(2) ok by (auto simp: a split: sum.splits option.splits)
qed simp

lemma check_signatures_sound:
  assumes "check_signatures x verified ops = Ok checked" "op \<in> set ops" "o_id op |\<in>| verified \<Longrightarrow> op_validate x op = Ok ()"
  shows "op_validate x op = Ok ()"
proof -
  have "op_validate x op = Ok ()"
    if "fold_res (\<lambda>op checked. if o_id op |\<in>| verified then Ok (finsert (o_id op) checked)
      else rbind (validate_frame x op) (\<lambda>_. rbind (op_validate x op) (\<lambda>_. Ok (finsert (o_id op) checked)))) ops c = Ok checked" for c
    using that assms(2,3) by (induction ops arbitrary: c) (auto simp: rbind_eq_Ok split: if_splits)
  then show ?thesis using assms(1) by (simp add: check_signatures_def)
qed

lemma admit_with_retry_ok:
  assumes ok: "log_ok (w_ext W) V ol" and W: "world_ok V W" and ops: "\<And>op. op \<in> set ops \<Longrightarrow> sound_op (w_ext W) V verified op"
    and run: "admit_with_retry W k source ops verified effects ol = (r, ol')"
  shows "log_ok (w_ext W) V ol'"
proof (cases "foreign_genesis (ol_receive_genesis ol) ops \<or> (\<exists>e. check_signatures (w_ext W) verified ops = Err e)")
  case True
  then show ?thesis using run ok by (auto simp: admit_with_retry_def split: sum.splits if_splits)
next
  case False
  then obtain checked where c: "check_signatures (w_ext W) verified ops = Ok checked"
    by (cases "check_signatures (w_ext W) verified ops") auto
  have "sound_op (w_ext W) V checked op" if "op \<in> set ops" for op
    using check_signatures_sound[OF c that] ops[OF that] by (auto simp: sound_op_def)
  note a = admit_attempts_ok[OF W this ok]
  show ?thesis by (rule a) (use run False c in \<open>auto simp: admit_with_retry_def\<close>)
qed

section \<open>Draining\<close>

definition receiving_ok :: "operation set \<Rightarrow> world \<Rightarrow> op_id btree_set \<Rightarrow> receiving \<Rightarrow> bool" where
  "receiving_ok V W verified rc \<longleftrightarrow> log_ok (w_ext W) V (rc_log rc) \<and>
    (\<forall>(source, ops, from_pending) \<in> set (rc_queue rc). \<forall>op \<in> set ops. sound_op (w_ext W) V verified op)"

lemma receiving_okD:
  assumes "receiving_ok V W verified rc"
  shows "log_ok (w_ext W) V (rc_log rc)"
    "(source, ops, p) \<in> set (rc_queue rc) \<Longrightarrow> op \<in> set ops \<Longrightarrow> sound_op (w_ext W) V verified op"
  using assms by (auto simp: receiving_ok_def)

definition flow_ok :: "operation set \<Rightarrow> world \<Rightarrow> op_id btree_set \<Rightarrow> flow \<Rightarrow> bool" where
  "flow_ok V W verified f = (case f of Again rc \<Rightarrow> receiving_ok V W verified rc | Stop _ rc \<Rightarrow> receiving_ok V W verified rc)"

lemma flow_ok_simps [simp]:
  "flow_ok V W verified (Again rc) = receiving_ok V W verified rc" "flow_ok V W verified (Stop r rc) = receiving_ok V W verified rc"
  by (simp_all add: flow_ok_def)

lemma reject_log_ok:
  assumes ok: "log_ok x V ol" and run: "reject_pending_subtree budget i (ol_store ol) = Ok (n, inner)"
  shows "log_ok x V (ol\<lparr>ol_store := inner\<rparr>)"
proof (rule log_ok_records[OF ok reject_step[OF log_okD(1)[OF ok] run]])
  have same: "mi_ops inner = mi_ops (ol_store ol) \<and> mi_meta inner = mi_meta (ol_store ol) \<and> mi_topics inner = mi_topics (ol_store ol)"
  proof (cases "fmlookup (mi_pending_records (ol_store ol)) i")
    case (Some r)
    have b: "budget (RejectedMetadata (pr_topic_id r)) = Ok ()"
      using run Some by (auto simp: reject_pending_subtree_def Let_def rbind_eq_Ok)
    have "outside_pool (inner\<lparr>mi_rejected := mi_rejected (ol_store ol)\<rparr>) = outside_pool (ol_store ol)"
      by (rule reject_subtree_ok[where budget = budget, OF store_okD(4)[OF log_okD(1)[OF ok]] Some b]) (use run in simp)
    from outside_poolD[OF this] show ?thesis by simp
  qed (use run in \<open>simp add: reject_pending_subtree_def\<close>)
  then show "mi_ops inner = mi_ops (ol_store ol)" "mi_meta inner = mi_meta (ol_store ol)" "mi_topics inner = mi_topics (ol_store ol)" by simp_all
qed (use reject_pending[OF run] in \<open>auto simp: pending_sub_def\<close>)

lemma receive_failed_ok:
  assumes ok: "receiving_ok V W verified rc"
  shows "flow_ok V W verified (receive_failed W op err rc)"
  using ok reject_log_ok[OF receiving_okD(1)[OF ok]]
  by (auto simp: receive_failed_def Let_def receiving_ok_def split: sum.splits pending_verdict.splits)

lemma receive_job_ok:
  assumes ok: "receiving_ok V W verified rc" and W: "world_ok V W"
  shows "flow_ok V W verified (receive_job W verified effects rc)"
proof (cases "rc_queue rc")
  case Nil
  then show ?thesis using ok by (simp add: receive_job_def)
next
  case (Cons j queue)
  obtain source ops p where j: "j = (source, ops, p)" by (cases j)
  have ops: "sound_op (w_ext W) V verified op" if "op \<in> set ops" for op
    using receiving_okD(2)[OF ok, of source ops p op] that by (simp add: Cons j)
  obtain r ol where a: "admit_with_retry W (rc_tick rc) source ops verified effects (rc_log rc) = (r, ol)"
    by (cases "admit_with_retry W (rc_tick rc) source ops verified effects (rc_log rc)")
  have log: "log_ok (w_ext W) V ol" by (rule admit_with_retry_ok[OF receiving_okD(1)[OF ok] W ops a])
  let ?rc = "rc\<lparr>rc_queue := queue, rc_log := ol, rc_tick := rc_tick rc + MAX_ADMISSION_RETRIES\<rparr>"
  have rc: "receiving_ok V W verified ?rc" using ok log by (auto simp: receiving_ok_def Cons)
  have "receiving_ok V W verified (note_admitted out ?rc)" for out
    using rc by (simp add: receiving_ok_def note_admitted_def case_prod_unfold)
  moreover have "receiving_ok V W verified (?rc\<lparr>rc_queue := queue @ map (\<lambda>op. (source, [op], True)) ops\<rparr>)"
    using rc ops by (auto simp: receiving_ok_def)
  ultimately show ?thesis
    using rc receive_failed_ok[OF rc] unfolding receive_job_def Cons j a Let_def list.case prod.case
    by (auto split: sum.splits list.splits)
qed

lemma ready_pending_sound:
  assumes "log_ok x V ol" "(source, op) \<in> set (ready_pending_after (ol_store ol) after limit)"
  shows "sound_op x V verified op"
proof -
  obtain i where "pending_entry_locked (ol_store ol) i = Some (source, op)"
    using assms(2) by (auto simp: ready_pending_after_def List.map_filter_def)
  then have "fmlookup (mi_pending_ops (ol_store ol)) i = Some op" by (auto simp: pending_entry_locked_def bind_eq_Some_conv)
  then show ?thesis using log_okD(4)[OF assms(1)] by (auto simp: sound_op_def)
qed

lemma receive_step_ok:
  assumes ok: "receiving_ok V W verified rc" and W: "world_ok V W"
  shows "flow_ok V W verified (receive_step W verified effects rc)"
proof -
  let ?slice = "ready_pending_after (ol_store (rc_log rc)) (rc_cursor rc) READY_SLICE"
  let ?rc = "rc\<lparr>rc_cursor := Some (o_id (snd (last ?slice))), rc_drained := rc_drained rc + length ?slice,
    rc_queue := map (\<lambda>(source, op). (Some source, [op], True)) (filter (\<lambda>(_, op). o_id op |\<notin>| rc_held_back rc) ?slice)\<rparr>"
  have "receiving_ok V W verified ?rc"
    using receiving_okD(1)[OF ok] ready_pending_sound[OF receiving_okD(1)[OF ok]] by (auto simp: receiving_ok_def)
  note job = receive_job_ok[OF this W]
  have rest: "receiving_ok V W verified (rc\<lparr>rc_drained := d, rc_window_admitted := w, rc_cursor := c, rc_pass_admitted := p\<rparr>)"
    "receiving_ok V W verified (rc\<lparr>rc_cursor := c, rc_pass_admitted := p\<rparr>)" "receiving_ok V W verified (rc\<lparr>rc_admitted := a\<rparr>)" for d w c p a
    using ok by (simp_all add: receiving_ok_def)
  show ?thesis
    using ok rest job receive_job_ok[OF ok W] unfolding receive_step_def Let_def by auto
qed

lemma receive_loop_ok:
  assumes W: "world_ok V W" and ok: "receiving_ok V W verified rc" and run: "receive_loop W verified effects rc = Some (r, rc')"
  shows "receiving_ok V W verified rc'"
proof -
  define Q where "Q = (\<lambda>W' verified' (effects' :: receive_effects option) rc res. W' = W \<longrightarrow> verified' = verified \<longrightarrow>
    receiving_ok V W verified rc \<longrightarrow> receiving_ok V W verified (snd (res :: unit result \<times> receiving)))"
  have "Q W verified effects rc (r, rc')"
  proof (rule receive_loop.raw_induct[OF _ run])
    fix loop W' verified' effects' rc1 res
    assume IH: "\<And>W'' v e s y. loop W'' v e s = Some y \<Longrightarrow> Q W'' v e s y"
      and step: "(case receive_step W' verified' effects' rc1 of Again s \<Rightarrow> loop W' verified' effects' s | Stop r s \<Rightarrow> Some (r, s)) = Some res"
    show "Q W' verified' effects' rc1 res"
      using step IH receive_step_ok[OF _ W, of verified rc1 effects'] by (cases res) (auto simp: Q_def split: flow.splits)
  qed
  then show ?thesis using ok by (simp add: Q_def)
qed

lemma receive_ops_ok:
  assumes ok: "log_ok (w_ext W) V ol" and W: "world_ok V W" and ops: "\<And>op. op \<in> set ops \<Longrightarrow> sound_op (w_ext W) V verified op"
    and run: "receive_ops_admission W k source ops verified effects ol = Some (r, k', ol')"
  shows "log_ok (w_ext W) V ol'"
proof -
  obtain r1 rc where l: "receive_loop W verified effects (receive_start source ops k ol) = Some (r1, rc)" "ol' = rc_log rc"
    using run by (auto simp: receive_ops_admission_def)
  have "receiving_ok V W verified (receive_start source ops k ol)" using ok ops by (simp add: receiving_ok_def receive_start_def)
  from receiving_okD(1)[OF receive_loop_ok[OF W this l(1)]] show ?thesis by (simp add: l(2))
qed

lemma reconcile_ok:
  assumes W: "world_ok V W" and ok: "log_ok (w_ext W) V ol" and run: "reconcile_loop W k accepted ol = Some (r, ol')"
  shows "log_ok (w_ext W) V ol'"
proof -
  define Q where "Q = (\<lambda>W' (k' :: nat) (accepted' :: op_id btree_set) ol res. W' = W \<longrightarrow> log_ok (w_ext W) V ol \<longrightarrow>
    log_ok (w_ext W) V (snd (res :: op_id btree_set result \<times> oplog)))"
  have "Q W k accepted ol (r, ol')"
  proof (rule reconcile_loop.raw_induct[OF _ run])
    fix loop W' k' accepted' ol1 res
    assume IH: "\<And>W'' k' a s y. loop W'' k' a s = Some y \<Longrightarrow> Q W'' k' a s y"
      and step: "Option.bind (receive_ops_admission W' k' None [] {||} None ol1) (\<lambda>(r, k, ol). case r of
          Err e \<Rightarrow> Some (Err e, ol)
        | Ok pass \<Rightarrow> let accepted = accepted' |\<union>| a_accepted pass in
            if \<not> a_ready_remaining pass \<or> a_accepted pass = {||} then Some (Ok accepted, ol) else loop W' k accepted ol) = Some res"
    show "Q W' k' accepted' ol1 res"
      unfolding Q_def
    proof (intro impI)
      assume h: "W' = W" "log_ok (w_ext W) V ol1"
      obtain r k2 ol2 where a: "receive_ops_admission W k' None [] {||} None ol1 = Some (r, k2, ol2)"
        using step h(1) by (auto simp: bind_eq_Some_conv)
      have "log_ok (w_ext W) V ol2" by (rule receive_ops_ok[OF h(2) W _ a]) simp
      then show "log_ok (w_ext W) V (snd res)"
        using step IH h(1) by (cases res) (auto simp: a Q_def Let_def split: sum.splits if_splits)
    qed
  qed
  then show ?thesis using ok by (simp add: Q_def)
qed

end
