(* ===== verification/Creation_Sound.thy ===== *)
theory Creation_Sound
  imports Admission_Sound
begin

text \<open>
  Local operations and rebuilt topics keep the op log's invariant. A local operation is checked against
  the state replayed from everything its dependencies reach.
\<close>

section \<open>The state at the dependencies\<close>

definition stored_part :: "memory_inner \<Rightarrow> topic_id \<Rightarrow> (op_id, operation) btree_map \<Rightarrow> bool" where
  "stored_part inner t R \<longleftrightarrow> (\<forall>i op. fmlookup R i = Some op \<longrightarrow> o_id op = i \<and> op \<in> stored_hist inner t)"

lemma deps_past_sub: "op \<in> H \<Longrightarrow> deps_past H op \<subseteq> past H {o_id op}"
  by (auto simp: past_def causes_def intro: rtrancl_into_rtrancl)

lemma reachable_loop_sound:
  assumes ok: "indexed_ok inner" and run: "reachable_loop inner t stack R = Ok R'" and R: "stored_part inner t R"
    "\<And>i op. fmlookup R i = Some op \<Longrightarrow> fset (b_deps (body op)) \<subseteq> set stack \<union> fset (fmdom R)"
  shows "stored_part inner t R' \<and> set stack \<union> fset (fmdom R) \<subseteq> fset (fmdom R') \<and>
    (\<forall>i op. fmlookup R' i = Some op \<longrightarrow> fset (b_deps (body op)) \<subseteq> fset (fmdom R')) \<and>
    (\<forall>i op. fmlookup R' i = Some op \<longrightarrow> i |\<in>| fmdom R \<or> op \<in> past (stored_hist inner t) (set stack))"
  using ok run R
proof (induction inner t stack R arbitrary: R' rule: reachable_loop.induct)
  case (1 inner t R)
  then show ?case by (auto simp: fmdomI)
next
  case (2 inner t i stack R)
  let ?H = "stored_hist inner t"
  show ?case
  proof (cases "contains_key R i")
    case True
    have "fset (b_deps (body op)) \<subseteq> set stack \<union> fset (fmdom R)" if "fmlookup R j = Some op" for j op
      using 2(6)[OF that] True by (auto simp: contains_key_fmdom)
    from 2(1)[OF True 2(3) _ 2(5) this, of R'] have IH: "stored_part inner t R' \<and> set stack \<union> fset (fmdom R) \<subseteq> fset (fmdom R') \<and>
      (\<forall>i op. fmlookup R' i = Some op \<longrightarrow> fset (b_deps (body op)) \<subseteq> fset (fmdom R')) \<and>
      (\<forall>i op. fmlookup R' i = Some op \<longrightarrow> i |\<in>| fmdom R \<or> op \<in> past ?H (set stack))" using 2(4) True by simp
    moreover have "past ?H (set stack) \<subseteq> past ?H (set (i # stack))" by (rule past_mono) auto
    moreover have "i \<in> fset (fmdom R)" using True by (simp add: contains_key_fmdom)
    ultimately show ?thesis unfolding list.set(2) by blast
  next
    case False
    then obtain op where op: "fmlookup (mi_ops inner) i = Some op" "b_topic_id (body op) = t"
      "reachable_loop inner t (rev (iter_set (b_deps (body op))) @ stack) (fmupd i op R) = Ok R'"
      using 2(4) by (auto simp: rbind_eq_Ok ok_or_eq_Ok split: if_splits)
    obtain m where "o_id op = i" by (rule stored_op[OF 2(3) op(1)])
    then have o: "o_id op = i" "op \<in> ?H" using op(1,2) by (auto simp: stored_hist_def)
    have part: "stored_part inner t (fmupd i op R)" using 2(5) o by (simp add: stored_part_def)
    have deps: "fset (b_deps (body q)) \<subseteq> set (rev (iter_set (b_deps (body op))) @ stack) \<union> fset (fmdom (fmupd i op R))"
      if "fmlookup (fmupd i op R) j = Some q" for j q
      using that 2(6)[of j q] by (auto split: if_splits)
    have IH: "stored_part inner t R' \<and> set (rev (iter_set (b_deps (body op))) @ stack) \<union> fset (fmdom (fmupd i op R)) \<subseteq> fset (fmdom R') \<and>
      (\<forall>i op. fmlookup R' i = Some op \<longrightarrow> fset (b_deps (body op)) \<subseteq> fset (fmdom R')) \<and>
      (\<forall>j q. fmlookup R' j = Some q \<longrightarrow> j |\<in>| fmdom (fmupd i op R) \<or> q \<in> past ?H (set (rev (iter_set (b_deps (body op))) @ stack)))"
      by (rule 2(2)[OF False _ _ 2(3) op(3) part deps]) (use op in \<open>auto simp: ok_or_eq_Ok\<close>)
    have "past ?H (set (rev (iter_set (b_deps (body op))) @ stack)) \<subseteq> past ?H (set (i # stack))"
      using deps_past_sub[OF o(2)] past_mono[of "{i}" "set (i # stack)" ?H] past_mono[of "set stack" "set (i # stack)" ?H] o(1)
      by (auto simp: past_Un)
    moreover have "op \<in> past ?H (set (i # stack))" using o by (intro past_self) auto
    moreover have "q = op" if "fmlookup R' i = Some q" for q
    proof -
      have "o_id q = i" "q \<in> ?H" using that IH unfolding stored_part_def by blast+
      then show ?thesis using op(1) by (simp add: stored_hist_def)
    qed
    moreover have "set (i # stack) \<union> fset (fmdom R) \<subseteq> fset (fmdom R')" using IH by auto
    moreover have "j |\<in>| fmdom R \<or> q \<in> past ?H (set (i # stack))" if "fmlookup R' j = Some q" for j q
    proof (cases "j = i")
      case False
      then have "j |\<in>| fmdom R \<or> q \<in> past ?H (set (rev (iter_set (b_deps (body op))) @ stack))"
        using conjunct2[OF conjunct2[OF conjunct2[OF IH]]] that by auto
      then show ?thesis using calculation(1) by blast
    qed (use calculation that in metis)
    ultimately show ?thesis using IH by blast
  qed
qed

lemma reachable_ops:
  assumes ok: "indexed_ok inner" and h: "hist_ok x t (stored_hist inner t)"
    and R: "reachable_loop inner t (rev (iter_set deps)) fmempty = Ok R"
  shows "set (map snd (iter_map R)) = past (stored_hist inner t) (fset deps)"
proof -
  let ?H = "stored_hist inner t"
  have r: "stored_part inner t R" "fset deps \<subseteq> fset (fmdom R)"
    "\<And>i op. fmlookup R i = Some op \<Longrightarrow> fset (b_deps (body op)) \<subseteq> fset (fmdom R)"
    "\<And>i op. fmlookup R i = Some op \<Longrightarrow> op \<in> past ?H (fset deps)"
    using reachable_loop_sound[OF ok R] by (auto simp: stored_part_def)
  let ?S = "set (map snd (iter_map R))"
  have S: "op \<in> ?S \<longleftrightarrow> fmlookup R (o_id op) = Some op" for op
  proof -
    have "op \<in> ?S \<longleftrightarrow> (\<exists>i. fmlookup R i = Some op)" by (auto simp: image_iff intro: bexI[of _ "(i, op)" for i])
    then show ?thesis using r(1) unfolding stored_part_def by metis
  qed
  have sub: "?S \<subseteq> ?H" using r(1) S unfolding stored_part_def by blast
  have ids: "ids ?S = fset (fmdom R)"
  proof (intro set_eqI iffI)
    fix i assume "i \<in> ids ?S"
    then obtain op where "op \<in> ?S" "o_id op = i" unfolding ids_iff by blast
    then show "i \<in> fset (fmdom R)" using S fmdomI by metis
  next
    fix i assume "i \<in> fset (fmdom R)"
    then obtain op where "fmlookup R i = Some op" by (auto elim: fmdomE)
    then have "op \<in> ?S" "o_id op = i" using S r(1) unfolding stored_part_def by metis+
    then show "i \<in> ids ?S" unfolding ids_iff by blast
  qed
  have "past ?H (fset deps) = past ?S (fset deps)"
    using past_closed[OF hist_okD(2)[OF h] sub, of "fset deps"] r(2,3) S unfolding ids by metis
  moreover have "?S \<subseteq> past ?H (fset deps)" using S r(4) by blast
  ultimately show ?thesis using past_sub by blast
qed

lemma state_for_deps_sound:
  assumes ok: "indexed_ok inner" and h: "hist_ok x t (stored_hist inner t)" and run: "state_for_deps inner t deps = Ok s"
  shows "materialized (past (stored_hist inner t) (fset deps)) {||} s"
proof -
  obtain R where R: "reachable_loop inner t (rev (iter_set deps)) fmempty = Ok R" "materialize_topic_state (map snd (iter_map R)) {||} = Ok s"
    using run by (auto simp: state_for_deps_def rbind_eq_Ok)
  then show ?thesis using materialize_sound[OF R(2)] reachable_ops[OF ok h R(1)] by simp
qed

section \<open>One local operation\<close>

lemma meta_for_is: "meta_for inner op = meta_for_projected inner fmempty op"
  by (simp add: meta_for_def meta_for_projected_def)

lemma local_headers:
  "(\<lambda>i. ok_or (map_option header_of_meta (fmlookup (mi_meta inner) i)) (MissingDependency i)) = header_projected inner fmempty"
  by (rule ext) (simp add: header_projected_def memory_header_def)

lemma stored_deps:
  assumes ok: "indexed_ok inner" and run: "meta_for inner op = Ok m"
  shows "fset (b_deps (body op)) \<subseteq> ids (stored_hist inner (b_topic_id (body op)))"
proof
  fix d assume "d \<in> fset (b_deps (body op))"
  then obtain n where n: "fmlookup (mi_meta inner) d = Some n" "m_topic_id n = b_topic_id (body op)"
    using meta_for_topics[of inner fmempty op m d] run by (auto simp: meta_for_is meta_projected_def ok_or_eq_Ok)
  obtain q where "o_id q = d" "q \<in> stored_hist inner (m_topic_id n)" by (rule stored_meta[OF ok n(1)])
  then show "d \<in> ids (stored_hist inner (b_topic_id (body op)))" using n(2) by (auto simp: ids_def)
qed

lemma local_member_sound:
  assumes v: "view_ok x V t inner (no_overlay False) heads (Some s) (stored_hist inner t)" and ok: "indexed_ok inner"
    and b: "b_topic_id (body op) = t" "t_heads s = heads" and run: "local_member inner (body op) s = Ok ()"
  shows "\<exists>s'. materialized (deps_past (stored_hist inner t) op) {||} s' \<and> b_author (body op) |\<in>| t_members s'" "b_deps (body op) \<noteq> {||}"
proof -
  let ?H = "stored_hist inner t"
  show m: "\<exists>s'. materialized (deps_past ?H op) {||} s' \<and> b_author (body op) |\<in>| t_members s'"
  proof (cases "b_deps (body op) = heads")
    case True
    then show ?thesis using heads_state[OF v True] run b
      by (intro exI[of _ "s\<lparr>t_heads := {||}\<rparr>"]) (auto simp: local_member_def split: if_splits)
  next
    case False
    then show ?thesis using state_for_deps_sound[OF ok view_okD(1)[OF v]] run b
      by (auto simp: local_member_def rbind_eq_Ok split: if_splits)
  qed
  show "b_deps (body op) \<noteq> {||}"
  proof
    assume "b_deps (body op) = {||}"
    then have "materialized {} {||} s'" if "materialized (deps_past ?H op) {||} s'" for s' using that by simp
    then show False using m materialized_nonempty by blast
  qed
qed

lemma local_payload_sound:
  assumes ok: "store_ok x inner" and t: "topic_ok x V inner t" and op: "b_topic_id (body op) = t"
    and run: "validate_local_payload inner (body op) = Ok ()"
  shows "is_genesis op = (b_deps (body op) = {||})" "authorized (stored_hist inner t) op" "is_genesis op \<Longrightarrow> stored_hist inner t = {}"
proof -
  let ?H = "stored_hist inner t" and ?s = "topic_state_locked inner t"
  note v = stored_view[OF ok t]
  have heads: "t_heads s = get_or {||} (mi_heads inner) t" if "?s = Some s" for s using that by (auto simp: topic_state_locked_def)
  have "is_genesis op = (b_deps (body op) = {||}) \<and> authorized ?H op \<and> (is_genesis op \<longrightarrow> ?H = {})"
  proof (cases "b_payload (body op)")
    case (Genesis g)
    then show ?thesis using run op view_okD(7)[OF v]
      by (auto simp: validate_local_payload_def Let_def is_genesis_def authorized_def state_of_def split: if_splits)
  next
    case (Event ev)
    then obtain s where s: "?s = Some s" "t_event_type_id s = ev_type_id ev" "local_member inner (body op) s = Ok ()"
      using run op by (auto simp: validate_local_payload_def Let_def ensure_event_type_def rbind_eq_Ok ok_or_eq_Ok split: if_splits)
    note v' = v[unfolded s(1)]
    note m = local_member_sound[OF v' store_okD(3)[OF ok] op heads[OF s(1)] s(3)]
    have "materialized ?H (t_heads s) s" using view_okD(7)[OF v'] by (simp add: state_of_def)
    note et = event_type_at[OF view_okD(1)[OF v'] this]
    have "authorized ?H op" unfolding authorized_def Event using m(1) et s(2) by auto
    then show ?thesis using m(2) Event by (simp add: is_genesis_def)
  next
    case (Control c)
    then obtain s where s: "?s = Some s" "local_member inner (body op) s = Ok ()"
      using run op by (auto simp: validate_local_payload_def Let_def rbind_eq_Ok ok_or_eq_Ok)
    note m = local_member_sound[OF v[unfolded s(1)] store_okD(3)[OF ok] op heads[OF s(1)] s(2)]
    then show ?thesis using Control by (simp add: is_genesis_def authorized_def)
  qed
  then show "is_genesis op = (b_deps (body op) = {||})" "authorized ?H op" "is_genesis op \<Longrightarrow> ?H = {}" by blast+
qed

lemma validate_op_sound:
  assumes ok: "store_ok x inner" and t: "topic_ok x V inner t" and V: "inj_on o_id V" "op \<in> V"
    and op: "b_topic_id (body op) = t" "op_validate x op = Ok ()" and m: "meta_for inner op = Ok m"
    and run: "validate_op x inner op = Ok ()"
  shows "op_ok x t (stored_hist inner t) op" "o_id op \<notin> ids (stored_hist inner t)" "op_slot op \<notin> op_slot ` stored_hist inner t"
    "is_genesis op \<Longrightarrow> stored_hist inner t = {}" "hist_ok x t (insert op (stored_hist inner t))"
proof -
  let ?H = "stored_hist inner t"
  note v = stored_view[OF ok t] and h = topic_okD(1)[OF t]
  have deps: "fset (b_deps (body op)) \<subseteq> ids ?H" using stored_deps[OF store_okD(3)[OF ok] m] op(1) by simp
  have r: "b_actor_id (body op) = actor_id_for (x_blake3 x) t (b_author (body op))"
    "next_actor_position (actor_tip inner t (b_actor_id (body op))) = Ok (b_actor_seq (body op), b_actor_prev (body op))"
    "validate_local_payload inner (body op) = Ok ()"
    "deps_generation (header_projected inner fmempty) (b_deps (body op)) = Ok (b_generation (body op))"
    "\<And>p. b_actor_prev (body op) = Some p \<Longrightarrow> p |\<in>| b_deps (body op)"
    using run op(1) by (auto simp: validate_op_def Let_def rbind_eq_Ok local_headers split: if_splits option.splits)
  note pay = local_payload_sound[OF ok t op(1) r(3)]
  have tip: "is_tip ?H (b_actor_id (body op)) (actor_tip inner t (b_actor_id (body op)))"
    using stored_tip[OF store_okD(3)[OF ok]] by (simp add: actor_tip_def)
  note pos = next_position[OF h tip r(2,5)]
  have s: "sees inner fmempty fmempty ?H" using view_okD(3)[OF v] by simp
  show o: "op_ok x t ?H op"
    using op r(1) deps pay(1,2) pos(1) generation_seen[OF h s deps r(4)] by (simp add: op_ok_def)
  show new: "o_id op \<notin> ids ?H"
  proof
    assume "o_id op \<in> ids ?H"
    then obtain q where "q \<in> ?H" "o_id q = o_id op" by (auto simp: ids_iff)
    then have "q = op" using V topic_okD(2)[OF t] by (auto dest: inj_onD)
    then show False using pos(2) \<open>q \<in> ?H\<close> by blast
  qed
  show "op_slot op \<notin> op_slot ` ?H" by (rule pos(2))
  show "is_genesis op \<Longrightarrow> ?H = {}" by (rule pay(3))
  then show "hist_ok x t (insert op ?H)" by (intro hist_ok_insert[OF h new pos(2) o])
qed

lemma state_of_heads: "state_of H (Some s) \<Longrightarrow> state_of H (Some (s\<lparr>t_heads := h\<rparr>))"
  by (simp add: state_of_def materialized_heads)

lemma topic_state_after_of:
  assumes h: "hist_ok x t H" and op: "op_ok x t H op" "is_genesis op \<Longrightarrow> H = {}" "inj_on o_id (insert op H)"
    and s: "state_of H base" and run: "topic_state_after op heads base = Ok after"
  shows "state_of (insert op H) (case after of None \<Rightarrow> base | Some s \<Rightarrow> Some s)"
proof (cases "b_payload (body op)")
  case (Genesis g)
  have "state_of (insert op H) (Some (genesis_topic_state op g {||}))"
    by (rule next_state_of[OF h op s]) (simp_all add: next_state_def Genesis)
  from state_of_heads[OF this, of heads] show ?thesis using run Genesis by (auto simp: topic_state_after_def genesis_topic_state_def)
next
  case (Event ev)
  have "state_of (insert op H) base" by (rule next_state_of[OF h op s]) (simp_all add: next_state_def Event)
  then show ?thesis using run Event by (simp add: topic_state_after_def)
next
  case (Control c)
  then obtain b where b: "base = Some b" "after = Some (apply_control (b\<lparr>t_heads := heads\<rparr>) op c)"
    using run by (auto simp: topic_state_after_def rbind_eq_Ok ok_or_eq_Ok)
  have "state_of (insert op H) (Some (apply_control (b\<lparr>t_heads := heads\<rparr>) op c))"
    by (rule next_state_of[OF h op state_of_heads[OF s[unfolded b(1)]]]) (simp_all add: next_state_def Control ok_or_def)
  then show ?thesis by (simp add: b(2))
qed

lemma meta_for_matches:
  assumes ok: "store_ok x inner" and t: "topic_ok x V inner t" and op: "b_topic_id (body op) = t" and run: "meta_for inner op = Ok m"
  shows "meta_matches op m" "m_topic_id m = b_topic_id (body op)" "clock_is (deps_past (stored_hist inner t) op) (m_observed_clock m)"
    "m_actor_seq m = b_actor_seq (body op)"
proof -
  note v = stored_view[OF ok t]
  have s: "sees inner fmempty fmempty (stored_hist inner t)" using view_okD(3)[OF v] by simp
  have deps: "fset (b_deps (body op)) \<subseteq> ids (stored_hist inner t)" using stored_deps[OF store_okD(3)[OF ok] run] op by simp
  obtain c where c: "meta_for_projected inner fmempty op = Ok (meta_of_op op c True {||})" "clock_is (deps_past (stored_hist inner t) op) c"
    by (rule meta_for_seen[OF topic_okD(1)[OF t] s deps op])
  then have "m = meta_of_op op c True {||}" using run by (simp add: meta_for_is)
  then show "meta_matches op m" "m_topic_id m = b_topic_id (body op)" "clock_is (deps_past (stored_hist inner t) op) (m_observed_clock m)"
    "m_actor_seq m = b_actor_seq (body op)"
    using c(2) by (simp_all add: meta_of_op_matches)
qed

lemma check_local_extends:
  assumes ok: "store_ok x inner" and t: "topic_ok x V inner t" and V: "inj_on o_id V" "op \<in> V"
    and op: "b_topic_id (body op) = t" "op_validate x op = Ok ()"
    and run: "check_local x inner op (store_heads inner t) (topic_state_locked inner t) effects = Ok (m, batch)"
  shows "extends x V t (stored_hist inner t) (topic_state_locked inner t) batch"
proof -
  let ?H = "stored_hist inner t"
  note v = stored_view[OF ok t]
  obtain after where r: "validate_op x inner op = Ok ()" "meta_for inner op = Ok m"
    "topic_state_after op (heads_after (store_heads inner t) op) (topic_state_locked inner t) = Ok after"
    "ab_topic_id batch = t" "ab_entries batch = [(op, m)]" "ab_topic_state batch = after"
    "ab_expected_heads batch = store_heads inner t" "ab_expected_topic_state batch = topic_state_locked inner t"
    using run op(1) by (auto simp: check_local_def local_batch_def Let_def rbind_eq_Ok)
  note o = validate_op_sound[OF ok t V op r(2,1)] and m = meta_for_matches[OF ok t op(1) r(2)]
  have "deps_past (insert op ?H) op = deps_past ?H op"
    by (rule deps_past_insert[OF topic_okD(1)[OF t] hist_okD(2)[OF o(5)] op_okD(4)[OF o(1)]])
  moreover have "state_of (insert op ?H) (case after of None \<Rightarrow> topic_state_locked inner t | Some s \<Rightarrow> Some s)"
    by (rule topic_state_after_of[OF topic_okD(1)[OF t] o(1,4) hist_okD(2)[OF o(5)] view_okD(7)[OF v] r(3)])
  ultimately show ?thesis
    using r(4-8) o(2,5) m(1,3) V(2) topic_okD(2)[OF t] view_okD(6)[OF v] by (simp add: extends_def store_heads_def)
qed

definition signed_ok :: "externals \<Rightarrow> operation option \<Rightarrow> bool" where
  "signed_ok x kept \<longleftrightarrow> (\<forall>op. kept = Some op \<longrightarrow> op_validate x op = Ok ())"

lemma reuse_or_sign_ok:
  assumes "reuse_or_sign x signer kept b = Ok op" "signed_ok x kept"
  shows "op_validate x op = Ok ()" "body op = b"
  using assms by (auto simp: reuse_or_sign_def sign_validated_def signed_ok_def op_sign_def op_new_def signed_op_sign_def rbind_eq_Ok split: option.splits if_splits)

lemma next_local_ok:
  assumes "next_local_op x inner t actor deps payload signer kept = Ok op" "signed_ok x kept"
  shows "op_validate x op = Ok ()" "b_topic_id (body op) = t" "b_actor_id (body op) = actor" "b_payload (body op) = payload"
  using assms reuse_or_sign_ok[where x = x and signer = signer and kept = kept and op = op]
  by (auto simp: next_local_op_def rbind_eq_Ok Let_def split: option.splits)

lemma try_local_ok:
  assumes ok: "log_ok (w_ext W) V ol" and W: "world_ok V W" and kept: "signed_ok (w_ext W) kept"
    and run: "try_local W k t actor payload signer kept effects ol = (kept', r, ol')"
    and V: "\<And>op m. r = Ok (op, m) \<Longrightarrow> op \<in> V"
  shows "log_ok (w_ext W) V ol'" "signed_ok (w_ext W) kept'"
proof -
  let ?x = "w_ext W" and ?in = "ol_store ol"
  have "log_ok ?x V ol' \<and> signed_ok ?x kept'"
  proof (cases "ensure_room ?in t actor payload (sg_peer_id signer)")
    case (Inl e)
    then show ?thesis using run ok kept by (simp add: try_local_def)
  next
    case room: (Inr u)
    show ?thesis
    proof (cases "next_local_op ?x ?in t actor (store_heads ?in t) payload signer kept")
      case (Inl e)
      then show ?thesis using run ok room by (simp add: try_local_def signed_ok_def)
    next
      case (Inr op)
      note n = next_local_ok[OF Inr kept]
      have some: "signed_ok ?x (Some op)" using n(1) by (simp add: signed_ok_def)
      show ?thesis
      proof (cases "check_local ?x ?in op (store_heads ?in t) (topic_state_locked ?in t) effects")
        case (Inl e)
        then show ?thesis using run ok room Inr some by (auto simp: try_local_def Let_def)
      next
        case (Inr mb)
        note next_op = \<open>next_local_op _ _ _ _ _ _ _ _ = Ok op\<close>
        obtain m batch where mb: "mb = (m, batch)" by (cases mb)
        let ?run = "admit_batch_locked ?x (w_fingerprint W) (w_budget W k) batch (w_quota W) (ol_store (w_between W k ol))"
        note ok' = world_okD(4)[OF W ok, of k]
        show ?thesis
        proof (cases ?run)
          case (Inl e)
          then show ?thesis using run ok' room next_op \<open>check_local _ _ _ _ _ _ = Ok mb\<close> mb some by (auto simp: try_local_def Let_def)
        next
          case fin: (Inr inner)
          then have res: "r = Ok (op, m)" "ol' = (w_between W k ol)\<lparr>ol_store := inner\<rparr>" "kept' = None"
            using run room next_op Inr mb by (auto simp: try_local_def Let_def)
          have e: "extends ?x V t (stored_hist ?in t) (topic_state_locked ?in t) batch"
            by (rule check_local_extends[OF log_okD(1,2)[OF ok] world_okD(1)[OF W] V[OF res(1)] n(2,1) Inr[unfolded mb]])
          show ?thesis
            using admit_extends[OF ok' world_okD(1)[OF W] topic_okD(1,2)[OF log_okD(2)[OF ok]] e fin] res(2,3) by (simp add: signed_ok_def)
        qed
      qed
    qed
  qed
  then show "log_ok (w_ext W) V ol'" "signed_ok (w_ext W) kept'" by simp_all
qed

lemma local_attempts_ok:
  assumes W: "world_ok V W"
  shows "log_ok (w_ext W) V ol \<Longrightarrow> signed_ok (w_ext W) kept \<Longrightarrow>
    local_attempts W k n t actor payload signer kept effects ol = (r, ol') \<Longrightarrow> (\<And>op m. r = Ok (op, m) \<Longrightarrow> op \<in> V) \<Longrightarrow>
    log_ok (w_ext W) V ol'"
proof (induction n arbitrary: k kept ol)
  case (Suc n)
  obtain kept1 r1 ol1 where a: "try_local W k t actor payload signer kept effects (w_before W k ol) = (kept1, r1, ol1)"
    by (cases "try_local W k t actor payload signer kept effects (w_before W k ol)")
  have "op \<in> V" if "r1 = Ok (op, m)" for op m using Suc.prems(3,4) that by (auto simp: a)
  note t = try_local_ok[OF world_okD(3)[OF W Suc.prems(1)] W Suc.prems(2) a this]
  show ?case using Suc.IH[OF t] Suc.prems(3,4) t(1) by (auto simp: a split: sum.splits if_splits)
qed simp

section \<open>A topic with its first event\<close>

lemma pair_batch_extends:
  assumes ok: "store_ok x inner" and t: "topic_ok x V inner t" and V: "inj_on o_id V" "first \<in> V" "event \<in> V"
    and first: "b_topic_id (body first) = t" "op_validate x first = Ok ()" "meta_for inner first = Ok m"
    and event: "b_topic_id (body event) = t" "op_validate x event = Ok ()" "b_deps (body event) = {|o_id first|}"
      "b_payload (body event) = Event ev"
    and run: "pair_batch x hold inner (first, m) event (store_heads inner t) (topic_state_locked inner t) effects = Ok (pair, batch)"
  shows "extends x V t (stored_hist inner t) (topic_state_locked inner t) batch" "\<exists>n. pair = ((first, m), (event, n))"
proof -
  let ?H = "stored_hist inner t" and ?gh = "heads_after (store_heads inner t) first"
  note v = stored_view[OF ok t] and h = topic_okD(1)[OF t]
  let ?ov = "\<lparr>bo_ops = fmupd (o_id first) first fmempty, bo_meta = fmupd (o_id first) m fmempty,
    bo_tips = fmupd (t, b_actor_id (body first)) (m_actor_seq m, o_id first) fmempty,
    bo_index = fmupd (t, b_actor_id (body first), m_actor_seq m) (o_id first) fmempty, bo_reset = False\<rparr>"
  obtain state P n where r: "validate_op x inner first = Ok ()" "topic_state_after first ?gh (topic_state_locked inner t) = Ok (Some state)"
    "validate_op_projected x hold inner event ?ov ?gh (Some state) fmempty = Ok (Admit, P)"
    "meta_for_projected inner (fmupd (o_id first) m fmempty) event = Ok n" "pair = ((first, m), (event, n))"
    "ab_topic_id batch = t" "ab_entries batch = [(first, m), (event, n)]"
    "ab_topic_state batch = Some (state\<lparr>t_heads := heads_after ?gh event\<rparr>)"
    "ab_expected_heads batch = store_heads inner t" "ab_expected_topic_state batch = topic_state_locked inner t"
  proof -
    have "\<exists>state answer P. validate_op x inner first = Ok () \<and> topic_state_after first ?gh (topic_state_locked inner t) = Ok (Some state) \<and>
        validate_op_projected x hold inner event ?ov ?gh (Some state) fmempty = Ok (answer, P) \<and> answer \<noteq> Duplicate \<and>
        (\<exists>n. meta_for_projected inner (fmupd (o_id first) m fmempty) event = Ok n \<and> pair = ((first, m), (event, n)) \<and>
        ab_topic_id batch = t \<and> ab_entries batch = [(first, m), (event, n)] \<and>
        ab_topic_state batch = Some (state\<lparr>t_heads := heads_after ?gh event\<rparr>) \<and>
        ab_expected_heads batch = store_heads inner t \<and> ab_expected_topic_state batch = topic_state_locked inner t)"
      using run first(1) by (auto simp: pair_batch_def Let_def rbind_eq_Ok ok_or_eq_Ok split: if_splits)
    then show thesis using that by (metis (full_types) op_admission.exhaust)
  qed
  note o = validate_op_sound[OF ok t V(1,2) first r(1)] and fm = meta_for_matches[OF ok t first(1,3)]
  have st: "state_of (insert first ?H) (Some state)"
    using topic_state_after_of[OF h o(1,4) hist_okD(2)[OF o(5)] view_okD(7)[OF v] r(2)] by simp
  have ov: "overlay_add first m (no_overlay False) = ?ov" using first(1) fm(4) by (simp add: overlay_add_def)
  obtain s' where s': "next_state first (topic_state_locked inner t) = Ok s'"
    using r(2) by (cases "b_payload (body first)") (auto simp: topic_state_after_def next_state_def rbind_eq_Ok)
  have "view_ok x V t inner ?ov ?gh s' (insert first ?H)"
    using view_add[OF v V(2) o(1-5) fm(1-3) s'] by (simp only: ov store_heads_def)
  then have v1: "view_ok x V t inner ?ov ?gh (Some state) (insert first ?H)" using st by (simp add: view_ok_def)
  have deps: "fset (b_deps (body event)) \<subseteq> ids (insert first ?H)" by (simp add: event(3) ids_def)
  note e = admitted_extends[OF v1 V(1,3) _ deps event(1,2) r(3)]
  have P0: "proj_ok V fmempty" by (simp add: proj_ok_def)
  let ?H2 = "insert event (insert first ?H)"
  obtain c where c: "meta_for_projected inner (fmupd (o_id first) m fmempty) event = Ok (meta_of_op event c True {||})"
    "clock_is (deps_past (insert first ?H) event) c"
    using meta_for_seen[OF view_okD(1)[OF v1] view_okD(3)[OF v1] deps event(1)] by auto
  have n: "n = meta_of_op event c True {||}" using c(1) r(4) by simp
  have inj2: "inj_on o_id ?H2" by (rule hist_okD(2)[OF e(6)[OF P0]])
  have p1: "deps_past ?H2 first = deps_past ?H first"
    using deps_past_insert[OF view_okD(1)[OF v1] inj2, of first] deps_past_insert[OF h hist_okD(2)[OF o(5)] op_okD(4)[OF o(1)]]
      op_okD(4)[OF o(1)] by (auto simp: ids_def)
  have p2: "deps_past ?H2 event = deps_past (insert first ?H) event"
    by (rule deps_past_insert[OF view_okD(1)[OF v1] inj2 deps])
  have st2: "state_of ?H2 (Some (state\<lparr>t_heads := heads_after ?gh event\<rparr>))"
    by (rule state_of_heads) (rule next_state_of[OF view_okD(1)[OF v1] e(2)[OF P0] e(5)[OF P0] inj2 st], simp_all add: next_state_def event(4))
  have ne: "o_id event \<noteq> o_id first" "o_id event \<notin> ids ?H" using e(3)[OF P0] by (auto simp: ids_def)
  show "extends x V t ?H (topic_state_locked inner t) batch"
    unfolding extends_def Let_def r(6-10)
    using e(6)[OF P0] V(2,3) topic_okD(2)[OF t] ne o(2) fm(1,3) meta_of_op_matches c(2) p1 p2 st2 view_okD(6)[OF v]
    by (simp add: n insert_commute store_heads_def)
  show "\<exists>n. pair = ((first, m), (event, n))" using r(5) by blast
qed

definition pair_signed_ok :: "externals \<Rightarrow> (operation \<times> operation) option \<Rightarrow> bool" where
  "pair_signed_ok x kept \<longleftrightarrow> signed_ok x (map_option fst kept) \<and> signed_ok x (map_option snd kept)"

definition genesis_ops ::
  "externals \<Rightarrow> memory_inner \<Rightarrow> topic_id \<Rightarrow> actor_id \<Rightarrow> topic_genesis \<Rightarrow> event_envelope \<Rightarrow> signer \<Rightarrow> (operation \<times> operation) option
    \<Rightarrow> (operation \<times> op_meta \<times> operation) result" where
  "genesis_ops x inner topic actor g event signer kept =
    rbind (next_local_op x inner topic actor (store_heads inner topic) (Genesis g) signer (map_option fst kept)) (\<lambda>first_op.
      rbind (meta_for inner first_op) (\<lambda>first_meta.
      rbind (checked_next (m_actor_seq first_meta)) (\<lambda>seq.
      rbind (checked_next (m_generation first_meta)) (\<lambda>generation.
      rbind (reuse_or_sign x signer (map_option snd kept)
        \<lparr>b_topic_id = topic, b_author = sg_peer_id signer, b_actor_id = actor, b_actor_seq = seq,
         b_actor_prev = Some (o_id first_op), b_deps = {|o_id first_op|}, b_generation = generation,
         b_payload = Event event\<rparr>) (\<lambda>event_op. Ok (first_op, first_meta, event_op))))))"

lemma genesis_ops_ok:
  assumes "genesis_ops x inner t actor g event signer kept = Ok (first, m, ev)" "pair_signed_ok x kept"
  shows "op_validate x first = Ok ()" "b_topic_id (body first) = t" "meta_for inner first = Ok m"
    "op_validate x ev = Ok ()" "b_topic_id (body ev) = t" "b_deps (body ev) = {|o_id first|}" "b_payload (body ev) = Event event"
    "pair_signed_ok x (Some (first, ev))"
proof -
  have k: "signed_ok x (map_option fst kept)" "signed_ok x (map_option snd kept)" using assms(2) by (simp_all add: pair_signed_ok_def)
  obtain seq generation where r: "next_local_op x inner t actor (store_heads inner t) (Genesis g) signer (map_option fst kept) = Ok first"
    "meta_for inner first = Ok m"
    "reuse_or_sign x signer (map_option snd kept) \<lparr>b_topic_id = t, b_author = sg_peer_id signer, b_actor_id = actor, b_actor_seq = seq,
         b_actor_prev = Some (o_id first), b_deps = {|o_id first|}, b_generation = generation, b_payload = Event event\<rparr> = Ok ev"
    using assms(1) by (auto simp: genesis_ops_def rbind_eq_Ok)
  note f = next_local_ok[OF r(1) k(1)] and e = reuse_or_sign_ok[OF r(3) k(2)]
  show "op_validate x first = Ok ()" "b_topic_id (body first) = t" "meta_for inner first = Ok m" using f r(2) by simp_all
  show "op_validate x ev = Ok ()" "b_topic_id (body ev) = t" "b_deps (body ev) = {|o_id first|}" "b_payload (body ev) = Event event"
    using e by simp_all
  show "pair_signed_ok x (Some (first, ev))" using f(1) e(1) by (simp add: pair_signed_ok_def signed_ok_def)
qed

lemma try_genesis_ok:
  assumes ok: "log_ok (w_ext W) V ol" and W: "world_ok V W" and kept: "pair_signed_ok (w_ext W) kept"
    and run: "try_genesis W k t actor g event signer kept effects ol = (kept', r, ol')"
    and V: "\<And>a m b n. r = Ok ((a, m), (b, n)) \<Longrightarrow> a \<in> V \<and> b \<in> V"
  shows "log_ok (w_ext W) V ol'" "pair_signed_ok (w_ext W) kept'"
proof -
  let ?x = "w_ext W" and ?in = "ol_store ol"
  let ?ops = "genesis_ops ?x ?in t actor g event signer kept"
  note run' = run[unfolded try_genesis_def Let_def genesis_ops_def[symmetric]]
  have "log_ok ?x V ol' \<and> pair_signed_ok ?x kept'"
  proof (cases ?ops)
    case (Inl e)
    then show ?thesis using run' ok by (simp add: pair_signed_ok_def signed_ok_def)
  next
    case (Inr res)
    obtain first m ev where res: "res = (first, m, ev)" by (cases res)
    note g = genesis_ops_ok[OF Inr[unfolded res] kept]
    let ?pair = "pair_batch ?x (w_hold W k) ?in (first, m) ev (store_heads ?in t) (topic_state_locked ?in t) effects"
    note ok' = world_okD(4)[OF W ok, of k]
    show ?thesis
    proof (cases ?pair)
      case (Inl e)
      then show ?thesis using run' ok g(8) Inr by (auto simp: res)
    next
      case pb: (Inr pb)
      obtain pair batch where b: "pb = (pair, batch)" by (cases pb)
      let ?run = "admit_batch_locked ?x (w_fingerprint W) (w_budget W k) batch (w_quota W) (ol_store (w_between W k ol))"
      show ?thesis
      proof (cases ?run)
        case (Inl e)
        then show ?thesis using run' ok' g(8) Inr pb by (auto simp: res b)
      next
        case fin: (Inr inner)
        have out: "r = Ok pair" "ol' = (w_between W k ol)\<lparr>ol_store := inner\<rparr>" "kept' = None"
          using run' Inr pb fin by (auto simp: res b)
        obtain n where p: "pair = ((first, m), (ev, n))" using pb by (auto simp: b pair_batch_def Let_def rbind_eq_Ok split: if_splits)
        have inV: "first \<in> V" "ev \<in> V" using V out(1) p by blast+
        have e: "extends ?x V t (stored_hist ?in t) (topic_state_locked ?in t) batch"
          by (rule pair_batch_extends[OF log_okD(1,2)[OF ok] world_okD(1)[OF W] inV g(2,1,3,5,4,6,7) pb[unfolded b]])
        show ?thesis
          using admit_extends[OF ok' world_okD(1)[OF W] topic_okD(1,2)[OF log_okD(2)[OF ok]] e fin] out(2,3)
          by (simp add: pair_signed_ok_def signed_ok_def)
      qed
    qed
  qed
  then show "log_ok (w_ext W) V ol'" "pair_signed_ok (w_ext W) kept'" by simp_all
qed

lemma genesis_attempts_ok:
  assumes W: "world_ok V W"
  shows "log_ok (w_ext W) V ol \<Longrightarrow> pair_signed_ok (w_ext W) kept \<Longrightarrow>
    genesis_attempts W k n t actor g event signer kept effects ol = (r, ol') \<Longrightarrow>
    (\<And>a m b n. r = Ok ((a, m), (b, n)) \<Longrightarrow> a \<in> V \<and> b \<in> V) \<Longrightarrow> log_ok (w_ext W) V ol'"
proof (induction n arbitrary: k kept ol)
  case (Suc n)
  obtain kept1 r1 ol1 where a: "try_genesis W k t actor g event signer kept effects (w_before W k ol) = (kept1, r1, ol1)"
    by (cases "try_genesis W k t actor g event signer kept effects (w_before W k ol)")
  have "p \<in> V \<and> q \<in> V" if "r1 = Ok ((p, m), (q, n))" for p m q n using Suc.prems(3,4) that by (auto simp: a)
  note t = try_genesis_ok[OF world_okD(3)[OF W Suc.prems(1)] W Suc.prems(2) a this]
  show ?case using Suc.IH[OF t] Suc.prems(3,4) t(1) by (auto simp: a split: sum.splits if_splits)
qed simp

section \<open>Rebuilding a topic\<close>

lemma stored_sound:
  assumes ok: "log_ok x V ol" and op: "op \<in> stored_hist (ol_store ol) t"
  shows "sound_op x V verified op"
  using topic_okD(2)[OF log_okD(2)[OF ok]] op op_okD(2)[OF hist_okD(4)[OF topic_okD(1)[OF log_okD(2)[OF ok]] op]]
  by (auto simp: sound_op_def)

lemma survivors_stored:
  assumes ok: "log_ok x V ol" and run: "plan_quarantine (ol_store ol) t = Some plan" and op: "op \<in> set (qp_survivors plan)"
  shows "sound_op x V verified op"
proof -
  obtain i where i: "fmlookup (mi_ops (ol_store ol)) i = Some op"
    using run op by (auto simp: plan_quarantine_def Let_def List.map_filter_def split: option.splits if_splits)
  obtain m where "o_id op = i" by (rule stored_op[OF store_okD(3)[OF log_okD(1)[OF ok]] i])
  then have "op \<in> stored_hist (ol_store ol) (b_topic_id (body op))" using i by (simp add: stored_hist_def)
  then show ?thesis by (rule stored_sound[OF ok])
qed

lemma quarantine_attempts_ok:
  assumes W: "world_ok V W"
  shows "log_ok (w_ext W) V ol \<Longrightarrow> quarantine_attempts W k n t checked ol = (r, ol') \<Longrightarrow> log_ok (w_ext W) V ol'"
proof (induction n arbitrary: k checked ol)
  case (Suc n)
  define ol0 where "ol0 = w_before W k ol"
  have ok0: "log_ok (w_ext W) V ol0" using world_okD(3)[OF W Suc.prems(1)] by (simp add: ol0_def)
  show ?case
  proof (cases "plan_quarantine (ol_store ol0) t")
    case None
    then show ?thesis using Suc.prems(2) ok0 by (simp add: ol0_def)
  next
    case (Some plan)
    show ?thesis
    proof (cases "check_survivors (w_ext W) (qp_survivors plan) checked")
      case (Inl e)
      then show ?thesis using Suc.prems(2) ok0 Some by (simp add: ol0_def)
    next
      case (Inr checked')
      let ?ev = "\<lparr>v_topic_id = t, v_losing_genesis = t_genesis (qp_state plan), v_winning_genesis = t_genesis (qp_state plan),
        v_evicted = qp_evicted plan\<rparr>"
      obtain r1 ol1 where a: "admit_ops_batch W k None (qp_survivors plan) checked'
          (Some \<lparr>rp_expected_state = qp_state plan, rp_eviction = ?ev\<rparr>) None ol0 = (r1, ol1)"
        by (cases "admit_ops_batch W k None (qp_survivors plan) checked'
          (Some \<lparr>rp_expected_state = qp_state plan, rp_eviction = ?ev\<rparr>) None ol0")
      have ok1: "log_ok (w_ext W) V ol1" by (rule admit_ops_batch_ok[OF ok0 W survivors_stored[OF ok0 Some] a])
      show ?thesis
        using Suc.prems(2) Suc.IH[OF ok1, of "Suc k" checked'] ok1 Some Inr a by (auto simp: ol0_def[symmetric] Let_def split: sum.splits if_splits)
    qed
  qed
qed simp

end
