(* ===== verification/Oplog_Facade.thy ===== *)
theory Oplog_Facade
  imports Oplog_Quarantine
begin

text \<open>
  The op log's public calls, \<open>oplog/mod.rs\<close> and \<open>oplog/creation.rs\<close>: a new log over an empty store, the ways
  to receive operations, and the creations whose batches carry no effects.
\<close>

section \<open>The log\<close>

definition with_storage :: "memory_inner \<Rightarrow> oplog" where
  "with_storage inner =
    \<lparr>ol_store = inner, ol_epoch = 0, ol_states = fmempty, ol_order = [], ol_receive_genesis = None\<rparr>"

definition oplog_new :: oplog where
  "oplog_new = with_storage inner_new"

definition bound_genesis :: "oplog \<Rightarrow> topic_id \<Rightarrow> op_id \<Rightarrow> oplog" where
  "bound_genesis ol topic genesis = ol\<lparr>ol_receive_genesis := Some (topic, genesis)\<rparr>"

text \<open>The integrity verdicts it also clears are not part of the state.\<close>

definition recheck_topics :: "oplog \<Rightarrow> oplog" where
  "recheck_topics ol = clear_cache ol"

definition oplog_observed_clock :: "oplog \<Rightarrow> topic_id \<Rightarrow> actor_clock" where
  "oplog_observed_clock ol topic = store_actor_clock (ol_store ol) topic"

section \<open>Receiving\<close>

type_synonym 'a call = "('a result \<times> nat \<times> oplog) option"

definition call_map :: "('a \<Rightarrow> 'b) \<Rightarrow> 'a call \<Rightarrow> 'b call" where
  "call_map f = map_option (\<lambda>(r, rest). (case r of Ok a \<Rightarrow> Ok (f a) | Err e \<Rightarrow> Err e, rest))"

definition receive_preverified ::
  "world \<Rightarrow> nat \<Rightarrow> peer_id option \<Rightarrow> operation list \<Rightarrow> op_id btree_set \<Rightarrow> receive_effects option \<Rightarrow> oplog \<Rightarrow> admitted call" where
  "receive_preverified W k source ops verified effects ol = receive_ops_admission W k source ops verified effects ol"

definition receive_ops_from_peer_evicting ::
  "world \<Rightarrow> nat \<Rightarrow> peer_id option \<Rightarrow> operation list \<Rightarrow> oplog \<Rightarrow> admitted call" where
  "receive_ops_from_peer_evicting W k source ops ol = receive_ops_admission W k source ops {||} None ol"

definition receive_ops_from_peer ::
  "world \<Rightarrow> nat \<Rightarrow> peer_id option \<Rightarrow> operation list \<Rightarrow> oplog \<Rightarrow> op_id btree_set call" where
  "receive_ops_from_peer W k source ops ol = call_map a_accepted (receive_ops_admission W k source ops {||} None ol)"

definition receive_ops :: "world \<Rightarrow> nat \<Rightarrow> operation list \<Rightarrow> oplog \<Rightarrow> op_id btree_set call" where
  "receive_ops W k ops ol = receive_ops_from_peer W k None ops ol"

definition receive_op :: "world \<Rightarrow> nat \<Rightarrow> operation \<Rightarrow> oplog \<Rightarrow> unit call" where
  "receive_op W k op ol = call_map (\<lambda>_. ()) (receive_ops W k [op] ol)"

definition receive_signed_op :: "world \<Rightarrow> nat \<Rightarrow> signed_op \<Rightarrow> oplog \<Rightarrow> operation call" where
  "receive_signed_op W k s ol =
    (case op_new (w_ext W) s of
       Err e \<Rightarrow> Some (Err e, k, ol)
     | Ok op \<Rightarrow> call_map (\<lambda>_. op) (receive_op W k op ol))"

section \<open>Creating\<close>

definition no_effects :: local_effects where
  "no_effects op m s = Ok \<lparr>ef_sync_obligations = []\<rparr>"

definition run_map :: "('a \<Rightarrow> 'b) \<Rightarrow> 'a run \<Rightarrow> 'b run" where
  "run_map f = (\<lambda>(r, ol). (case r of Ok a \<Rightarrow> Ok (f a) | Err e \<Rightarrow> Err e, ol))"

definition create_topic_genesis ::
  "world \<Rightarrow> nat \<Rightarrow> topic_id \<Rightarrow> actor_id \<Rightarrow> topic_genesis \<Rightarrow> signer \<Rightarrow> oplog \<Rightarrow> operation run" where
  "create_topic_genesis W k topic actor g signer ol = run_map fst (create_topic_effects W k topic actor g signer no_effects ol)"

definition create_topic_genesis_with_event ::
  "world \<Rightarrow> nat \<Rightarrow> topic_id \<Rightarrow> actor_id \<Rightarrow> topic_genesis \<Rightarrow> event_envelope \<Rightarrow> signer \<Rightarrow> oplog \<Rightarrow> (operation \<times> operation) run" where
  "create_topic_genesis_with_event W k topic actor g event signer ol =
    run_map (\<lambda>((genesis, _), (event, _)). (genesis, event)) (create_genesis_effects W k topic actor g event signer no_effects ol)"

definition create_event_op ::
  "world \<Rightarrow> nat \<Rightarrow> topic_id \<Rightarrow> actor_id \<Rightarrow> event_envelope \<Rightarrow> signer \<Rightarrow> oplog \<Rightarrow> operation run" where
  "create_event_op W k topic actor event signer ol = run_map fst (create_event_effects W k topic actor event signer no_effects ol)"

definition create_control_op ::
  "world \<Rightarrow> nat \<Rightarrow> topic_id \<Rightarrow> actor_id \<Rightarrow> topic_control \<Rightarrow> signer \<Rightarrow> oplog \<Rightarrow> operation run" where
  "create_control_op W k topic actor control signer ol = run_map fst (create_control_effects W k topic actor control signer no_effects ol)"

end
