(* ===== verification/Oplog_Reach.thy ===== *)
theory Oplog_Reach
  imports Creation_Sound Oplog_Facade
begin

text \<open>
  The op logs a process can reach: sequences of the op log's calls, during each of which other writers
  of the same store run calls of their own, and of the store's transactions that keep its operations.
\<close>

inductive log_steps :: "externals \<Rightarrow> operation set \<Rightarrow> oplog \<Rightarrow> oplog \<Rightarrow> bool" for x V where
  steps_refl: "log_steps x V ol ol"
| steps_trans: "log_steps x V a b \<Longrightarrow> log_steps x V b c \<Longrightarrow> log_steps x V a c"
| steps_receive: "w_ext W = x \<Longrightarrow> (\<And>k ol. log_steps x V ol (w_before W k ol)) \<Longrightarrow> (\<And>k ol. log_steps x V ol (w_between W k ol)) \<Longrightarrow>
    (\<And>op. op \<in> set ops \<Longrightarrow> sound_op x V verified op) \<Longrightarrow>
    receive_preverified W k source ops verified effects ol = Some (r, k', ol') \<Longrightarrow> log_steps x V ol ol'"
| steps_create: "w_ext W = x \<Longrightarrow> (\<And>k ol. log_steps x V ol (w_before W k ol)) \<Longrightarrow> (\<And>k ol. log_steps x V ol (w_between W k ol)) \<Longrightarrow>
    create_local_effects W k topic actor payload signer local ol = (r1, ol') \<Longrightarrow> (\<And>op m. r1 = Ok (op, m) \<Longrightarrow> op \<in> V) \<Longrightarrow>
    log_steps x V ol ol'"
| steps_genesis: "w_ext W = x \<Longrightarrow> (\<And>k ol. log_steps x V ol (w_before W k ol)) \<Longrightarrow> (\<And>k ol. log_steps x V ol (w_between W k ol)) \<Longrightarrow>
    create_genesis_effects W k topic actor g event signer local ol = (r2, ol') \<Longrightarrow>
    (\<And>a m b n. r2 = Ok ((a, m), (b, n)) \<Longrightarrow> a \<in> V \<and> b \<in> V) \<Longrightarrow> log_steps x V ol ol'"
| steps_reconcile: "w_ext W = x \<Longrightarrow> (\<And>k ol. log_steps x V ol (w_before W k ol)) \<Longrightarrow> (\<And>k ol. log_steps x V ol (w_between W k ol)) \<Longrightarrow>
    reconcile_pending_ops W k ol = Some (r3, ol') \<Longrightarrow> log_steps x V ol ol'"
| steps_quarantine: "w_ext W = x \<Longrightarrow> (\<And>k ol. log_steps x V ol (w_before W k ol)) \<Longrightarrow> (\<And>k ol. log_steps x V ol (w_between W k ol)) \<Longrightarrow>
    quarantine_orphans W k topic ol = (r4, ol') \<Longrightarrow> log_steps x V ol ol'"
| steps_recheck: "log_steps x V ol (recheck_topics ol)"
| steps_bound: "log_steps x V ol (bound_genesis ol topic genesis)"
| steps_store: "mem_step x fingerprint (ol_store ol) inner \<Longrightarrow> mi_ops inner = mi_ops (ol_store ol) \<Longrightarrow>
    mi_meta inner = mi_meta (ol_store ol) \<Longrightarrow> mi_topics inner = mi_topics (ol_store ol) \<Longrightarrow>
    pending_sub (ol_store ol) inner \<Longrightarrow> log_steps x V ol (ol\<lparr>ol_store := inner\<rparr>)"
| steps_reset: "reset_topic_locked x budget topic (ol_store ol) = Ok (n, inner) \<Longrightarrow> log_steps x V ol (ol\<lparr>ol_store := inner\<rparr>)"

definition log_reachable :: "externals \<Rightarrow> operation set \<Rightarrow> oplog \<Rightarrow> bool" where
  "log_reachable x V ol \<longleftrightarrow> inj_on o_id V \<and> sizes_ok x \<and> log_steps x V oplog_new ol"

lemma world_of:
  assumes "inj_on o_id V" "sizes_ok x" "w_ext W = x" "\<And>k ol. log_ok x V ol \<longrightarrow> log_ok x V (w_before W k ol)"
    "\<And>k ol. log_ok x V ol \<longrightarrow> log_ok x V (w_between W k ol)"
  shows "world_ok V W"
  using assms by (simp add: world_ok_def)

lemma log_steps_ok:
  assumes V: "inj_on o_id V" "sizes_ok x"
  shows "log_steps x V ol ol' \<Longrightarrow> log_ok x V ol \<longrightarrow> log_ok x V ol'"
proof (induction rule: log_steps.induct)
  case (steps_receive W ops verified k source effects ol r k' ol')
  note W = world_of[OF V steps_receive.hyps(1) steps_receive.IH]
  have "log_ok (w_ext W) V ol'" if "log_ok (w_ext W) V ol"
    by (rule receive_ops_ok[OF that W _ steps_receive.hyps(5)[unfolded receive_preverified_def]])
      (use steps_receive.hyps(1,4) in simp)
  then show ?case using steps_receive.hyps(1) by simp
next
  case (steps_create W k topic actor payload signer local ol r1 ol')
  note W = world_of[OF V steps_create.hyps(1) steps_create.IH]
  show ?case
    using local_attempts_ok[OF W, of ol None k MAX_ADMISSION_RETRIES topic actor payload signer local r1 ol'] steps_create.hyps
    by (auto simp: create_local_effects_def signed_ok_def split: sum.splits)
next
  case (steps_genesis W k topic actor g event signer local ol r2 ol')
  note W = world_of[OF V steps_genesis.hyps(1) steps_genesis.IH]
  show ?case
    using genesis_attempts_ok[OF W, of ol None k MAX_ADMISSION_RETRIES topic actor "own_genesis g signer" event signer local r2 ol'] steps_genesis.hyps
    by (auto simp: create_genesis_effects_def pair_signed_ok_def signed_ok_def split: sum.splits)
next
  case (steps_reconcile W k ol r3 ol')
  note W = world_of[OF V steps_reconcile.hyps(1) steps_reconcile.IH]
  show ?case using reconcile_ok[OF W] steps_reconcile.hyps by (auto simp: reconcile_pending_ops_def)
next
  case (steps_quarantine W k topic ol r4 ol')
  note W = world_of[OF V steps_quarantine.hyps(1) steps_quarantine.IH]
  show ?case using quarantine_attempts_ok[OF W] steps_quarantine.hyps by (auto simp: quarantine_orphans_def split: if_splits)
next
  case (steps_recheck ol)
  then show ?case by (simp add: recheck_topics_def clear_cache_ok)
next
  case (steps_bound ol topic genesis)
  then show ?case by (simp add: bound_genesis_def log_ok_def)
next
  case (steps_store fingerprint ol inner)
  show ?case
  proof
    assume ok: "log_ok x V ol"
    show "log_ok x V (ol\<lparr>ol_store := inner\<rparr>)"
      by (rule log_ok_store[OF ok mem_step_keeps[OF steps_store(1) V(2) log_okD(1)[OF ok]]])
        (use topic_ok_cong[OF steps_store(2-4)] log_okD(2)[OF ok] steps_store(5) in auto)
  qed
next
  case (steps_reset budget topic ol n inner)
  show ?case
  proof
    assume ok: "log_ok x V ol"
    show "log_ok x V (ol\<lparr>ol_store := inner\<rparr>)"
      by (rule log_ok_store[OF ok reset_topics(1,2)[OF log_okD(1,2)[OF ok] steps_reset] reset_topic_pending[OF steps_reset]])
  qed
qed simp_all

lemma new_log_ok: "log_ok x V oplog_new"
proof -
  have "store_ok x inner_new" by (rule store_ok_new)
  moreover have "stored_hist inner_new t = {}" for t by (simp add: stored_hist_def inner_new_def)
  ultimately show ?thesis
    by (simp add: log_ok_def oplog_new_def with_storage_def topic_ok_def proj_ok_def state_of_def) (simp add: inner_new_def)
qed

lemma log_reachable_ok: "log_reachable x V ol \<Longrightarrow> log_ok x V ol"
  using log_steps_ok new_log_ok by (auto simp: log_reachable_def)

end
