(* ===== verification/Receive_Effects.thy ===== *)
theory Receive_Effects
  imports Oplog_Reach
begin

text \<open>
  What receiving operations does to the stored ones when no other writer interferes: the answer names
  exactly what was stored, also when the call fails half-way, and draining the pending pool only adds.
\<close>

section \<open>Stored operations\<close>

definition stored :: "memory_inner \<Rightarrow> operation set" where
  "stored inner = {op. fmlookup (mi_ops inner) (o_id op) = Some op}"

lemma stored_hist_stored: "stored_hist inner t = {op \<in> stored inner. b_topic_id (body op) = t}"
  by (auto simp: stored_def stored_hist_def)

lemma stored_eq: "(\<And>t. stored_hist a t = stored_hist b t) \<Longrightarrow> stored a = stored b"
  unfolding stored_hist_stored by blast

text \<open>
  An answer reports a change of the stored operations: what it accepted is stored, what is new was
  accepted, and what is gone belongs to a topic it evicted.
\<close>

definition reported :: "admitted \<Rightarrow> operation set \<Rightarrow> operation set \<Rightarrow> bool" where
  "reported a before after \<longleftrightarrow> fset (a_accepted a) \<subseteq> ids (after) \<and>
    (\<forall>op \<in> after. op \<in> before \<or> o_id op |\<in>| a_accepted a) \<and>
    (\<forall>op \<in> before. op \<in> after \<or> b_topic_id (body op) \<in> v_topic_id ` set (a_evictions a))"

lemma reported_same: "after = before \<Longrightarrow> reported no_admitted before after"
  by (simp add: reported_def no_admitted_def)

lemma reported_nothing: "reported a before after \<Longrightarrow> a_accepted a = {||} \<Longrightarrow> a_evictions a = [] \<Longrightarrow> after = before"
  by (auto simp: reported_def)

lemma reported_grow:
  assumes "reported a i0 i1" "i1 \<subseteq> i2" "fset acc \<subseteq> ids (i2)"
    "\<forall>op \<in> i2. op \<in> i1 \<or> o_id op |\<in>| acc"
    "fset (a_accepted a') = fset (a_accepted a) \<union> fset acc" "a_evictions a' = a_evictions a"
  shows "reported a' i0 i2"
  using assms unfolding reported_def ids_def by (auto simp: image_iff; blast)

text \<open>An error reports a change when it carries such an answer.\<close>

definition error_reports :: "error \<Rightarrow> operation set \<Rightarrow> operation set \<Rightarrow> bool" where
  "error_reports e before after \<longleftrightarrow> after = before \<or> (\<exists>a src. e = AdmissionCommitted a src \<and> reported a before after)"

lemma failure_reports:
  assumes "reported a before after" "\<And>b src. e \<noteq> AdmissionCommitted b src"
  shows "error_reports (admission_failure a e) before after"
proof -
  have "admission_failure a e = (if a_accepted a = {||} \<and> a_evictions a = [] then e else AdmissionCommitted a e)"
    using assms(2) by (auto simp: admission_failure_def split: error.splits)
  then show ?thesis using assms(1) reported_nothing[OF assms(1)] by (auto simp: error_reports_def)
qed

section \<open>Errors\<close>

text \<open>The memory budget answers with an error of its own.\<close>

definition plain_budget :: "world \<Rightarrow> bool" where
  "plain_budget W \<longleftrightarrow> (\<forall>k r a src. w_budget W k r \<noteq> Err (AdmissionCommitted a src))"

lemma put_pending_plain:
  assumes "plain_budget W" "put_pending_bound x (w_budget W k) quota source op m genesis inner = Err e"
  shows "e \<noteq> AdmissionCommitted a src"
proof
  assume e: "e = AdmissionCommitted a src"
  have "check_waiters inner p missing \<noteq> Err (AdmissionCommitted a src)" for p missing
  proof -
    have "fold_res (\<lambda>dep _. if \<not> (case p of None \<Rightarrow> False | Some old \<Rightarrow> dep |\<in>| old) \<and>
         fcard (get_or {||} (mi_pending_waiters inner) dep) \<ge> MAX_PENDING_WAITERS_PER_DEP
      then Err (Storage ''pending waiter quota exceeded'') else Ok ()) ds () \<noteq> Err (AdmissionCommitted a src)" for ds
      by (induction ds) (auto simp: rbind_eq_Err)
    then show ?thesis by (simp add: check_waiters_def)
  qed
  then have "buffer_pending (w_budget W k) quota source op missing charge p inner \<noteq> Err (AdmissionCommitted a src)" for missing charge p
    using assms(1) by (auto simp: buffer_pending_def rbind_eq_Err Let_def quota_check_def check_pending_quota_def plain_budget_def split: option.splits if_splits)
  then show False
    using assms(2) unfolding e
    by (auto simp: put_pending_bound_def rbind_eq_Err Let_def pending_op_bytes_def branch_matches_def ok_or_eq_Err split: option.splits if_splits)
qed

lemma put_pending_all_plain:
  assumes W: "plain_budget W"
  shows "put_pending_all W k source topic ps ol = (Err e, ol') \<Longrightarrow> e \<noteq> AdmissionCommitted a src"
proof (induction ps arbitrary: ol)
  case (Cons p ps)
  obtain op d where p: "p = (op, d)" by (cases p)
  obtain r ol1 where one: "put_pending_one W k source topic p ol = (r, ol1)" by (cases "put_pending_one W k source topic p ol")
  show ?case
  proof (cases r)
    case (Inl e')
    then have "e' = e" using Cons.prems by (simp add: one)
    then show ?thesis
      using one Inl put_pending_plain[OF W] by (auto simp: p put_pending_one_def Let_def split: sum.splits error.splits)
  next
    case (Inr u)
    then show ?thesis using Cons by (auto simp: one)
  qed
qed simp

lemma verdict_plain: "verdict_of inner op err = Err e \<Longrightarrow> e \<noteq> AdmissionCommitted a src"
  by (auto simp: verdict_of_def position_impossible_def checked_next_def rbind_eq_Err ok_or_eq_Err Let_def split: error.splits option.splits if_splits)

section \<open>One batch\<close>

text \<open>No other writer interferes.\<close>

definition quiet :: "world \<Rightarrow> bool" where
  "quiet W \<longleftrightarrow> (\<forall>k ol. w_before W k ol = ol \<and> w_between W k ol = ol)"

lemma quiet_world: "quiet W \<Longrightarrow> inj_on o_id V \<Longrightarrow> sizes_ok (w_ext W) \<Longrightarrow> world_ok V W"
  by (simp add: quiet_def world_ok_def)

lemma commit_effect:
  assumes ok: "log_ok (w_ext W) V ol" and V: "inj_on o_id V" and H: "hist_ok (w_ext W) t H" "H \<subseteq> V"
    and e: "extends (w_ext W) V t (if plan = None then H else {}) (if plan = None then s else None) batch"
    and run: "commit_batch W k plan batch ol = (r, ol')"
  shows "case r of Err _ \<Rightarrow> ol' = ol
    | Ok _ \<Rightarrow> stored (ol_store ol') = {op \<in> stored (ol_store ol). plan = None \<or> b_topic_id (body op) \<noteq> t} \<union> fst ` set (ab_entries batch)"
proof (cases r)
  case (Inl err)
  then show ?thesis using run by (auto simp: commit_batch_def split: option.splits sum.splits if_splits)
next
  case (Inr u)
  note t = extendsD(1)[OF e]
  have top: "b_topic_id (body op) = t" if "op \<in> fst ` set (ab_entries batch)" for op
    using op_okD(1)[OF hist_okD(4)[OF extendsD(2)[OF e]]] that by blast
  show ?thesis
  proof (cases plan)
    case None
    show ?thesis
    proof (cases "ab_entries batch = []")
      case True
      then show ?thesis using run None Inr by (simp add: commit_batch_def)
    next
      case False
      then obtain inner where a: "admit_batch_locked (w_ext W) (w_fingerprint W) (w_budget W k) batch (w_quota W) (ol_store ol) = Ok inner"
        "ol' = ol\<lparr>ol_store := inner\<rparr>"
        using run None Inr by (auto simp: commit_batch_def split: sum.splits)
      have e': "extends (w_ext W) V t H s batch" using e None by simp
      note c = commit_extends[OF log_okD(1,2)[OF ok] V H e' a(1)]
      have "op \<in> stored inner \<longleftrightarrow> op \<in> stored (ol_store ol) \<or> op \<in> fst ` set (ab_entries batch)" for op
        using c(3,4) c(5)[of "b_topic_id (body op)"] top[of op]
        by (cases "b_topic_id (body op) = t") (auto simp: stored_hist_stored)
      then show ?thesis using Inr None a(2) by auto
    qed
  next
    case (Some p)
    obtain n inner where a: "reset_topic_and_admit (w_ext W) (w_fingerprint W) (w_budget W k) (w_namespace W) t
        (rp_expected_state p) batch (Some (rp_eviction p)) (ol_store ol) = Ok (n, inner)" "ol_store ol' = inner"
      using run Some Inr t by (auto simp: commit_batch_def clear_cache_def split: sum.splits)
    have e': "extends (w_ext W) V t {} None batch" using e Some by simp
    note c = commit_replace[OF log_okD(1,2)[OF ok] V e' a(1)]
    have "op \<in> stored inner \<longleftrightarrow> op \<in> stored (ol_store ol) \<and> b_topic_id (body op) \<noteq> t \<or> op \<in> fst ` set (ab_entries batch)" for op
      using c(3) c(4)[of "b_topic_id (body op)"] top[of op]
      by (cases "b_topic_id (body op) = t") (auto simp: stored_hist_stored)
    then show ?thesis using Inr Some a(2) by auto
  qed
qed

lemma put_pending_stored: "put_pending_all W k source topic ps ol = (r, ol') \<Longrightarrow> log_ok (w_ext W) V ol \<Longrightarrow> sizes_ok (w_ext W) \<Longrightarrow>
  (\<And>op d. (op, d) \<in> set ps \<Longrightarrow> op \<in> V \<and> op_validate (w_ext W) op = Ok () \<and> b_deps (body op) \<noteq> {||}) \<Longrightarrow>
  stored (ol_store ol') = stored (ol_store ol)"
proof (induction ps arbitrary: ol)
  case (Cons p ps)
  obtain op d where p: "p = (op, d)" by (cases p)
  obtain r1 ol1 where one: "put_pending_one W k source topic p ol = (r1, ol1)" by (cases "put_pending_one W k source topic p ol")
  have ok: "log_ok (w_ext W) V ol1"
    by (rule put_pending_one_ok[OF Cons.prems(2,3) _ _ _ one[unfolded p]]) (use Cons.prems(4)[of op d] p in auto)
  have "mi_ops inner = mi_ops (ol_store ol)" if "put_pending_bound (w_ext W) b q src op m g (ol_store ol) = Ok inner" for b q src m g inner
  proof (rule outside_poolD(1))
    show "outside_pool inner = outside_pool (ol_store ol)"
      using put_pending_Ok[OF that store_okD(4,5)[OF log_okD(1)[OF Cons.prems(2)]]] Cons.prems(3) by (auto simp: sizes_ok_def)
  qed
  then have same: "mi_ops (ol_store ol1) = mi_ops (ol_store ol)"
    using one by (auto simp: p put_pending_one_def Let_def split: sum.splits error.splits)
  show ?case using Cons.IH[OF _ ok Cons.prems(3)] Cons.prems(1,4) same by (cases r1) (auto simp: one stored_def)
qed simp

lemma cache_stored: "ol_store (fold (cache_projection P) is ol) = ol_store ol"
  by (induction "is" arbitrary: ol) (simp_all add: cache_projection_def Let_def case_prod_unfold split: option.splits)

lemma topological_ops_set:
  assumes "inj_on o_id (set ops)" "topological_ops ops = Ok out"
  shows "distinct out" "set out = set ops"
proof -
  obtain out' indeg where o: "order_inv (batch_by_id ops) {||} indeg out'"
    "topological_ops ops = (if acyclic (batch_relation ops) then Ok out' else Err (Storage ''cycle in input op batch''))"
    using topological_ops_run[where P = "\<lambda>_. True"] batch_relation_dep_rel[OF assms(1)] by metis
  then have "out' = out" "acyclic (batch_relation ops)" using assms(2) by (auto split: if_splits)
  then show "distinct out" "set out = set ops" using order_inv_out[OF o(1) assms(1)] order_done_all[OF o(1) assms(1)] by auto
qed

lemma build_batch_topic:
  assumes "inj_on o_id (set ops)" "build_batch x hold rg cached inner source ops verified reset effects = Ok (Some built)" "op \<in> set ops"
  shows "b_topic_id (body op) = ab_topic_id (bb_batch built)"
proof -
  obtain sorted where s: "topological_ops ops = Ok sorted" using assms(2) by (auto simp: build_batch_def rbind_eq_Ok)
  obtain first rest where f: "sorted = first # rest" using assms(2) s by (cases sorted) (auto simp: build_batch_def)
  have "\<not> list_ex (\<lambda>op. b_topic_id (body op) \<noteq> b_topic_id (body first)) sorted" "ab_topic_id (bb_batch built) = b_topic_id (body first)"
    using assms(2) by (auto simp: build_batch_def s f Let_def rbind_eq_Ok finish_batch_def split: if_splits)
  then show ?thesis using topological_ops_set(2)[OF assms(1) s] assms(3) by (auto simp: list_ex_iff)
qed

lemma build_batch_None:
  assumes "build_batch x hold rg cached inner source ops verified reset effects = Ok None"
  shows "topological_ops ops = Ok []"
proof -
  obtain sorted where s: "topological_ops ops = Ok sorted" using assms by (auto simp: build_batch_def rbind_eq_Ok)
  then show ?thesis using assms by (cases sorted) (auto simp: build_batch_def rbind_eq_Ok Let_def split: if_splits)
qed

lemma single_build:
  assumes "build_batch x hold rg cached inner source [op] verified reset effects = Ok (Some built)"
  shows "bb_pending built = [] \<or> bb_accepted built = {||}"
proof -
  obtain sorted where s: "topological_ops [op] = Ok sorted" using assms by (auto simp: build_batch_def rbind_eq_Ok)
  have set1: "distinct sorted" "set sorted = {op}" using topological_ops_set[OF _ s] by simp_all
  then have "length sorted = 1" using distinct_card[of sorted] by simp
  then have sorted: "sorted = [op]" using set1(2) by (cases sorted) auto
  obtain start bl where b: "build_op x hold inner verified reset op start = Ok bl" "bl_pending start = []" "bl_accepted start = {||}"
    "bb_pending built = bl_pending bl" "bb_accepted built = bl_accepted bl"
    using assms by (auto simp: build_batch_def s sorted Let_def rbind_eq_Ok finish_batch_def build_start_def split: if_splits)
  have "bl_pending bl = [] \<or> bl_accepted bl = {||}"
    using b(1-3) unfolding build_op_def rbind_eq_Ok Let_def
    by (auto simp: rbind_eq_Ok append_op_def accept_op_def Let_def split: if_splits)
  then show ?thesis using b(4,5) by simp
qed

definition plan_evictions :: "reset_plan option \<Rightarrow> topic_eviction list" where
  "plan_evictions plan = (case plan of None \<Rightarrow> [] | Some p \<Rightarrow> [rp_eviction p])"

lemma admit_ops_batch_effect:
  assumes ok: "log_ok (w_ext W) V ol" and W: "quiet W" "inj_on o_id V" "sizes_ok (w_ext W)" "plain_budget W"
    and ops: "\<And>op. op \<in> set ops \<Longrightarrow> op \<in> V \<and> op_validate (w_ext W) op = Ok ()"
    and plan: "\<And>p. plan = Some p \<Longrightarrow> \<exists>op \<in> set ops. b_topic_id (body op) = v_topic_id (rp_eviction p)"
    and run: "admit_ops_batch W k source ops verified plan effects ol = (r, ol')"
  defines "s \<equiv> stored (ol_store ol)" and "s' \<equiv> stored (ol_store ol')"
  shows "case r of
      Ok acc \<Rightarrow> reported \<lparr>a_accepted = acc, a_evictions = plan_evictions plan, a_ready_remaining = b\<rparr> s s' \<and>
        (plan = None \<longrightarrow> s \<subseteq> s' \<and> (acc \<noteq> {||} \<longrightarrow> s' \<noteq> s))
    | Err e \<Rightarrow> error_reports e s s' \<and> (plan = None \<longrightarrow> s \<subseteq> s' \<and> (length ops = 1 \<longrightarrow> s' = s))"
proof -
  define ol0 where "ol0 = (if plan = None then ol else clear_cache ol)"
  have same: "ol_store ol0 = ol_store ol" by (simp add: ol0_def clear_cache_def)
  have ok0: "log_ok (w_ext W) V ol0" using ok by (simp add: ol0_def clear_cache_ok)
  have still: "w_between W k ol0 = ol0" using W(1) by (simp add: quiet_def)
  let ?build = "build_batch (w_ext W) (w_hold W k) (ol_receive_genesis ol0) (ol_states ol0) (ol_store ol0) source ops verified (plan \<noteq> None) effects"
  note run' = run[unfolded admit_ops_batch_def ol0_def[symmetric] Let_def still]
  show ?thesis
  proof (cases "\<exists>built. ?build = Ok (Some built)")
    case False
    then have "ol' = ol0 \<and> (\<forall>acc. r = Ok acc \<longrightarrow> acc = {||} \<and> ?build = Ok None)" using run' by (auto split: sum.splits option.splits)
    moreover have "plan = None" if none: "?build = Ok None"
    proof (rule ccontr)
      assume "plan \<noteq> None"
      then obtain op where op: "op \<in> set ops" using plan by blast
      have "inj_on o_id (set ops)" using ops W(2) by (auto intro: inj_on_subset)
      from topological_ops_set(2)[OF this build_batch_None[OF none]] show False using op by simp
    qed
    ultimately show ?thesis
      by (cases r) (auto simp: s_def s'_def same error_reports_def reported_def plan_evictions_def)
  next
    case True
    then obtain built where built: "?build = Ok (Some built)" by blast
    have sound: "(op_validate (w_ext W) op = Ok () \<longrightarrow> op \<in> V) \<and> (o_id op |\<in>| verified \<longrightarrow> op_validate (w_ext W) op = Ok ())"
      if "op \<in> set ops" for op using ops[OF that] by simp
    obtain t where e: "extends (w_ext W) V t (base_hist (ol_store ol0) t (plan \<noteq> None))
        (if plan \<noteq> None then None else topic_state_locked (ol_store ol0) t) (bb_batch built)"
      "proj_ok V (bb_projections built)" "\<forall>(op, d) \<in> set (bb_pending built). op \<in> V \<and> op_validate (w_ext W) op = Ok () \<and> b_deps (body op) \<noteq> {||}"
      "fset (bb_accepted built) = entry_ids (ab_entries (bb_batch built))"
      by (rule built_extends[OF log_okD(1)[OF ok0] W(2) log_okD(2,3)[OF ok0] sound built])
    let ?b = "bb_batch built" and ?es = "fst ` set (ab_entries (bb_batch built))"
    obtain r1 ol1 where c: "commit_batch W k plan ?b ol0 = (r1, ol1)" by (cases "commit_batch W k plan ?b ol0")
    have e': "extends (w_ext W) V t (if plan = None then stored_hist (ol_store ol0) t else {})
        (if plan = None then topic_state_locked (ol_store ol0) t else None) ?b"
      using e(1) by (auto simp: base_hist_def split: if_splits)
    note eff = commit_effect[OF ok0 W(2) topic_okD(1,2)[OF log_okD(2)[OF ok0]] e' c]
    note ok1 = commit_batch_ok[OF ok0 W(2) topic_okD(1,2)[OF log_okD(2)[OF ok0]] e' c]
    show ?thesis
    proof (cases r1)
      case (Inl err)
      then show ?thesis using run' eff unfolding built by (auto simp: c s_def s'_def same error_reports_def)
    next
      case (Inr u)
      obtain r2 ol2 where p: "put_pending_all W k source (ab_topic_id ?b) (bb_pending built) ol1 = (r2, ol2)"
        by (cases "put_pending_all W k source (ab_topic_id ?b) (bb_pending built) ol1")
      have "ol_store ol' = ol_store ol2" using run' unfolding built
        by (auto simp: c Inr p cache_stored split: sum.splits if_splits)
      moreover have "stored (ol_store ol2) = stored (ol_store ol1)"
        by (rule put_pending_stored[OF p ok1 W(3)]) (use e(3) in auto)
      ultimately have s': "s' = {op \<in> s. plan = None \<or> b_topic_id (body op) \<noteq> t} \<union> ?es"
        using eff Inr by (simp add: s_def s'_def same)
      have acc: "o_id op |\<in>| bb_accepted built \<longleftrightarrow> o_id op \<in> ids ?es" for op
        using e(4) by (auto simp: entry_ids_def ids_def image_iff)
      have accs: "fset (bb_accepted built) = ids ?es" using e(4) by (auto simp: entry_ids_def ids_def image_iff)
      have rep: "reported \<lparr>a_accepted = bb_accepted built, a_evictions = plan_evictions plan, a_ready_remaining = b'\<rparr> s s'" for b'
      proof -
        have "b_topic_id (body op) \<in> v_topic_id ` set (plan_evictions plan)" if gone: "op \<in> s" "op \<notin> s'" for op
        proof -
          obtain pl where pl: "plan = Some pl" "b_topic_id (body op) = t" using gone s' by (cases plan) auto
          then obtain q where q: "q \<in> set ops" "b_topic_id (body q) = v_topic_id (rp_eviction pl)" using plan by blast
          have "inj_on o_id (set ops)" using ops W(2) by (auto intro: inj_on_subset)
          from build_batch_topic[OF this built q(1)] show ?thesis using q(2) pl extendsD(1)[OF e(1)] by (simp add: plan_evictions_def)
        qed
        then show ?thesis unfolding reported_def using accs s' by (auto simp: ids_def)
      qed
      show ?thesis
      proof (cases r2)
        case (Inl err)
        then have r: "r = Err (admission_failure \<lparr>a_accepted = bb_accepted built,
            a_evictions = plan_evictions plan, a_ready_remaining = False\<rparr> err)"
          using run' unfolding built by (simp add: c \<open>r1 = Ok u\<close> p plan_evictions_def)
        have single: "s' = s" if one: "plan = None" "length ops = 1"
        proof -
          obtain op where "ops = [op]" using one(2) by (cases ops) auto
          then have "bb_pending built = [] \<or> bb_accepted built = {||}" using single_build built by metis
          moreover have "bb_pending built \<noteq> []" using p Inl by auto
          ultimately have "?es = {}" using accs by (auto simp: ids_def)
          then show ?thesis using s' one(1) by simp
        qed
        show ?thesis
          using failure_reports[OF rep put_pending_all_plain[OF W(4) p[unfolded Inl]]] s' single r by auto
      next
        case ok2: (Inr u2)
        then have r: "r = Ok (bb_accepted built)" using run' unfolding built by (simp add: c Inr p)
        have "s' \<noteq> s" if new: "plan = None" "bb_accepted built \<noteq> {||}"
        proof -
          obtain i where "i |\<in>| bb_accepted built" using new(2) by auto
          then obtain op m where op: "(op, m) \<in> set (ab_entries ?b)" "o_id op = i" using e(4) by (auto simp: entry_ids_def)
          then have "op \<in> ?es" by force
          moreover have "op \<notin> s"
          proof
            assume "op \<in> s"
            moreover have "b_topic_id (body op) = t"
              using op_okD(1)[OF hist_okD(4)[OF extendsD(2)[OF e(1)]]] \<open>op \<in> ?es\<close> by blast
            ultimately have "op \<in> stored_hist (ol_store ol0) t" by (simp add: stored_hist_stored s_def same)
            then show False using extendsD(5)[OF e(1) op(1)] new(1) by (auto simp: base_hist_def ids_def)
          qed
          ultimately show ?thesis using s' by auto
        qed
        then show ?thesis using rep[of b] r s' by auto
      qed
    qed
  qed
qed

section \<open>One job\<close>

definition eviction_list :: "topic_eviction option \<Rightarrow> topic_eviction list" where
  "eviction_list ev = (case ev of None \<Rightarrow> [] | Some e \<Rightarrow> [e])"

lemma purge_losing_stored: "purge_losing losing ol = (r, ol') \<Longrightarrow> log_ok x V ol \<Longrightarrow> stored (ol_store ol') = stored (ol_store ol)"
proof (cases losing)
  case (Some i)
  assume run: "purge_losing losing ol = (r, ol')" and ok: "log_ok x V ol"
  obtain n inner where p: "purge_pending_waiters i (ol_store ol) = Ok (n, inner)" "outside_pool inner = outside_pool (ol_store ol)"
    by (rule purge_pending_ok[OF store_okD(4)[OF log_okD(1)[OF ok]]])
  show ?thesis using run outside_poolD(1)[OF p(2)] by (auto simp: Some p(1) purge_losing_def stored_def)
qed (simp add: purge_losing_def)

lemma resolve_plan:
  assumes "resolve_genesis_collision x inner ops verified = Ok (ops', Some p, losing)"
  shows "ops' = ops" "\<exists>op \<in> set ops. b_topic_id (body op) = v_topic_id (rp_eviction p)"
proof -
  obtain g where g: "find is_structural_genesis ops = Some g" "ops' = ops" "v_topic_id (rp_eviction p) = b_topic_id (body g)"
    using assms by (auto simp: resolve_genesis_collision_def Let_def rbind_eq_Ok extract_eviction_def split: option.splits if_splits)
  then have "g \<in> set ops" by (auto simp: find_Some_iff)
  then show "ops' = ops" "\<exists>op \<in> set ops. b_topic_id (body op) = v_topic_id (rp_eviction p)" using g by auto
qed

definition attempt_answers :: "operation list \<Rightarrow> outcome option result \<Rightarrow> operation set \<Rightarrow> operation set \<Rightarrow> bool" where
  "attempt_answers ops r s s' \<longleftrightarrow>
    (case r of
       Ok (Some (acc, ev)) \<Rightarrow> reported \<lparr>a_accepted = acc, a_evictions = eviction_list ev, a_ready_remaining = False\<rparr> s s' \<and>
         (\<not> list_ex is_structural_genesis ops \<longrightarrow> ev = None \<and> s \<subseteq> s' \<and> (acc \<noteq> {||} \<longrightarrow> s' \<noteq> s))
     | Ok None \<Rightarrow> s' = s
     | Err e \<Rightarrow> error_reports e s s' \<and> (\<not> list_ex is_structural_genesis ops \<longrightarrow> s \<subseteq> s' \<and> (length ops = 1 \<longrightarrow> s' = s)))"

lemma admit_attempt_effect:
  assumes ok: "log_ok (w_ext W) V ol" and W: "quiet W" "inj_on o_id V" "sizes_ok (w_ext W)" "plain_budget W"
    and ops: "\<And>op. op \<in> set ops \<Longrightarrow> op \<in> V \<and> op_validate (w_ext W) op = Ok ()"
    and run: "admit_attempt W k source ops checked effects ol = (r, ol')"
  shows "attempt_answers ops r (stored (ol_store ol)) (stored (ol_store ol'))"
proof -
  let ?s = "stored (ol_store ol)" and ?s' = "stored (ol_store ol')"
  have still: "w_before W k ol = ol" using W(1) by (simp add: quiet_def)
  let ?r = "if list_ex is_structural_genesis ops then resolve_genesis_collision (w_ext W) (ol_store ol) ops checked else Ok (ops, None, None)"
  note run' = run[unfolded admit_attempt_def still Let_def]
  show ?thesis
  proof (cases "(if ops = [] then Ok () else w_turn W k) \<noteq> Ok () \<or> stale_branch ol ops \<or> (\<exists>e. ?r = Err e)")
    case True
    then have "ol' = ol \<and> (\<exists>e. r = Err e)" using run' by (auto split: sum.splits if_splits)
    then show ?thesis by (auto simp: attempt_answers_def error_reports_def)
  next
    case False
    then obtain to_admit plan losing where res: "?r = Ok (to_admit, plan, losing)" by (cases ?r) auto
    obtain r1 ol1 where p: "purge_losing losing ol = (r1, ol1)" by (cases "purge_losing losing ol")
    note s1 = purge_losing_stored[OF p ok] and ok1 = purge_losing_ok[OF ok p]
    obtain r2 ol2 where a: "admit_ops_batch W k source to_admit checked plan effects ol1 = (r2, ol2)"
      by (cases "admit_ops_batch W k source to_admit checked plan effects ol1")
    have sub: "op \<in> V \<and> op_validate (w_ext W) op = Ok ()" if "op \<in> set to_admit" for op
      using ops res resolve_subset that by (fastforce split: if_splits)
    have top: "\<exists>op \<in> set to_admit. b_topic_id (body op) = v_topic_id (rp_eviction q)" if "plan = Some q" for q
    proof -
      have "resolve_genesis_collision (w_ext W) (ol_store ol) ops checked = Ok (to_admit, Some q, losing)"
        using res that by (auto split: if_splits)
      from resolve_plan[OF this] show ?thesis by simp
    qed
    have plain: "\<not> list_ex is_structural_genesis ops \<longrightarrow> plan = None \<and> to_admit = ops" using res by auto
    note eff = admit_ops_batch_effect[OF ok1 W sub top a, where b = False, unfolded s1]
    have out: "(\<exists>e. r1 = Err e \<and> r = Err e \<and> ol' = ol1) \<or> ol' = ol2 \<and>
        (case r2 of Ok acc \<Rightarrow> r = Ok (Some (acc, map_option rp_eviction plan))
         | Err e \<Rightarrow> r = Err e \<or> r = Ok None \<and> (e = AdmissionConflict \<or> is_admission_race e))"
      using run' False unfolding res by (auto simp: p a split: sum.splits if_splits)
    show ?thesis
    proof (cases r2)
      case (Inl e)
      have "?s' = ?s" if "e = AdmissionConflict \<or> is_admission_race e" "ol' = ol2"
        using eff Inl that by (auto simp: error_reports_def is_admission_race_def)
      then show ?thesis using out eff Inl plain s1 by (auto simp: attempt_answers_def error_reports_def)
    next
      case (Inr acc)
      then show ?thesis using out eff plain s1 by (cases plan) (auto simp: attempt_answers_def error_reports_def eviction_list_def plan_evictions_def)
    qed
  qed
qed

definition job_answers :: "operation list \<Rightarrow> outcome result \<Rightarrow> operation set \<Rightarrow> operation set \<Rightarrow> bool" where
  "job_answers ops r s s' \<longleftrightarrow> attempt_answers ops (case r of Ok out \<Rightarrow> Ok (Some out) | Err e \<Rightarrow> Err e) s s'"

lemma admit_attempts_effect:
  assumes W: "quiet W" "inj_on o_id V" "sizes_ok (w_ext W)" "plain_budget W"
    and ops: "\<And>op. op \<in> set ops \<Longrightarrow> op \<in> V \<and> op_validate (w_ext W) op = Ok ()"
  shows "log_ok (w_ext W) V ol \<Longrightarrow> admit_attempts W k n source ops checked effects ol = (r, ol') \<Longrightarrow>
    job_answers ops r (stored (ol_store ol)) (stored (ol_store ol'))"
proof (induction n arbitrary: k ol)
  case 0
  then show ?case by (auto simp: job_answers_def attempt_answers_def error_reports_def)
next
  case (Suc n)
  obtain r1 ol1 where a: "admit_attempt W k source ops checked effects ol = (r1, ol1)"
    by (cases "admit_attempt W k source ops checked effects ol")
  note e = admit_attempt_effect[OF Suc.prems(1) W ops a]
  have ok1: "log_ok (w_ext W) V ol1"
    by (rule admit_attempt_ok[OF Suc.prems(1) quiet_world[OF W(1-3)] _ a]) (use ops in \<open>auto simp: sound_op_def\<close>)
  show ?case
  proof (cases "r1 = Ok None")
    case True
    then show ?thesis using Suc.IH[OF ok1, of "Suc k"] Suc.prems(2) e by (simp add: a attempt_answers_def)
  next
    case False
    then have "ol' = ol1" "(case r of Ok out \<Rightarrow> Ok (Some out) | Err e \<Rightarrow> Err e) = r1"
      using Suc.prems(2) by (auto simp: a split: sum.splits option.splits)
    then show ?thesis using e by (simp add: job_answers_def)
  qed
qed

lemma admit_with_retry_effect:
  assumes ok: "log_ok (w_ext W) V ol" and W: "quiet W" "inj_on o_id V" "sizes_ok (w_ext W)" "plain_budget W"
    and ops: "\<And>op. op \<in> set ops \<Longrightarrow> sound_op (w_ext W) V verified op"
    and run: "admit_with_retry W k source ops verified effects ol = (r, ol')"
  shows "job_answers ops r (stored (ol_store ol)) (stored (ol_store ol'))"
proof (cases "foreign_genesis (ol_receive_genesis ol) ops \<or> (\<exists>e. check_signatures (w_ext W) verified ops = Err e)")
  case True
  then have "ol' = ol \<and> (\<exists>e. r = Err e)" using run by (auto simp: admit_with_retry_def split: sum.splits if_splits)
  then show ?thesis by (auto simp: job_answers_def attempt_answers_def error_reports_def)
next
  case False
  then obtain checked where c: "check_signatures (w_ext W) verified ops = Ok checked"
    by (cases "check_signatures (w_ext W) verified ops") auto
  have "op \<in> V \<and> op_validate (w_ext W) op = Ok ()" if "op \<in> set ops" for op
    using check_signatures_sound[OF c that] ops[OF that] by (auto simp: sound_op_def)
  note a = admit_attempts_effect[OF W this ok]
  show ?thesis by (rule a) (use run False c in \<open>auto simp: admit_with_retry_def\<close>)
qed

end
