(* ===== verification/Receive_Loop.thy ===== *)
theory Receive_Loop
  imports Receive_Effects
begin

text \<open>
  The receive loop without interference: it reports exactly what it stored, and it returns. Every round
  either stores an operation, ends a pass that stored one, moves past ids of the pending pool, or
  shortens the queue of jobs.
\<close>

section \<open>Rounds\<close>

text \<open>After the first job only buffered operations are tried, one by one.\<close>

definition drained_ok :: "operation set \<Rightarrow> world \<Rightarrow> op_id btree_set \<Rightarrow> operation set \<Rightarrow> receiving \<Rightarrow> bool" where
  "drained_ok V W verified s rc \<longleftrightarrow> receiving_ok V W verified rc \<and>
    (\<forall>(source, ops, from_pending) \<in> set (rc_queue rc). from_pending \<and> (\<exists>op. ops = [op] \<and> b_deps (body op) \<noteq> {||})) \<and>
    reported (rc_admitted rc) s (stored (ol_store (rc_log rc)))"

lemma drained_okD:
  assumes "drained_ok V W verified s rc"
  shows "receiving_ok V W verified rc" "reported (rc_admitted rc) s (stored (ol_store (rc_log rc)))"
    "(source, ops, p) \<in> set (rc_queue rc) \<Longrightarrow> p \<and> (\<exists>op. ops = [op] \<and> b_deps (body op) \<noteq> {||})"
  using assms by (auto simp: drained_ok_def)

definition answered :: "operation set \<Rightarrow> unit result \<Rightarrow> receiving \<Rightarrow> bool" where
  "answered s r rc \<longleftrightarrow>
    (case r of
       Ok _ \<Rightarrow> reported (rc_admitted rc) s (stored (ol_store (rc_log rc)))
     | Err e \<Rightarrow> error_reports (admission_failure (rc_admitted rc) e) s (stored (ol_store (rc_log rc))))"

text \<open>What a round leaves as it was, and what it may have stored.\<close>

definition advanced :: "receiving \<Rightarrow> receiving \<Rightarrow> bool" where
  "advanced rc rc' \<longleftrightarrow> stored (ol_store (rc_log rc)) \<subset> stored (ol_store (rc_log rc')) \<or>
    stored (ol_store (rc_log rc')) = stored (ol_store (rc_log rc)) \<and> rc_pass_admitted rc' = rc_pass_admitted rc \<and>
    rc_window_admitted rc' = rc_window_admitted rc \<and> rc_cursor rc' = rc_cursor rc"

lemma reject_stored:
  assumes ok: "log_ok x V ol" and run: "reject_pending_subtree budget i (ol_store ol) = Ok (n, inner)"
  shows "stored inner = stored (ol_store ol)"
proof (cases "fmlookup (mi_pending_records (ol_store ol)) i")
  case (Some r)
  have b: "budget (RejectedMetadata (pr_topic_id r)) = Ok ()"
    using run Some by (auto simp: reject_pending_subtree_def Let_def rbind_eq_Ok)
  have "outside_pool (inner\<lparr>mi_rejected := mi_rejected (ol_store ol)\<rparr>) = outside_pool (ol_store ol)"
    by (rule reject_subtree_ok[where budget = budget, OF store_okD(4)[OF log_okD(1)[OF ok]] Some b]) (use run in simp)
  from outside_poolD(1)[OF this] show ?thesis by (simp add: stored_def)
qed (use run in \<open>simp add: reject_pending_subtree_def\<close>)

lemma reject_plain:
  assumes ok: "log_ok x V ol" and W: "plain_budget W" and run: "reject_pending_subtree (w_budget W k) i (ol_store ol) = Err e"
  shows "e \<noteq> AdmissionCommitted a src"
proof (cases "fmlookup (mi_pending_records (ol_store ol)) i")
  case (Some r)
  show ?thesis
  proof (cases "w_budget W k (RejectedMetadata (pr_topic_id r))")
    case (Inl e')
    then have "e = e'" using run Some by (simp add: reject_pending_subtree_def Let_def)
    then show ?thesis using W Inl by (auto simp: plain_budget_def)
  next
    case (Inr u)
    have "\<exists>n inner. reject_pending_subtree (w_budget W k) i (ol_store ol) = Ok (n, inner)"
      by (rule reject_subtree_ok[where budget = "w_budget W k", OF store_okD(4)[OF log_okD(1)[OF ok]] Some]) (use Inr in auto)
    then show ?thesis using run by simp
  qed
qed (use run in \<open>simp add: reject_pending_subtree_def\<close>)

definition round_ok :: "operation set \<Rightarrow> world \<Rightarrow> op_id btree_set \<Rightarrow> operation set \<Rightarrow> receiving \<Rightarrow> flow \<Rightarrow> bool" where
  "round_ok V W verified s rc f \<longleftrightarrow>
    (case f of
       Again rc' \<Rightarrow> drained_ok V W verified s rc' \<and> advanced rc rc' \<and> length (rc_queue rc') < length (rc_queue rc)
     | Stop r rc' \<Rightarrow> answered s r rc')"

lemma receive_failed_round:
  assumes ok: "drained_ok V W verified s rc" and W: "plain_budget W"
    and same: "stored (ol_store (rc_log rc)) = stored (ol_store (rc_log rc0))" "rc_pass_admitted rc = rc_pass_admitted rc0"
      "rc_window_admitted rc = rc_window_admitted rc0" "rc_cursor rc = rc_cursor rc0" "length (rc_queue rc) < length (rc_queue rc0)"
  shows "round_ok V W verified s rc0 (receive_failed W op err rc)"
proof -
  note log = receiving_okD(1)[OF drained_okD(1)[OF ok]]
  show ?thesis
  proof (cases "verdict_of (ol_store (rc_log rc)) op err")
    case (Inl e)
    then show ?thesis
      using failure_reports[OF drained_okD(2)[OF ok] verdict_plain[OF Inl]] by (simp add: receive_failed_def round_ok_def answered_def)
  next
    case (Inr v)
    show ?thesis
    proof (cases v)
      case VRetain
      then show ?thesis using Inr ok same
        by (auto simp: receive_failed_def round_ok_def answered_def Let_def drained_ok_def receiving_ok_def advanced_def reported_def)
    next
      case VReject
      let ?run = "reject_pending_subtree (w_budget W (rc_tick rc)) (o_id op) (ol_store (rc_log rc))"
      show ?thesis
      proof (cases ?run)
        case (Inl e)
        then show ?thesis
          using failure_reports[OF drained_okD(2)[OF ok] reject_plain[OF log W Inl]] Inr VReject
          by (simp add: receive_failed_def round_ok_def answered_def)
      next
        case rej: (Inr res)
        obtain n inner where res: "res = (n, inner)" by (cases res)
        note st = reject_stored[OF log rej[unfolded res]] and lg = reject_log_ok[OF log rej[unfolded res]]
        show ?thesis using Inr VReject rej ok same st lg
          by (auto simp: receive_failed_def round_ok_def Let_def drained_ok_def receiving_ok_def advanced_def res)
      qed
    qed
  qed
qed

lemma drained_job:
  assumes ok: "drained_ok V W verified s rc" and q: "rc_queue rc \<noteq> []"
    and W: "quiet W" "inj_on o_id V" "sizes_ok (w_ext W)" "plain_budget W"
  shows "round_ok V W verified s rc (receive_job W verified effects rc)"
proof -
  note rok = drained_okD(1)[OF ok]
  obtain source ops p queue where j: "rc_queue rc = (source, ops, p) # queue" using q by (cases "rc_queue rc") auto
  obtain op where op: "p" "ops = [op]" "b_deps (body op) \<noteq> {||}" using drained_okD(3)[OF ok, of source ops p] j by auto
  have plain: "\<not> list_ex is_structural_genesis ops" using op(2,3) by (simp add: is_structural_genesis_def)
  have sound: "sound_op (w_ext W) V verified q" if "q \<in> set ops" for q
    using receiving_okD(2)[OF rok, of source ops p q] that by (simp add: j)
  obtain r ol where a: "admit_with_retry W (rc_tick rc) source ops verified effects (rc_log rc) = (r, ol)"
    by (cases "admit_with_retry W (rc_tick rc) source ops verified effects (rc_log rc)")
  note eff = admit_with_retry_effect[OF receiving_okD(1)[OF rok] W sound a, unfolded job_answers_def attempt_answers_def]
  have log: "log_ok (w_ext W) V ol" by (rule admit_with_retry_ok[OF receiving_okD(1)[OF rok] quiet_world[OF W(1-3)] sound a])
  let ?rc = "rc\<lparr>rc_queue := queue, rc_log := ol, rc_tick := rc_tick rc + MAX_ADMISSION_RETRIES\<rparr>"
  have rc: "receiving_ok V W verified ?rc" "\<forall>(source, ops, p) \<in> set queue. p \<and> (\<exists>op. ops = [op] \<and> b_deps (body op) \<noteq> {||})"
    using ok log by (auto simp: drained_ok_def receiving_ok_def j)
  show ?thesis
  proof (cases r)
    case (Inl e)
    then have same: "stored (ol_store ol) = stored (ol_store (rc_log rc))" using eff plain op(2) by simp
    have d: "drained_ok V W verified s ?rc" using rc drained_okD(2)[OF ok] same by (simp add: drained_ok_def)
    have "round_ok V W verified s rc (receive_failed W op e ?rc)" by (rule receive_failed_round[OF d W(4)]) (use same j in auto)
    then show ?thesis using Inl op(1,2) unfolding receive_job_def j a Let_def list.case prod.case by simp
  next
    case (Inr out)
    obtain acc ev where out: "out = (acc, ev)" by (cases out)
    have g: "ev = None" "stored (ol_store (rc_log rc)) \<subseteq> stored (ol_store ol)"
      "acc \<noteq> {||} \<Longrightarrow> stored (ol_store ol) \<noteq> stored (ol_store (rc_log rc))"
      "reported \<lparr>a_accepted = acc, a_evictions = eviction_list ev, a_ready_remaining = False\<rparr> (stored (ol_store (rc_log rc))) (stored (ol_store ol))"
      using eff plain Inr out by auto
    have "reported (rc_admitted (note_admitted out ?rc)) s (stored (ol_store ol))"
      by (rule reported_grow[OF drained_okD(2)[OF ok] g(2), of acc])
        (use g(1,4) in \<open>auto simp: out note_admitted_def reported_def\<close>)
    then have d: "drained_ok V W verified s (note_admitted out ?rc)"
      using rc by (simp add: drained_ok_def receiving_ok_def note_admitted_def out)
    have "advanced rc (note_admitted out ?rc)" using g(2,3) by (cases "acc = {||}") (auto simp: advanced_def note_admitted_def out)
    moreover have "length (rc_queue (note_admitted out ?rc)) < length (rc_queue rc)" by (simp add: note_admitted_def out j)
    ultimately show ?thesis using d Inr unfolding receive_job_def j a Let_def list.case prod.case by (simp add: round_ok_def j)
  qed
qed

section \<open>The order of rounds\<close>

lemma finite_ids: "finite (UNIV :: op_id set)"
proof -
  have "as_bytes ` UNIV = {xs :: u8 list. set xs \<subseteq> UNIV \<and> length xs = 32}"
    using type_definition.Rep_range[OF type_definition_id32] by simp
  then have "finite (range as_bytes)" using finite_lists_length_eq[of "UNIV :: u8 set" 32] by simp
  then show ?thesis by (rule finite_imageD) (simp add: inj_on_def as_bytes_inject)
qed

lemma finite_circulation: "inj_on o_id V \<Longrightarrow> finite V"
  using finite_ids by (meson finite_imageD finite_subset subset_UNIV)

definition later_ids :: "op_id option \<Rightarrow> op_id set" where
  "later_ids c = {i. case c of None \<Rightarrow> True | Some a \<Rightarrow> a < i}"

definition round_order :: "operation set \<Rightarrow> (receiving \<times> receiving) set" where
  "round_order V = measures
    [\<lambda>rc. card (V - stored (ol_store (rc_log rc))), \<lambda>rc. if rc_window_admitted rc then 1 else 0,
     \<lambda>rc. if rc_pass_admitted rc then 1 else 0, \<lambda>rc. card (later_ids (rc_cursor rc)), \<lambda>rc. length (rc_queue rc)]"

lemma wf_rounds: "wf (round_order V)"
  by (simp add: round_order_def)

lemma stored_in_circulation: "log_ok x V ol \<Longrightarrow> stored (ol_store ol) \<subseteq> V"
  using topic_okD(2)[OF log_okD(2)] unfolding stored_hist_stored by blast

lemma stored_more:
  assumes "finite V" "s \<subset> s'" "s' \<subseteq> V"
  shows "card (V - s') < card (V - s)"
  by (rule psubset_card_mono) (use assms in auto)

lemma advanced_order:
  assumes V: "inj_on o_id V" and a: "advanced rc rc'" and ok: "log_ok x V (rc_log rc')"
    and less: "rc_cursor rc' = rc_cursor rc \<Longrightarrow> length (rc_queue rc') < length (rc_queue rc)"
  shows "(rc', rc) \<in> round_order V"
proof (cases "stored (ol_store (rc_log rc)) \<subset> stored (ol_store (rc_log rc'))")
  case True
  then show ?thesis using stored_more[OF finite_circulation[OF V] True stored_in_circulation[OF ok]] by (simp add: round_order_def)
next
  case False
  then show ?thesis using a less by (simp add: advanced_def round_order_def)
qed

lemma slice_ids:
  assumes ok: "log_ok x V ol" and s: "es = ready_pending_after (ol_store ol) c n" and e: "(source, op) \<in> set es"
  shows "o_id op \<in> later_ids c" "sound_op x V verified op" "b_deps (body op) \<noteq> {||}"
proof -
  obtain i where i: "pending_entry_locked (ol_store ol) i = Some (source, op)" "i \<in> set (range_after c n (mi_pending_ready (ol_store ol)))"
    using e by (auto simp: s ready_pending_after_def List.map_filter_def)
  then have p: "fmlookup (mi_pending_ops (ol_store ol)) i = Some op" by (auto simp: pending_entry_locked_def bind_eq_Some_conv)
  have "o_id op = i" by (rule pool_okD(2)[OF store_okD(4)[OF log_okD(1)[OF ok]] p])
  then show "o_id op \<in> later_ids c" using i(2) by (auto simp: range_after_def later_ids_def dest: in_set_takeD)
  show "sound_op x V verified op" "b_deps (body op) \<noteq> {||}" using log_okD(4)[OF ok p] by (auto simp: sound_op_def)
qed

lemma later_less:
  assumes "i \<in> later_ids c"
  shows "card (later_ids (Some i)) < card (later_ids c)"
proof (rule psubset_card_mono)
  show "finite (later_ids c)" using finite_ids by (rule finite_subset[rotated]) simp
  show "later_ids (Some i) \<subset> later_ids c" using assms by (auto simp: later_ids_def split: option.splits)
qed

lemma drained_step:
  assumes ok: "drained_ok V W verified s rc" and W: "quiet W" "inj_on o_id V" "sizes_ok (w_ext W)" "plain_budget W"
  shows "case receive_step W verified effects rc of
      Again rc' \<Rightarrow> drained_ok V W verified s rc' \<and> (rc', rc) \<in> round_order V
    | Stop r rc' \<Rightarrow> answered s r rc'"
proof (cases "rc_queue rc = []")
  case False
  note j = drained_job[OF ok False W, of effects]
  show ?thesis
  proof (cases "receive_job W verified effects rc")
    case (Again rc')
    then have r: "drained_ok V W verified s rc'" "advanced rc rc'" "length (rc_queue rc') < length (rc_queue rc)" using j by (auto simp: round_ok_def)
    from advanced_order[OF W(2) r(2) receiving_okD(1)[OF drained_okD(1)[OF r(1)]]] r(1,3) show ?thesis
      using False Again by (simp add: receive_step_def)
  qed (use j False in \<open>simp add: receive_step_def round_ok_def\<close>)
next
  case empty: True
  note rok = drained_okD(1)[OF ok]
  note log = receiving_okD(1)[OF rok]
  show ?thesis
  proof (cases "rc_drained rc \<ge> MAX_DRAIN_OPS")
    case True
    then show ?thesis using ok empty
      by (auto simp: receive_step_def drained_ok_def receiving_ok_def round_order_def answered_def reported_def)
  next
    case room: False
    let ?slice = "ready_pending_after (ol_store (rc_log rc)) (rc_cursor rc) READY_SLICE"
    show ?thesis
    proof (cases "?slice = []")
      case True
      then show ?thesis using ok empty room
        by (auto simp: receive_step_def drained_ok_def receiving_ok_def round_order_def answered_def)
    next
      case some: False
      let ?rc = "rc\<lparr>rc_cursor := Some (o_id (snd (last ?slice))), rc_drained := rc_drained rc + length ?slice,
        rc_queue := map (\<lambda>(source, op). (Some source, [op], True)) (filter (\<lambda>(_, op). o_id op |\<notin>| rc_held_back rc) ?slice)\<rparr>"
      have d: "drained_ok V W verified s ?rc"
        using ok slice_ids[OF log refl] by (auto simp: drained_ok_def receiving_ok_def)
      have less: "card (later_ids (Some (o_id (snd (last ?slice))))) < card (later_ids (rc_cursor rc))"
        by (rule later_less, rule slice_ids(1)[OF log refl, of "fst (last ?slice)" _ _ READY_SLICE]) (use some in simp)
      have step: "receive_step W verified effects rc = receive_job W verified effects ?rc"
        using empty room some by (simp add: receive_step_def Let_def)
      show ?thesis
      proof (cases "rc_queue ?rc = []")
        case True
        then have "receive_job W verified effects ?rc = Again ?rc" by (simp add: receive_job_def)
        then show ?thesis using step d less by (simp add: round_order_def)
      next
        case False
        note j = drained_job[OF d False W, of effects]
        show ?thesis
        proof (cases "receive_job W verified effects ?rc")
          case (Again rc')
          then have r: "drained_ok V W verified s rc'" "advanced ?rc rc'" using j by (auto simp: round_ok_def)
          have "(rc', rc) \<in> round_order V"
          proof (cases "stored (ol_store (rc_log rc)) \<subset> stored (ol_store (rc_log rc'))")
            case True
            then show ?thesis
              using stored_more[OF finite_circulation[OF W(2)] True stored_in_circulation[OF receiving_okD(1)[OF drained_okD(1)[OF r(1)]]]]
              by (simp add: round_order_def)
          next
            case False
            then show ?thesis using r(2) less by (simp add: advanced_def round_order_def)
          qed
          then show ?thesis using step Again r(1) by simp
        qed (use j step in \<open>simp add: round_ok_def\<close>)
      qed
    qed
  qed
qed

lemma drained_loop:
  assumes ok: "drained_ok V W verified s rc" and W: "quiet W" "inj_on o_id V" "sizes_ok (w_ext W)" "plain_budget W"
  shows "\<exists>r rc'. receive_loop W verified effects rc = Some (r, rc') \<and> answered s r rc'"
  using ok
proof (induction rc rule: wf_induct_rule[OF wf_rounds[of V]])
  case (1 rc)
  note st = drained_step[OF 1(2) W, of effects]
  show ?case
  proof (cases "receive_step W verified effects rc")
    case (Again rc')
    then show ?thesis using 1(1)[of rc'] st by (subst receive_loop.simps) simp
  next
    case (Stop r rc')
    then show ?thesis using st by (subst receive_loop.simps) simp
  qed
qed

section \<open>The call\<close>

lemma first_failure: "error_reports e s s' \<Longrightarrow> error_reports (admission_failure no_admitted e) s s'"
proof (cases "\<exists>a src. e = AdmissionCommitted a src")
  case True
  assume rep: "error_reports e s s'"
  obtain a src where e: "e = AdmissionCommitted a src" using True by blast
  show ?thesis
  proof (cases "a_accepted a = {||} \<and> a_evictions a = []")
    case empty: True
    then have "s' = s" using rep reported_nothing by (auto simp: error_reports_def e)
    then show ?thesis by (simp add: error_reports_def)
  next
    case False
    then show ?thesis using rep by (auto simp: error_reports_def e admission_failure_def no_admitted_def reported_def)
  qed
next
  case False
  assume rep: "error_reports e s s'"
  show ?thesis by (rule failure_reports) (use False rep in \<open>auto simp: error_reports_def reported_same\<close>)
qed

lemma receive_runs:
  assumes ok: "log_ok (w_ext W) V ol" and W: "quiet W" "inj_on o_id V" "sizes_ok (w_ext W)" "plain_budget W"
    and ops: "\<And>op. op \<in> set ops \<Longrightarrow> sound_op (w_ext W) V verified op"
  shows "\<exists>r rc. receive_loop W verified effects (receive_start source ops k ol) = Some (r, rc) \<and> answered (stored (ol_store ol)) r rc"
proof -
  let ?s = "stored (ol_store ol)" and ?rc = "receive_start source ops k ol"
  show ?thesis
  proof (cases "ops = []")
    case True
    have "drained_ok V W verified ?s ?rc"
      using ok True by (simp add: drained_ok_def receiving_ok_def receive_start_def reported_same)
    then show ?thesis by (rule drained_loop[OF _ W])
  next
    case False
    obtain r ol1 where a: "admit_with_retry W k source ops verified effects ol = (r, ol1)"
      by (cases "admit_with_retry W k source ops verified effects ol")
    note eff = admit_with_retry_effect[OF ok W ops a, unfolded job_answers_def attempt_answers_def]
    have log: "log_ok (w_ext W) V ol1" by (rule admit_with_retry_ok[OF ok quiet_world[OF W(1-3)] ops a])
    let ?rc1 = "?rc\<lparr>rc_queue := [], rc_log := ol1, rc_tick := k + MAX_ADMISSION_RETRIES\<rparr>"
    have step: "receive_step W verified effects ?rc = (case r of Ok out \<Rightarrow> Again (note_admitted out ?rc1) | Err e \<Rightarrow> Stop (Err e) ?rc1)"
    proof -
      have q: "rc_queue ?rc = [(source, ops, False)]" "rc_tick ?rc = k" "rc_log ?rc = ol" using False by (simp_all add: receive_start_def)
      then have "receive_step W verified effects ?rc = receive_job W verified effects ?rc" by (simp add: receive_step_def)
      then show ?thesis unfolding receive_job_def q a Let_def list.case prod.case by (simp split: sum.splits)
    qed
    show ?thesis
    proof (cases r)
      case (Inl e)
      have "answered ?s (Err e) ?rc1"
        using first_failure eff Inl by (simp add: answered_def receive_start_def)
      then show ?thesis using step Inl by (subst receive_loop.simps) simp
    next
      case (Inr out)
      obtain acc ev where out: "out = (acc, ev)" by (cases out)
      have "reported (rc_admitted (note_admitted out ?rc1)) ?s (stored (ol_store ol1))"
        using eff Inr by (cases ev) (auto simp: out note_admitted_def receive_start_def no_admitted_def reported_def eviction_list_def)
      then have "drained_ok V W verified ?s (note_admitted out ?rc1)"
        using log by (simp add: drained_ok_def receiving_ok_def note_admitted_def out)
      from drained_loop[OF this W] show ?thesis using step Inr by (subst receive_loop.simps) simp
    qed
  qed
qed

end
