(* ===== verification/Local_Progress.thy ===== *)
theory Local_Progress
  imports Oplog_Reach
begin

text \<open>
  What the local peer builds at the current heads passes the checks of its own admission: its position,
  dependencies and generation are the ones validation expects, and the state replayed at its
  dependencies is the topic's.
\<close>

section \<open>Replay at the heads\<close>

lemma reachable_loop_total:
  assumes "hist_ok x t (stored_hist inner t)" "set stack \<subseteq> ids (stored_hist inner t)"
  shows "\<exists>R'. reachable_loop inner t stack R = Ok R'"
  using assms
proof (induction inner t stack R rule: reachable_loop.induct)
  case (2 inner t i stack R)
  let ?H = "stored_hist inner t"
  obtain op where op: "op \<in> ?H" "o_id op = i" using 2(4) by (auto simp: ids_iff)
  then have st: "fmlookup (mi_ops inner) i = Some op" "b_topic_id (body op) = t" by (auto simp: stored_hist_def)
  have deps: "fset (b_deps (body op)) \<subseteq> ids ?H" by (rule op_okD(4)[OF hist_okD(4)[OF 2(3) op(1)]])
  show ?case
  proof (cases "contains_key R i")
    case True
    then show ?thesis using 2(1)[OF True 2(3)] 2(4) by simp
  next
    case False
    have "\<exists>R'. reachable_loop inner t (rev (iter_set (b_deps (body op))) @ stack) (fmupd i op R) = Ok R'"
      by (rule 2(2)[OF False _ _ 2(3)]) (use st deps 2(4) in \<open>auto simp: ok_or_def\<close>)
    then show ?thesis using False st by (simp add: ok_or_def)
  qed
qed simp

lemma past_all:
  assumes h: "hist_ok x t H" and I: "frontier H \<subseteq> I"
  shows "past H I = H"
  using past_frontier[OF h] past_mono[OF I, of H] past_sub[of H I] by simp

lemma state_at_heads:
  assumes ix: "indexed_ok inner" and h: "hist_ok x t (stored_hist inner t)" and m: "materialized (stored_hist inner t) hs s"
    and deps: "frontier (stored_hist inner t) \<subseteq> fset deps" "fset deps \<subseteq> ids (stored_hist inner t)"
  shows "state_for_deps inner t deps = Ok (s\<lparr>t_heads := {||}\<rparr>)"
proof -
  let ?H = "stored_hist inner t"
  obtain R where R: "reachable_loop inner t (rev (iter_set deps)) fmempty = Ok R"
    using reachable_loop_total[OF h, of "rev (iter_set deps)" fmempty] deps(2) by auto
  let ?ops = "map snd (iter_map R)"
  note S = reachable_ops[OF ix h R]
  have all: "set ?ops = ?H" using S past_all[OF h deps(1)] by simp
  have "materialize_topic_state ?ops {||} = Ok (s\<lparr>t_heads := {||}\<rparr>)"
    by (rule materialize_complete) (use all hist_okD(2)[OF h] materialized_heads[OF m, of "{||}"] in auto)
  then show ?thesis using R by (simp add: state_for_deps_def)
qed

section \<open>Generations\<close>

lemma checked_next_le: "checked_next b = Ok n \<Longrightarrow> unat a \<le> unat b \<Longrightarrow> \<exists>g. checked_next a = Ok g"
  by (auto simp: checked_next_def checked_add_def ok_or_def split: if_splits)

lemma deps_generation_total:
  assumes "\<And>d. d \<in> set ds \<Longrightarrow> \<exists>h g. header d = Ok h \<and> checked_next (h_generation h) = Ok g"
  shows "\<exists>g. fold_res (\<lambda>i generation.
      rbind (header i) (\<lambda>h. rbind (checked_next (h_generation h)) (\<lambda>g. Ok (max generation g)))) ds g0 = Ok g"
  using assms
proof (induction ds arbitrary: g0)
  case (Cons d ds)
  obtain h g where "header d = Ok h" "checked_next (h_generation h) = Ok g" using Cons.prems[of d] by auto
  then show ?case using Cons.IH[of "max g0 g"] Cons.prems by simp
qed simp

lemma generation_at_heads:
  assumes ok: "store_ok x inner" and h: "hist_ok x t (stored_hist inner t)" and s: "sees inner fmempty fmempty (stored_hist inner t)"
    and ne: "stored_hist inner t \<noteq> {}" and deps: "frontier (stored_hist inner t) \<subseteq> fset deps" "fset deps \<subseteq> ids (stored_hist inner t)"
    and g: "checked_next (max_generation inner t) = Ok g"
  shows "deps_generation (header_projected inner fmempty) deps = Ok g"
proof -
  let ?H = "stored_hist inner t" and ?hd = "header_projected inner fmempty" and ?G = "max_generation inner t"
  note ix = store_okD(3)[OF ok]
  have head: "\<exists>q \<in> ?H. o_id q = d \<and> (\<exists>hd. ?hd d = Ok hd \<and> h_generation hd = b_generation (body q))" if d: "d |\<in>| deps" for d
  proof -
    have "d \<in> ids ?H" using deps(2) d by blast
    then obtain q where q: "q \<in> ?H" "o_id q = d" unfolding ids_iff by blast
    then show ?thesis using header_seen[OF s q(1)] by auto
  qed
  have below: "b_generation (body q) \<le> ?G" if q: "q \<in> ?H" for q
  proof -
    obtain m where "fmlookup (mi_meta inner) (o_id q) = Some m" "meta_matches q m" "m_topic_id m = t" by (rule stored_hist_meta[OF ix q])
    then show ?thesis using indexed_okD(6)[OF ix] meta_matchesD(6)[of q m] by (fastforce simp: generations_ok_def max_generation_def get_or_def)
  qed
  obtain q0 where q0: "q0 \<in> ?H" using ne by blast
  obtain m0 where m0: "fmlookup (mi_meta inner) (o_id q0) = Some m0" "m_topic_id m0 = t" by (rule stored_hist_meta[OF ix q0])
  then obtain i m where m: "fmlookup (mi_meta inner) i = Some m" "m_topic_id m = t" "m_generation m = ?G"
    using indexed_okD(6)[OF ix] by (fastforce simp: generations_ok_def max_generation_def get_or_def)
  obtain top where top: "o_id top = i" "top \<in> ?H" "b_generation (body top) = ?G"
    using stored_meta[OF ix m(1)] m(2,3) meta_matchesD(6) by metis
  have "o_id top \<in> frontier ?H"
  proof -
    have "o_id top |\<notin>| b_deps (body q)" if q: "q \<in> ?H" for q
    proof
      assume "o_id top |\<in>| b_deps (body q)"
      then have "unat (b_generation (body top)) < unat (b_generation (body q))"
        using op_okD(6)[OF hist_okD(4)[OF h q]] top(2) by (auto simp: gen_ok_def)
      then show False using below[OF q] top(3) by (simp add: word_le_nat_alt)
    qed
    then show ?thesis using top(2) by (auto simp: frontier_def)
  qed
  then have dep: "o_id top |\<in>| deps" using deps(1) by auto
  have total: "\<exists>hd g. ?hd d = Ok hd \<and> checked_next (h_generation hd) = Ok g" if "d \<in> set (iter_set deps)" for d
    using head[of d] that below checked_next_le[OF g] by (fastforce simp: word_le_nat_alt)
  obtain g' where run: "deps_generation ?hd deps = Ok g'"
    using deps_generation_total[of "iter_set deps" ?hd 0] total by (auto simp: deps_generation_def)
  note f = deps_generation_fold[OF run[unfolded deps_generation_def]]
  have "unat ?G + 1 \<le> unat g'"
    using f dep header_seen[OF s top(2)] top(3) by auto
  moreover have "unat g' \<le> unat ?G + 1"
    using f head below by (fastforce simp: word_le_nat_alt)
  ultimately have "g' = g" using checked_next_Ok[OF g] by (simp add: word_unat_eq_iff)
  then show ?thesis using run by simp
qed

section \<open>Validation\<close>

lemma next_local_fields:
  assumes "next_local_op x inner t actor heads payload signer None = Ok op"
  obtains seq prev where "next_actor_position (actor_tip inner t actor) = Ok (seq, prev)"
    "body op = \<lparr>b_topic_id = t, b_author = sg_peer_id signer, b_actor_id = actor, b_actor_seq = seq, b_actor_prev = prev,
      b_deps = (case prev of None \<Rightarrow> heads | Some i \<Rightarrow> finsert i heads), b_generation = b_generation (body op), b_payload = payload\<rparr>"
    "b_deps (body op) \<noteq> {||} \<longrightarrow> checked_next (max_generation inner t) = Ok (b_generation (body op))"
proof -
  obtain seq prev g where r: "(case actor_tip inner t actor of
        Some (seq, i) \<Rightarrow> rbind (ok_or (checked_add seq 1) (Storage ''actor sequence overflow'')) (\<lambda>n. Ok (n, Some i))
      | None \<Rightarrow> Ok (1, None)) = Ok (seq, prev)"
    "(if (case prev of None \<Rightarrow> heads | Some i \<Rightarrow> finsert i heads) = {||} then Ok 0 else checked_next (max_generation inner t)) = Ok g"
    "reuse_or_sign x signer None \<lparr>b_topic_id = t, b_author = sg_peer_id signer, b_actor_id = actor, b_actor_seq = seq, b_actor_prev = prev,
      b_deps = (case prev of None \<Rightarrow> heads | Some i \<Rightarrow> finsert i heads), b_generation = g, b_payload = payload\<rparr> = Ok op"
    using assms by (auto simp: next_local_op_def rbind_eq_Ok Let_def)
  have body: "body op = \<lparr>b_topic_id = t, b_author = sg_peer_id signer, b_actor_id = actor, b_actor_seq = seq, b_actor_prev = prev,
      b_deps = (case prev of None \<Rightarrow> heads | Some i \<Rightarrow> finsert i heads), b_generation = g, b_payload = payload\<rparr>"
    using reuse_or_sign_ok(2)[OF r(3)] by (simp add: signed_ok_def)
  have "next_actor_position (actor_tip inner t actor) = Ok (seq, prev)"
    using r(1) by (auto simp: next_actor_position_def checked_next_def rbind_eq_Ok ok_or_eq_Ok split: option.splits)
  then show thesis using that[of seq prev] body r(2) by (auto split: if_splits)
qed

lemma find_None_all: "(\<And>y. y \<in> set ys \<Longrightarrow> \<not> P y) \<Longrightarrow> find P ys = None"
  by (induction ys) auto

lemma local_validates:
  assumes ok: "store_ok x inner" and t: "topic_ok x V inner t" and s: "topic_state_locked inner t = Some s"
    and actor: "actor = actor_id_for (x_blake3 x) t (sg_peer_id signer)" and member: "sg_peer_id signer |\<in>| t_members s"
    and payload: "case payload of Genesis _ \<Rightarrow> False | Event ev \<Rightarrow> ev_type_id ev = t_event_type_id s | Control _ \<Rightarrow> True"
    and op: "next_local_op x inner t actor (store_heads inner t) payload signer None = Ok op"
  shows "validate_op x inner op = Ok ()" "\<exists>m. meta_for inner op = Ok m"
proof -
  let ?H = "stored_hist inner t" and ?b = "body op"
  note v = stored_view[OF ok t] and h = topic_okD(1)[OF t] and ix = store_okD(3)[OF ok]
  obtain seq prev where f: "next_actor_position (actor_tip inner t actor) = Ok (seq, prev)"
    "?b = \<lparr>b_topic_id = t, b_author = sg_peer_id signer, b_actor_id = actor, b_actor_seq = seq, b_actor_prev = prev,
      b_deps = (case prev of None \<Rightarrow> store_heads inner t | Some i \<Rightarrow> finsert i (store_heads inner t)), b_generation = b_generation ?b, b_payload = payload\<rparr>"
    "b_deps ?b \<noteq> {||} \<longrightarrow> checked_next (max_generation inner t) = Ok (b_generation ?b)"
    by (rule next_local_fields[OF op])
  have b: "b_topic_id ?b = t" "b_author ?b = sg_peer_id signer" "b_actor_id ?b = actor" "b_actor_seq ?b = seq" "b_actor_prev ?b = prev"
    "b_deps ?b = (case prev of None \<Rightarrow> store_heads inner t | Some i \<Rightarrow> finsert i (store_heads inner t))" "b_payload ?b = payload"
    by (subst f(2), simp)+
  have m: "materialized ?H (t_heads s) s" using view_okD(7)[OF v] s by (simp add: state_of_def)
  then have ne: "?H \<noteq> {}" using materialized_nonempty by blast
  have heads: "fset (store_heads inner t) = frontier ?H" using view_okD(6)[OF v] by (simp add: store_heads_def)
  have th: "t_heads s = store_heads inner t" using s by (auto simp: store_heads_def topic_state_locked_def)
  have tip: "is_tip ?H actor (actor_tip inner t actor)" using stored_tip[OF ix] by (simp add: actor_tip_def)
  have prev: "i \<in> ids ?H" if "prev = Some i" for i
    using tip f(1) that by (auto simp: is_tip_def next_actor_position_def rbind_eq_Ok ids_iff split: option.splits)
  have fr: "frontier ?H \<subseteq> ids ?H" by (auto simp: frontier_def ids_def)
  have deps: "frontier ?H \<subseteq> fset (b_deps ?b)" "fset (b_deps ?b) \<subseteq> ids ?H"
    using heads prev fr by (auto simp: b(6) split: option.splits)
  have dne: "b_deps ?b \<noteq> {||}" using deps(1) frontier_nonempty[OF h ne] by auto
  have sees: "sees inner fmempty fmempty ?H" using view_okD(3)[OF v] by simp
  note gen = generation_at_heads[OF ok h sees ne deps f(3)[rule_format, OF dne]]
  have fresh: "actor_index inner t actor seq = None"
  proof -
    have "op_slot op \<notin> op_slot ` ?H" by (rule next_position[OF h]) (use tip f(1) b in \<open>auto split: option.splits\<close>)
    then have "op_slot q \<noteq> (actor, seq)" if "q \<in> ?H" for q using that b(3,4) by (auto simp: op_slot_def image_iff)
    then show ?thesis using stored_slot[OF ix, of t actor seq] by (auto simp: actor_index_def)
  qed
  have mem: "local_member inner ?b s = Ok ()"
    using state_at_heads[OF ix h m deps] member th b(1,2) by (auto simp: local_member_def)
  have pay: "validate_local_payload inner ?b = Ok ()"
    using payload mem s b(1,7) by (auto simp: validate_local_payload_def Let_def ok_or_def ensure_event_type_def split: topic_payload.splits)
  have held: "find (\<lambda>dep. \<not> contains_key (mi_ops inner) dep) (iter_set (b_deps ?b)) = None"
  proof (rule find_None_all)
    fix d assume "d \<in> set (iter_set (b_deps ?b))"
    then have "d \<in> ids ?H" using deps(2) by auto
    then show "\<not> \<not> contains_key (mi_ops inner) d" by (auto simp: ids_iff stored_hist_def contains_key_def)
  qed
  show "validate_op x inner op = Ok ()"
    using payload f(1) fresh pay held gen actor b
    by (auto simp: validate_op_def Let_def local_headers split: topic_payload.splits option.splits)
  show "\<exists>m. meta_for inner op = Ok m" using meta_for_seen[OF h sees deps(2) b(1)] by (auto simp: meta_for_is)
qed

end
