(* ===== verification/Oplog_Properties.thy ===== *)
theory Oplog_Properties
  imports Receive_Loop Local_Progress Memory_Properties Memory_Snapshot
begin

text \<open>
  The properties of the op log, with a concrete log that reaches them: a topic whose genesis the local
  peer created.
\<close>

section \<open>Facts about reachable logs\<close>

lemma reachable_view:
  assumes "log_reachable x V ol"
  shows "view_ok x V t (ol_store ol) (no_overlay False) (store_heads (ol_store ol) t) (topic_state_locked (ol_store ol) t)
    (stored_hist (ol_store ol) t)"
  using stored_view[OF log_okD(1,2)[OF log_reachable_ok[OF assms]]] by (simp add: store_heads_def)

lemma reachable_state:
  assumes "log_reachable x V ol" "topic_state_locked (ol_store ol) t = Some s"
  shows "materialized (stored_hist (ol_store ol) t) (store_heads (ol_store ol) t) s"
proof -
  have "materialized (stored_hist (ol_store ol) t) (t_heads s) s"
    using view_okD(7)[OF reachable_view[OF assms(1)], of t] assms(2) by (simp add: state_of_def)
  then show ?thesis using assms(2) by (auto simp: topic_state_locked_def store_heads_def)
qed

text \<open>Walking dependencies from the heads.\<close>

lemma lineage_closed:
  assumes "\<And>i m. i |\<in>| R \<Longrightarrow> fmlookup (mi_meta inner) i = Some m \<Longrightarrow> fset (m_deps m) \<subseteq> set stack \<union> fset R"
  shows "set stack \<union> fset R \<subseteq> fset (lineage_loop inner stack R) \<and>
    (\<forall>i m. i |\<in>| lineage_loop inner stack R \<longrightarrow> fmlookup (mi_meta inner) i = Some m \<longrightarrow>
      fset (m_deps m) \<subseteq> fset (lineage_loop inner stack R))"
  using assms
proof (induction inner stack R rule: lineage_loop.induct)
  case (2 inner i stack R)
  let ?P = "\<lambda>stack R. set stack \<union> fset R \<subseteq> fset (lineage_loop inner stack R) \<and>
    (\<forall>i m. i |\<in>| lineage_loop inner stack R \<longrightarrow> fmlookup (mi_meta inner) i = Some m \<longrightarrow>
      fset (m_deps m) \<subseteq> fset (lineage_loop inner stack R))"
  show ?case
  proof (cases "i |\<in>| R")
    case True
    have "?P stack R" by (rule 2(1)[OF True]) (use 2(4) True in fastforce)
    then show ?thesis using True by auto
  next
    case False
    show ?thesis
    proof (cases "fmlookup (mi_meta inner) i")
      case None
      have "?P stack (finsert i R)" by (rule 2(2)[OF False None]) (use 2(4) None in fastforce)
      then show ?thesis using False None by auto
    next
      case (Some n)
      have "?P (rev (iter_set (m_deps n)) @ stack) (finsert i R)" by (rule 2(3)[OF False Some]) (use 2(4) Some in fastforce)
      then show ?thesis using False Some by auto
    qed
  qed
qed auto

lemma topic_ids:
  assumes "store_ok x inner"
  shows "fset (topic_ids_locked inner t) = ids (stored_hist inner t)"
proof -
  note ix = store_okD(3)[OF assms]
  have "with_meta (mi_meta inner) (\<lambda>m. m_topic_id m = t) = ids (stored_hist inner t)"
  proof (intro set_eqI iffI)
    fix i assume "i \<in> with_meta (mi_meta inner) (\<lambda>m. m_topic_id m = t)"
    then obtain m where m: "fmlookup (mi_meta inner) i = Some m" "m_topic_id m = t" by (auto simp: with_meta_def)
    obtain op where "o_id op = i" "op \<in> stored_hist inner (m_topic_id m)" by (rule stored_meta[OF ix m(1)])
    then show "i \<in> ids (stored_hist inner t)" using m(2) by (auto simp: ids_def)
  next
    fix i assume "i \<in> ids (stored_hist inner t)"
    then obtain op where op: "op \<in> stored_hist inner t" "o_id op = i" by (auto simp: ids_iff)
    obtain m where "fmlookup (mi_meta inner) (o_id op) = Some m" "m_topic_id m = t" by (rule stored_hist_meta[OF ix op(1)])
    then show "i \<in> with_meta (mi_meta inner) (\<lambda>m. m_topic_id m = t)" using op(2) by (auto simp: with_meta_def)
  qed
  then show ?thesis using topic_listing(1)[OF ix core_okD(2)[OF store_okD(1)[OF assms]] refl] by simp
qed

lemma no_orphans:
  assumes "log_reachable x V ol"
  shows "topic_orphans (ol_store ol) t = {||}"
proof -
  let ?in = "ol_store ol" and ?H = "stored_hist (ol_store ol) t"
  let ?S = "lineage_loop ?in (rev (iter_set (store_heads ?in t))) {||}"
  note v = reachable_view[OF assms, of t] and ok = log_okD(1)[OF log_reachable_ok[OF assms]]
  have c: "fset (store_heads ?in t) \<subseteq> fset ?S"
    "\<And>i m. i |\<in>| ?S \<Longrightarrow> fmlookup (mi_meta ?in) i = Some m \<Longrightarrow> fset (m_deps m) \<subseteq> fset ?S"
    using lineage_closed[of "{||}" ?in "rev (iter_set (store_heads ?in t))"] by auto
  have step: "d |\<in>| ?S" if e: "(d, i) \<in> causes ?H" "i |\<in>| ?S" for d i
  proof -
    obtain op where op: "op \<in> ?H" "o_id op = i" "d |\<in>| b_deps (body op)" using e(1) by (auto simp: causes_iff)
    obtain m where "fmlookup (mi_meta ?in) (o_id op) = Some m" "meta_matches op m" by (rule stored_hist_meta[OF store_okD(3)[OF ok] op(1)])
    then show ?thesis using c(2)[of i m] op(2,3) e(2) meta_matchesD(5)[of op m] by auto
  qed
  have reach: "(j, i) \<in> (causes ?H)\<^sup>* \<Longrightarrow> i |\<in>| ?S \<Longrightarrow> j |\<in>| ?S" for i j
    by (induction rule: converse_rtrancl_induct) (auto dest: step)
  have "o_id op |\<in>| ?S" if "op \<in> ?H" for op
  proof -
    have "op \<in> past ?H (frontier ?H)" using past_frontier[OF view_okD(1)[OF v]] that by simp
    then show ?thesis using reach c(1) view_okD(6)[OF v] by (auto simp: past_def)
  qed
  then have "fset (topic_ids_locked ?in t) \<subseteq> fset ?S" unfolding topic_ids[OF ok] by (auto simp: ids_iff)
  then show ?thesis by (auto simp: topic_orphans_def)
qed

lemma reachable_acyclic:
  assumes "log_reachable x V ol"
  shows "acyclic (whole_relation (mi_ops (ol_store ol)) (mi_meta (ol_store ol)) (topic_ids_locked (ol_store ol) t))"
proof -
  let ?in = "ol_store ol" and ?H = "stored_hist (ol_store ol) t"
  note h = view_okD(1)[OF reachable_view[OF assms, of t]] and ok = log_okD(1)[OF log_reachable_ok[OF assms]]
  let ?g = "\<lambda>i. unat (m_generation (the (fmlookup (mi_meta ?in) i)))"
  have "?g d < ?g i" if e: "i |\<in>| topic_ids_locked ?in t" "d \<in> deps_of (mi_meta ?in) i" for d i
  proof -
    obtain op where op: "op \<in> ?H" "o_id op = i" using e(1) topic_ids[OF ok, of t] by (auto simp: ids_iff)
    obtain m where m: "fmlookup (mi_meta ?in) (o_id op) = Some m" "meta_matches op m"
      by (rule stored_hist_meta[OF store_okD(3)[OF ok] op(1)])
    have d: "d |\<in>| b_deps (body op)" using e(2) m op(2) meta_matchesD(5)[OF m(2)] by (simp add: deps_of_def)
    then have "d \<in> ids ?H" using op_okD(4)[OF hist_okD(4)[OF h op(1)]] by blast
    then obtain q where q: "q \<in> ?H" "o_id q = d" unfolding ids_iff by blast
    obtain n where n: "fmlookup (mi_meta ?in) (o_id q) = Some n" "meta_matches q n"
      by (rule stored_hist_meta[OF store_okD(3)[OF ok] q(1)])
    have "unat (b_generation (body q)) < unat (b_generation (body op))"
      using op_okD(6)[OF hist_okD(4)[OF h op(1)]] q d by (auto simp: gen_ok_def)
    then show ?thesis using m n op(2) q(2) meta_matchesD(6)[OF m(2)] meta_matchesD(6)[OF n(2)] by simp
  qed
  then have "whole_relation (mi_ops ?in) (mi_meta ?in) (topic_ids_locked ?in t) \<subseteq> measure ?g"
    by (auto simp: whole_relation_def dep_rel_def whole_deps_def whole_def)
  then show ?thesis using wf_acyclic[OF wf_measure] acyclic_subset by blast
qed

section \<open>A concrete log\<close>

definition sample_world :: world where
  "sample_world = \<lparr>w_ext = sample_ext, w_fingerprint = plain_fingerprint, w_quota = None, w_namespace = False,
     w_budget = (\<lambda>_. free_budget), w_hold = (\<lambda>_ _. Ok ()), w_turn = (\<lambda>_. Ok ()), w_before = (\<lambda>_ ol. ol), w_between = (\<lambda>_ ol. ol)\<rparr>"

definition sample_local :: local_effects where
  "sample_local op m s = Ok \<lparr>ef_sync_obligations = [obligation_repair (ident 8) (ident 100) {|ident 1|}]\<rparr>"

definition genesis_log :: oplog where
  "genesis_log = oplog_new\<lparr>ol_store := genesis_store\<rparr>"

lemma sample_quiet: "quiet sample_world" "plain_budget sample_world" "w_ext sample_world = sample_ext"
  by (simp_all add: quiet_def plain_budget_def sample_world_def free_budget_def)

lemma sample_actor: "actor_id_for (x_blake3 sample_ext) (ident 100) (ident 7) = ident 9"
  by (simp add: actor_id_for_def sample_ext_def)

lemma sample_signed: "sign_validated sample_ext (sample_body 1 None {||} 0 sample_genesis_payload) sample_signer = Ok genesis_op1"
  by (simp add: sign_validated_def op_sign_def signed_op_sign_def op_signing_message_def op_new_def derive_id_def id_hash_def
        ok_or_def sample_ext_def sample_signer_def sample_body_def sample_op_def genesis_op1_def op_validate_def signed_op_verify_def
        crypto_verify_def)

lemma sample_next:
  "next_local_op sample_ext inner_new (ident 100) (ident 9) {||} sample_genesis_payload sample_signer None = Ok genesis_op1"
  using sample_signed by (simp add: next_local_op_def reuse_or_sign_def actor_tip_def inner_new_def sample_body_def sample_signer_def)

lemma genesis_op1_fields: "body genesis_op1 = sample_body 1 None {||} 0 sample_genesis_payload" "o_id genesis_op1 = ident 1"
  by (simp_all add: genesis_op1_def sample_op_def)

lemma sample_validated: "validate_op sample_ext inner_new genesis_op1 = Ok ()"
  by (simp add: validate_op_def genesis_op1_fields sample_body_def sample_genesis_payload_def sample_actor topic_state_locked_def inner_new_def
    actor_index_def actor_tip_def next_actor_position_def validate_local_payload_def deps_generation_def Let_def MAX_TYPE_BYTES_def)

lemma sample_checked:
  "check_local sample_ext inner_new genesis_op1 {||} None sample_local = Ok (sample_meta genesis_op1, genesis_batch)"
proof -
  have m: "meta_for inner_new genesis_op1 = Ok (sample_meta genesis_op1)"
    by (simp add: meta_for_def genesis_op1_fields sample_body_def sample_meta_def meta_of_op_def)
  have b: "local_batch genesis_op1 (sample_meta genesis_op1) {||} None sample_local = Ok genesis_batch"
    by (simp add: local_batch_def genesis_op1_fields sample_body_def sample_genesis_payload_def heads_after_def topic_state_after_def
      genesis_topic_state_def sample_local_def genesis_batch_def genesis_state_def Let_def ok_or_def)
  have "validate_frame sample_ext genesis_op1 = Ok ()" by (simp add: validate_frame_def sample_ext_def ok_or_def MAX_FRAME_LEN_def)
  then show ?thesis by (simp add: check_local_def sample_validated m b)
qed

lemma genesis_created:
  "create_local_effects sample_world 0 (ident 100) (ident 9) sample_genesis_payload sample_signer sample_local oplog_new =
    (Ok (genesis_op1, sample_meta genesis_op1), genesis_log)"
proof -
  have h: "store_heads inner_new (ident 100) = {||}" "topic_state_locked inner_new (ident 100) = None"
    "ensure_room inner_new (ident 100) (ident 9) sample_genesis_payload (ident 7) = Ok ()"
    by (simp_all add: store_heads_def topic_state_locked_def inner_new_def ensure_room_def sample_genesis_payload_def)
  then have "try_local sample_world 0 (ident 100) (ident 9) sample_genesis_payload sample_signer None sample_local oplog_new =
      (None, Ok (genesis_op1, sample_meta genesis_op1), genesis_log)"
    using sample_next sample_checked genesis_admitted
    by (simp add: try_local_def Let_def oplog_new_def with_storage_def sample_world_def sample_signer_def genesis_log_def)
  then show ?thesis by (simp add: create_local_effects_def sample_world_def MAX_ADMISSION_RETRIES_def numeral_eq_Suc)
qed

lemma genesis_log_reachable: "log_reachable sample_ext {genesis_op1} genesis_log"
proof -
  have "log_steps sample_ext {genesis_op1} oplog_new genesis_log"
    by (rule steps_create[OF sample_quiet(3) _ _ genesis_created]) (simp_all add: sample_world_def steps_refl)
  then show ?thesis by (simp add: log_reachable_def)
qed

lemma genesis_log_view:
  "mi_ops (ol_store genesis_log) = fmupd (ident 1) genesis_op1 fmempty" "topic_state_locked (ol_store genesis_log) (ident 100) = Some genesis_state"
  "store_heads (ol_store genesis_log) (ident 100) = {|ident 1|}" "stored_hist (ol_store genesis_log) (ident 100) = {genesis_op1}"
proof -
  show ops: "mi_ops (ol_store genesis_log) = fmupd (ident 1) genesis_op1 fmempty" by (simp add: genesis_log_def genesis_records)
  have "op \<in> stored_hist (ol_store genesis_log) (ident 100) \<longleftrightarrow> op = genesis_op1" for op
  proof
    assume "op \<in> stored_hist (ol_store genesis_log) (ident 100)"
    then show "op = genesis_op1" unfolding stored_hist_def ops by (simp split: if_splits)
  next
    assume "op = genesis_op1"
    then show "op \<in> stored_hist (ol_store genesis_log) (ident 100)"
      unfolding stored_hist_def ops by (simp add: genesis_op1_fields sample_body_def)
  qed
  then show "stored_hist (ol_store genesis_log) (ident 100) = {genesis_op1}" by blast
  obtain plan where p: "mi_heads genesis_store = fmupd (ab_topic_id genesis_batch) (ab_heads genesis_batch) (mi_heads inner_new)"
    "mi_topics genesis_store = (case ab_topic_state genesis_batch of None \<Rightarrow> mi_topics inner_new
      | Some state \<Rightarrow> fmupd (ab_topic_id genesis_batch) state (mi_topics inner_new))"
    by (rule admit_step[OF store_ok_new genesis_admitted genesis_batch_ok])
  show "store_heads (ol_store genesis_log) (ident 100) = {|ident 1|}" "topic_state_locked (ol_store genesis_log) (ident 100) = Some genesis_state"
    by (simp_all add: genesis_log_def p store_heads_def topic_state_locked_def genesis_batch_def genesis_state_def)
qed

text \<open>The event that follows the genesis.\<close>

definition event_op2 :: operation where
  "event_op2 = sample_op (ident 2) 2 (Some (ident 1)) {|ident 1|} 1 (Event \<lparr>ev_type_id = ''e'', ev_payload = [5]\<rparr>)"

lemma event_op2_fields:
  "body event_op2 = sample_body 2 (Some (ident 1)) {|ident 1|} 1 (Event \<lparr>ev_type_id = ''e'', ev_payload = [5]\<rparr>)"
  "b_deps (body event_op2) = {|ident 1|}" "b_topic_id (body event_op2) = ident 100"
  by (simp_all add: event_op2_def sample_op_def sample_body_def)

lemma ws_hold_free: "\<exists>h. ws_hold (\<lambda>_. Ok ()) ws = Ok (ws\<lparr>ws_held := h\<rparr>)"
proof (induction "\<lambda>_::nat. Ok () :: unit result" ws rule: ws_hold.induct)
  case (1 ws)
  show ?case
  proof (cases "ws_used ws \<le> ws_held ws")
    case True
    then show ?thesis by (subst ws_hold.simps) (auto intro: exI[of _ "ws_held ws"])
  next
    case False
    then show ?thesis using 1 by (subst ws_hold.simps) auto
  qed
qed

lemma ws_charge_free:
  assumes "ws_used ws + n \<le> 4096"
  obtains h where "ws_charge (\<lambda>_. Ok ()) n ws = Ok \<lparr>ws_held = h, ws_used = ws_used ws + n\<rparr>"
proof -
  obtain h where "ws_hold (\<lambda>_. Ok ()) (ws\<lparr>ws_used := ws_used ws + n\<rparr>) = Ok (ws\<lparr>ws_used := ws_used ws + n, ws_held := h\<rparr>)"
    using ws_hold_free by blast
  then show thesis using that[of h] assms by (simp add: ws_charge_def MAX_WORKSPACE_BYTES_def Let_def)
qed

lemma genesis_projected:
  "\<exists>s states. project_membership sample_ext (\<lambda>_. Ok ()) (ol_store genesis_log) (ident 100) {|ident 1|} fmempty fmempty (ol_states genesis_log) =
    Ok (s, states)"
proof -
  let ?f = "\<lambda>_::nat. Ok () :: unit result"
  have m: "fmlookup (mi_meta (ol_store genesis_log)) (ident 1) = Some (sample_meta genesis_op1)" by (simp add: genesis_log_def genesis_records)
  obtain h1 where h1: "ws_charge ?f WALK_BYTES \<lparr>ws_held = 0, ws_used = 0\<rparr> = Ok \<lparr>ws_held = h1, ws_used = 64\<rparr>"
    by (rule ws_charge_free[of "\<lparr>ws_held = 0, ws_used = 0\<rparr>" WALK_BYTES]) (simp_all add: WALK_BYTES_def)
  obtain h2 where h2: "ws_charge ?f SEEN_BYTES \<lparr>ws_held = h1, ws_used = 64\<rparr> = Ok \<lparr>ws_held = h2, ws_used = 144\<rparr>"
    by (rule ws_charge_free[of "\<lparr>ws_held = h1, ws_used = 64\<rparr>" SEEN_BYTES]) (simp_all add: SEEN_BYTES_def)
  obtain h3 where h3: "ws_charge ?f 0 \<lparr>ws_held = h2, ws_used = 144\<rparr> = Ok \<lparr>ws_held = h3, ws_used = 144\<rparr>"
    by (rule ws_charge_free[of "\<lparr>ws_held = h2, ws_used = 144\<rparr>" 0]) simp_all
  obtain h4 where h4: "ws_charge ?f 300 \<lparr>ws_held = h3, ws_used = 144\<rparr> = Ok \<lparr>ws_held = h4, ws_used = 444\<rparr>"
    by (rule ws_charge_free[of "\<lparr>ws_held = h3, ws_used = 144\<rparr>" 300]) simp_all
  have grows: "fold_bytes genesis_op1 = 145"
    by (simp add: fold_bytes_def genesis_op1_fields sample_body_def sample_genesis_payload_def PEER_BYTES_def policy_all_def fcard.rep_eq)
  have visit: "project_visit sample_ext ?f (ol_store genesis_log) (ident 100) fmempty fmempty fmempty (ident 1) ({||}, [], 0, \<lparr>ws_held = h1, ws_used = 64\<rparr>) =
      Ok ({||}, {||}, [genesis_op1], 145, \<lparr>ws_held = h4, ws_used = 444\<rparr>)"
    using h2 h3 h4 m grows
    by (simp add: project_visit_def meta_projected_def op_projected_def genesis_log_view sample_meta_def genesis_op1_fields sample_body_def
      sample_genesis_payload_def ok_or_def sample_ext_def fcard.rep_eq)
  obtain h5 where h5: "ws_charge ?f (STATE_BASE_BYTES + 290) \<lparr>ws_held = h4, ws_used = 444\<rparr> = Ok \<lparr>ws_held = h5, ws_used = 1246\<rparr>"
    by (rule ws_charge_free[of "\<lparr>ws_held = h4, ws_used = 444\<rparr>" "STATE_BASE_BYTES + 290"]) (simp_all add: STATE_BASE_BYTES_def)
  have "\<exists>s. materialize_topic_state [genesis_op1] {||} = Ok s"
    by (simp add: materialize_topic_state_def materialize_step_def genesis_op1_fields sample_body_def sample_genesis_payload_def ok_or_def)
  moreover have "iter_set {|ident 1|} = [ident 1]" "WALK_BYTES * fcard {|ident 1|} = WALK_BYTES"
    by (simp_all add: iter_set_def fcard.rep_eq sorted_list_of_fset.rep_eq)
  moreover have "ol_states genesis_log = fmempty" by (simp add: genesis_log_def oplog_new_def with_storage_def)
  ultimately show ?thesis using h1 visit h5 by (auto simp: project_membership_def)
qed

lemma event_op2_next:
  "next_local_op sample_ext (ol_store genesis_log) (ident 100) (ident 9) {|ident 1|} (Event \<lparr>ev_type_id = ''e'', ev_payload = [5]\<rparr>) sample_signer None =
    Ok event_op2"
proof -
  let ?in = "ol_store genesis_log"
  note ix = store_okD(3)[OF log_okD(1)[OF log_reachable_ok[OF genesis_log_reachable]]]
  have tip: "actor_tip ?in (ident 100) (ident 9) = Some (1, ident 1)"
    using stored_tip[OF ix, of "ident 100" "ident 9"]
    by (auto simp: actor_tip_def is_tip_def genesis_log_view genesis_op1_fields sample_body_def split: option.splits)
  have m: "mi_meta ?in = fmupd (ident 1) (sample_meta genesis_op1) fmempty" by (simp add: genesis_log_def genesis_records)
  have "g = 0" if g: "fmlookup (mi_max_generation ?in) (ident 100) = Some g" for g
  proof -
    obtain i n where n: "fmlookup (mi_meta ?in) i = Some n" "m_generation n = g"
      using indexed_okD(6)[OF ix] g unfolding generations_ok_def by blast
    then have "n = sample_meta genesis_op1" unfolding m by (simp split: if_splits)
    then show ?thesis using n(2) by (simp add: sample_meta_def genesis_op1_fields sample_body_def)
  qed
  then have "max_generation ?in (ident 100) = 0" by (cases "fmlookup (mi_max_generation ?in) (ident 100)") (simp_all add: max_generation_def get_or_def)
  moreover have "sign_validated sample_ext (body event_op2) sample_signer = Ok event_op2"
    by (simp add: sign_validated_def op_sign_def signed_op_sign_def op_signing_message_def op_new_def derive_id_def id_hash_def
        ok_or_def sample_ext_def sample_signer_def sample_body_def sample_op_def event_op2_def op_validate_def signed_op_verify_def
        crypto_verify_def)
  ultimately show ?thesis using tip
    by (simp add: next_local_op_def reuse_or_sign_def checked_next_def checked_add_def ok_or_def Let_def event_op2_fields(1) sample_body_def sample_signer_def)
qed

lemmas genesis_log_facts = genesis_log_view genesis_op1_fields sample_quiet sample_actor

section \<open>The properties\<close>

text \<open>
  C1. In every op log the calls reach, the stored operations of a topic form a history: each is
  signed by its author, follows the actor's chain, has the generation its dependencies give it, has its
  dependencies stored, and was written by a member in the state its dependencies make. The heads are the
  history's frontier, the topic's state is the replay of exactly these operations, and the clock stored
  with an operation is the highest position of every actor below it.
\<close>

theorem oplog_history_invariant:
  assumes "log_reachable x V ol"
  shows "hist_ok x t (stored_hist (ol_store ol) t) \<and> fset (store_heads (ol_store ol) t) = frontier (stored_hist (ol_store ol) t) \<and>
    (case topic_state_locked (ol_store ol) t of
       None \<Rightarrow> stored_hist (ol_store ol) t = {}
     | Some s \<Rightarrow> materialized (stored_hist (ol_store ol) t) (store_heads (ol_store ol) t) s) \<and>
    (\<forall>op m. op \<in> stored_hist (ol_store ol) t \<longrightarrow> fmlookup (mi_meta (ol_store ol)) (o_id op) = Some m \<longrightarrow>
      clock_is (deps_past (stored_hist (ol_store ol) t) op) (m_observed_clock m))"
proof -
  note v = reachable_view[OF assms, of t]
  have "case topic_state_locked (ol_store ol) t of
       None \<Rightarrow> stored_hist (ol_store ol) t = {}
     | Some s \<Rightarrow> materialized (stored_hist (ol_store ol) t) (store_heads (ol_store ol) t) s"
    using view_okD(7)[OF v] reachable_state[OF assms] by (simp add: state_of_def split: option.splits)
  then show ?thesis using view_okD(1,6)[OF v] topic_okD(3)[OF log_okD(2)[OF log_reachable_ok[OF assms]]] by blast
qed

theorem oplog_history_invariant_witness:
  "hist_ok sample_ext (ident 100) {genesis_op1} \<and> materialized {genesis_op1} {|ident 1|} genesis_state"
  using oplog_history_invariant[OF genesis_log_reachable, of "ident 100"] by (simp add: genesis_log_view)

text \<open>
  C2. Two op logs over operations in one circulation whose heads of a topic are equal hold the same
  operations of the topic and the same topic state, whatever calls led to them.
\<close>

theorem oplog_convergence:
  assumes "log_reachable x V a" "log_reachable x V b" "store_heads (ol_store a) t = store_heads (ol_store b) t"
  shows "stored_hist (ol_store a) t = stored_hist (ol_store b) t \<and>
    topic_state_locked (ol_store a) t = topic_state_locked (ol_store b) t"
proof -
  note va = reachable_view[OF assms(1), of t] and vb = reachable_view[OF assms(2), of t]
  have inj: "inj_on o_id V" using assms(1) by (simp add: log_reachable_def)
  have H: "stored_hist (ol_store a) t = stored_hist (ol_store b) t"
    by (rule frontier_determines[OF view_okD(1)[OF va] view_okD(1)[OF vb]])
      (use inj_on_subset[OF inj] view_okD(2,6)[OF va] view_okD(2,6)[OF vb] assms(3) in auto)
  show ?thesis
  proof (cases "stored_hist (ol_store b) t = {}")
    case True
    then show ?thesis using H view_okD(7)[OF va] view_okD(7)[OF vb] by (auto dest!: state_of_empty)
  next
    case False
    then obtain sa sb where s: "topic_state_locked (ol_store a) t = Some sa" "topic_state_locked (ol_store b) t = Some sb"
      using H view_okD(7)[OF va] view_okD(7)[OF vb] by (auto simp: state_of_def split: option.splits)
    have "sa = sb"
      using materialized_unique[OF hist_okD(2)[OF view_okD(1)[OF va]] reachable_state[OF assms(1) s(1)]]
        reachable_state[OF assms(2) s(2)] H assms(3) by simp
    then show ?thesis using H s by simp
  qed
qed

theorem oplog_convergence_witness:
  "stored_hist (ol_store (recheck_topics genesis_log)) (ident 100) = stored_hist (ol_store genesis_log) (ident 100) \<and>
    topic_state_locked (ol_store (recheck_topics genesis_log)) (ident 100) = topic_state_locked (ol_store genesis_log) (ident 100)"
proof -
  have "log_reachable sample_ext {genesis_op1} (recheck_topics genesis_log)"
    using genesis_log_reachable steps_trans[OF _ steps_recheck] by (auto simp: log_reachable_def)
  from oplog_convergence[OF this genesis_log_reachable, of "ident 100"] show ?thesis
    by (simp add: recheck_topics_def clear_cache_def)
qed

text \<open>
  C8. In every op log the calls reach, quarantine has nothing to discard: every stored operation of a
  topic is reached from the topic's heads, so the call returns without touching the log.
\<close>

theorem oplog_quarantine_idle:
  assumes "log_reachable x V ol"
  shows "quarantine_orphans W k t ol = (Ok None, ol)"
  using no_orphans[OF assms] by (simp add: quarantine_orphans_def)

theorem oplog_quarantine_idle_witness: "quarantine_orphans sample_world 0 (ident 100) genesis_log = (Ok None, genesis_log)"
  by (rule oplog_quarantine_idle[OF genesis_log_reachable])

text \<open>
  C7. In every op log the calls reach, listing a topic succeeds: it returns all the topic's operations
  with their metadata, each once and after everything it depends on, and never reports a cycle.
\<close>

theorem oplog_listing_total:
  assumes "log_reachable x V ol"
  shows "\<exists>entries. topological_entries (memory_snapshot f (ol_store ol)) t = Ok entries \<and>
    fst ` set entries = stored_hist (ol_store ol) t \<and> distinct (map fst entries) \<and>
    (\<forall>ys op m zs. entries = ys @ (op, m) # zs \<longrightarrow> fset (b_deps (body op)) \<subseteq> ids (fst ` set ys))"
proof -
  let ?in = "ol_store ol" and ?H = "stored_hist (ol_store ol) t" and ?ids = "topic_ids_locked (ol_store ol) t"
  note ok = log_okD(1)[OF log_reachable_ok[OF assms]]
  note ix = store_okD(3)[OF ok] and dc = core_okD(2)[OF store_okD(1)[OF ok]] and ac = reachable_acyclic[OF assms, of t]
  note l = topic_listing[OF ix dc refl, where topic = t]
  obtain out where o: "subset_entries_in (memory_snapshot f ?in) ?ids =
      (if acyclic (whole_relation (mi_ops ?in) (mi_meta ?in) ?ids)
       then Ok (map (\<lambda>m. (the (fmlookup (mi_ops ?in) (m_id m)), m)) out) else Err (Storage ''cycle in op graph''))"
    "distinct (map m_id out)" "deps_first (whole_deps (mi_meta ?in) ?ids) (map m_id out)"
    "\<forall>m \<in> set out. fmlookup (mi_meta ?in) (m_id m) = Some m"
    "acyclic (whole_relation (mi_ops ?in) (mi_meta ?in) ?ids) \<longrightarrow> set (map m_id out) = whole (mi_ops ?in) (mi_meta ?in) ?ids"
    by (rule subset_entries_run[OF memory_snapshot_coherent[OF ix, of f], where ids = ?ids])
  let ?op = "\<lambda>m. the (fmlookup (mi_ops ?in) (m_id m))"
  let ?entries = "map (\<lambda>m. (?op m, m)) out"
  have all: "m_id ` set out = ids ?H" using o(5) ac l(2) topic_ids[OF ok, of t] by simp
  have op: "?op m \<in> ?H \<and> o_id (?op m) = m_id m \<and> meta_matches (?op m) m" if m: "m \<in> set out" for m
  proof -
    obtain q where q: "q \<in> ?H" "o_id q = m_id m" using all m by (metis (no_types, lifting) ids_iff imageI)
    then have "fmlookup (mi_ops ?in) (m_id m) = Some q" by (simp add: stored_hist_def)
    moreover obtain n where "fmlookup (mi_meta ?in) (o_id q) = Some n" "meta_matches q n" by (rule stored_hist_meta[OF ix q(1)])
    ultimately show ?thesis using q o(4) m by simp
  qed
  have "fst ` set ?entries = ?H"
  proof (intro set_eqI iffI)
    fix q assume q: "q \<in> ?H"
    then have "o_id q \<in> m_id ` set out" using all by (auto simp: ids_iff)
    then obtain m where "m \<in> set out" "m_id m = o_id q" by auto
    moreover from this have "?op m = q" using q by (simp add: stored_hist_def)
    ultimately show "q \<in> fst ` set ?entries" by force
  qed (use op in auto)
  moreover have "distinct (map fst ?entries)"
  proof -
    have "inj_on ?op (set out)" using op o(2) by (metis (no_types, lifting) distinct_map inj_onI inj_onD)
    then show ?thesis using o(2) by (simp add: comp_def distinct_map)
  qed
  moreover have "fset (b_deps (body q)) \<subseteq> ids (fst ` set ys)" if e: "?entries = ys @ (q, m) # zs" for ys q m zs
  proof -
    have out: "out = map snd ys @ m # map snd zs" using arg_cong[OF e, of "map snd"] by (simp add: comp_def)
    have q: "q = ?op m" using e by (auto simp: map_eq_append_conv map_eq_Cons_conv)
    have m: "fmlookup (mi_meta ?in) (m_id m) = Some m" "m_id m |\<in>| ?ids" using o(4) all out topic_ids[OF ok, of t] by auto
    have "whole_deps (mi_meta ?in) ?ids (m_id m) \<subseteq> set (map m_id (map snd ys))"
      using o(3) out unfolding deps_first_def by (metis list.simps(9) map_append)
    moreover have "fset (m_deps m) \<subseteq> whole_deps (mi_meta ?in) ?ids (m_id m)"
      using l(4)[OF m(2,1)] by (simp add: whole_deps_def deps_of_def m(1))
    moreover have "m_deps m = b_deps (body q)" using op[of m] out meta_matchesD(5) by (simp add: q)
    moreover have "m_id (snd y) = o_id (fst y)" if "y \<in> set ys" for y
    proof -
      have "y \<in> set ?entries" using that e by simp
      then show ?thesis using op by auto
    qed
    ultimately show ?thesis by (force simp: ids_iff)
  qed
  ultimately show ?thesis using o(1) ac l(3) by (intro exI[of _ ?entries]) auto
qed

theorem oplog_listing_total_witness:
  "\<exists>entries. topological_entries (memory_snapshot plain_fingerprint (ol_store genesis_log)) (ident 100) = Ok entries \<and> map fst entries = [genesis_op1]"
proof -
  obtain entries where e: "topological_entries (memory_snapshot plain_fingerprint (ol_store genesis_log)) (ident 100) = Ok entries"
    "set (map fst entries) = {genesis_op1}" "distinct (map fst entries)"
    using oplog_listing_total[OF genesis_log_reachable, of plain_fingerprint "ident 100"] by (auto simp: genesis_log_view)
  have "xs = [a]" if "set xs = {a}" "distinct xs" for xs :: "operation list" and a
    using that by (cases xs; cases "tl xs") auto
  then show ?thesis using e by blast
qed









end
