(* ===== verification/Spec2Isabelle.thy ===== *)
theory Spec2Isabelle
  imports Membership Evidence Topology_Store Memory_Properties Memory_Snapshot Oplog_Properties
begin

text \<open>
  Verification of \<^emph>\<open>irokle\<close>, a replicated op log. Operations are signed, named by the hash of
  their signed encoding, and form a graph per topic: every operation names the operations it depends
  on and its position in its actor's chain. A store keeps the operations with metadata and indexes,
  buffers the ones whose dependencies are missing, and tracks which peer has reached what; the op log
  above it decides what may be admitted, and sync exchanges operations between peers.

  \<^bold>\<open>Conventions.\<close> A fallible function of the code returns \<open>error + 'a\<close>, with \<open>Ok\<close> and \<open>Err\<close> as
  constructors, and a function that mutates a struct takes and returns the record that models it. A
  store whose operation fails is the store before the call: the code plans before it writes, and
  \<open>store_ok\<close> excludes the failures that could come later. \<open>u64\<close> is a 64-bit word, \<open>usize\<close> of
  lengths is \<open>nat\<close>. \<open>BTreeMap\<close> and \<open>BTreeSet\<close> are finite maps and sets iterated in key order.
  Third-party code is an argument: hashing, signatures and the postcard encoding are the fields of
  \<open>externals\<close>, the topic fingerprint is a function, and the memory budget answers every reservation
  a transaction makes (\<open>budget\<close>), so that every refusal is a possible run. Formatted error texts carry
  their fixed part. Counters for diagnostics, log lines and lock poisoning are left out.

  \<^bold>\<open>Theories.\<close>
  \<^item> \<open>Prelude\<close>: words with checked and saturating arithmetic, results and folds over them, finite maps
    with the code's accessors.
  \<^item> \<open>Ids\<close> (\<open>ids.rs\<close>): 32-byte identifiers, their order, display and parsing.
  \<^item> \<open>Clock_Node\<close>, \<open>Clock_Trie\<close>, \<open>Clock_Select\<close>, \<open>Clock\<close> (\<open>clock.rs\<close>): the actor clock, a persistent trie
    over nibbles with bitmap-compressed children. Recursion follows the depth of the trie, 64 nibbles at
    most, which the well-formedness invariant states. The clock refines a map from actors to sequence
    numbers; merge is the least upper bound; sharing of subtrees does not change results.
  \<^item> \<open>Ops\<close> (\<open>op.rs\<close>, \<open>crypto.rs\<close>, \<open>topic.rs\<close>, \<open>event.rs\<close>, \<open>error.rs\<close>): bodies, signing, validation, payloads.
  \<^item> \<open>Records\<close> (\<open>storage/record.rs\<close>, \<open>storage/mod.rs\<close>): metadata, batches and their checks, pending quotas.
  \<^item> \<open>Evidence\<close> (\<open>storage/evidence.rs\<close>): acknowledgements, obligations, settlement, sync status.
  \<^item> \<open>Membership\<close> (\<open>oplog/membership.rs\<close>): topic state by replay, by increments and by merge, and that the
    three agree.
  \<^item> \<open>Kahn\<close>, \<open>Topology\<close>, \<open>Topology_Store\<close> (\<open>oplog/topology.rs\<close>): topological orders. \<open>Kahn\<close> is the abstract
    loop, the other two refine it for a batch and for a set of ids of a store with holes.
  \<^item> \<open>Snapshot\<close> (the \<open>SnapshotRead\<close> trait): the reads of one coherent snapshot and those derived from them;
    the locale \<open>coherent_snapshot\<close> is what readers rely on.
  \<^item> \<open>Staging_Quota\<close> (\<open>storage/staging.rs\<close>): limits and quota checks of provisional namespaces.
  \<^item> \<open>Worklist\<close>: the closure loop the code writes over adjacency maps.
  \<^item> \<open>Memory_Inner\<close>, \<open>Memory_Pending\<close>, \<open>Memory_Writes\<close> (\<open>storage/memory/mod.rs\<close>): the in-memory store. Its
    record has the fields of \<open>MemoryInner\<close> but for the charges, and one function per transaction.
  \<^item> \<open>Pending_Buffering\<close>, \<open>Pending_Subtrees\<close>: the pending pool's invariant under buffering and removal.
  \<^item> \<open>Memory_Index\<close>, \<open>Memory_Admission\<close>, \<open>Memory_Store\<close>, \<open>Memory_Evidence\<close>, \<open>Memory_Reach\<close>: the store's
    invariant \<open>store_ok\<close>, kept by every transaction, and the step relation \<open>mem_step\<close> over them.
    \<open>Memory_Properties\<close> states what each transaction does from any reachable store.
  \<^item> \<open>Memory_Snapshot\<close>, \<open>Memory_Reads\<close>: a store with exact indexes is a coherent snapshot; the plain reads
    and the sized reads that override the trait's.
  \<^item> \<open>Oplog_Genesis\<close> (\<open>oplog/genesis.rs\<close>): collisions of geneses. \<open>Oplog_Overlay\<close> (\<open>oplog/pending.rs\<close> and the
    helpers of \<open>oplog/admission.rs\<close>): reads through a batch, checks of operations that must wait, and the
    verdict on buffered ones. \<open>Oplog_Projection\<close>: membership at a causal frontier. \<open>Oplog_Batch\<close>: validating
    and building a batch. \<open>Oplog_Admission\<close>: attempts, retries and draining of the pending pool.
    \<open>Oplog_Creation\<close> (\<open>oplog/creation.rs\<close>): local operations. \<open>Oplog_Quarantine\<close>, \<open>Oplog_Facade\<close>
    (\<open>oplog/mod.rs\<close>): rebuilding a topic, and the public calls.
  \<^item> \<open>History\<close>: histories as sets of operations closed under dependencies; what a frontier, an actor's
    position and a clock say about them.
  \<^item> \<open>Projection_Sound\<close>, \<open>Validation_Sound\<close>, \<open>Batch_Sound\<close>, \<open>Build_Sound\<close>, \<open>Commit_Sound\<close>: membership projected at a
    frontier is the replay of the operations below it, what validation admits extends the topic's
    history, and a committed batch is such an extension.
  \<^item> \<open>Admission_Sound\<close>, \<open>Creation_Sound\<close>, \<open>Oplog_Reach\<close>: the op log's invariant \<open>log_ok\<close> (every topic holds a history
    with its replayed state and exact clocks, every cached projection is a replay, everything buffered is
    valid), kept by receiving, creating, reconciling and quarantine; the step relation \<open>log_steps\<close> over the
    calls and the logs it reaches.
  \<^item> \<open>Receive_Effects\<close>, \<open>Receive_Loop\<close>: what one attempt and the whole draining loop store and report, and that
    the loop ends. \<open>Local_Progress\<close>: the operation built on the current heads validates.
    \<open>Oplog_Properties\<close> states the properties of reachable logs.

  \<^bold>\<open>The op log's runs.\<close> The op log is modelled over the in-memory store, the default of its type parameter.
  Its state survives an error, so its functions return a result and the state. An attempt validates
  against one store and commits against a later one: the fields \<open>w_before\<close> and \<open>w_between\<close> of \<open>world\<close> are
  what other writers do in between, indexed by a tick that every attempt advances; the memory
  budget's answers and whether the topic's turn came in time are indexed the same way. The validation of
  one attempt sees one store, since writers of one topic take turns. Retries are bounded by the code's
  64 attempts; the draining loop is a partial function whose \<open>None\<close> is a call that does not return.

  The reachable logs are those of \<open>log_steps\<close>: any sequence of calls, each with other writers of the same
  store that run steps of their own at \<open>w_before\<close> and \<open>w_between\<close>. The set \<open>V\<close> holds the operations in
  circulation; that no two of them share an id is the hash's collision resistance. Operations passed as
  verified were verified (\<open>sound_op\<close>). What a receive call reports, and that it returns, is stated with no
  other writer during the call (\<open>quiet\<close>) and for a budget whose refusals are plain errors (\<open>plain_budget\<close>).

  \<^bold>\<open>Contract of the store.\<close> A batch handed to the store names one operation per id and its stored
  dependencies lie in the batch's topic (\<open>batch_ok\<close>). Sizes of encodings fit 63 bits (\<open>sizes_ok\<close>).

  \<^bold>\<open>Not modelled.\<close> The Fjall store (the same contract over a third-party database), provisional
  namespaces of the in-memory store, the memory budget and the disk pressure guard, the integrity scan
  and its verdicts, the turns writers of a topic take (a lock with a deadline), pauses between retries,
  sync planning and its wire exchange, the node and the iroh transport (asynchronous tasks over
  third-party networking), the derive macro, examples and fuzz targets.
\<close>

section \<open>Listing a topic of the in-memory store\<close>



end
